(* ===== verification/Kernel_Prelude.thy ===== *)
theory Kernel_Prelude
  imports Main "HOL-Library.Word" "HOL-Library.Signed_Division"
begin

text \<open>
  What every component of the development shares: the names of the C integer types
  (\<^verbatim>\<open>kernel/src/base/base_def.c\<close>), the result type in which a failed \<^verbatim>\<open>kassert\<close>, a
  \<^verbatim>\<open>kpanic\<close>, an access outside an object and an exhausted fuel are values, C arrays as
  lists with bounds-checked access, and the generic lemmas on them.

  A pointer or an address is a \<^typ>\<open>64 word\<close>; \<^verbatim>\<open>Int\<close> (\<^verbatim>\<open>ptrdiff_t\<close>) is a HOL integer, and every
  place where a C conversion can lose bits writes the conversion out.
\<close>

section \<open>C types\<close>

unbundle bit_operations_syntax

type_synonym U8 = "8 word"
type_synonym U16 = "16 word"
type_synonym U32 = "32 word"
type_synonym U64 = "64 word"
type_synonym I64 = "64 word"
type_synonym Uintptr = "64 word"
type_synonym ptr = "64 word"

definition U32_MAX :: int where
  "U32_MAX = 4294967295"

definition BIT :: "nat \<Rightarrow> U64" where
  "BIT b = push_bit b 1"

definition KB :: "U64 \<Rightarrow> U64" where
  "KB n = n * 1024"

definition MB :: "U64 \<Rightarrow> U64" where
  "MB n = KB n * 1024"

definition GB :: "U64 \<Rightarrow> U64" where
  "GB n = MB n * 1024"

definition TB :: "U64 \<Rightarrow> U64" where
  "TB n = GB n * 1024"

section \<open>Results\<close>

text \<open>
  \<open>Assert_Failed\<close> and \<open>Kpanic\<close> end in \<^verbatim>\<open>hcf\<close>, the endless halt loop, so nothing after
  them runs: they are final values of a computation. \<open>Fault\<close> is an access the C program
  has no right to make (a NULL or unmapped pointer, an index outside an array).
  \<open>Out_Of_Fuel\<close> is the value of a loop whose fuel ran out.
\<close>

datatype kerror =
    Assert_Failed string
  | Kpanic string
  | Fault string
  | Out_Of_Fuel

type_synonym 'a result = "kerror + 'a"

definition sbind :: "'a result \<Rightarrow> ('a \<Rightarrow> 'b result) \<Rightarrow> 'b result" where
  "sbind r f = (case r of Inl e \<Rightarrow> Inl e | Inr x \<Rightarrow> f x)"

text \<open>\<^verbatim>\<open>kassert_message(assertion, message)\<close>.\<close>

definition kassert :: "bool \<Rightarrow> string \<Rightarrow> unit result" where
  "kassert assertion message = (if \<not> assertion then Inl (Assert_Failed message) else Inr ())"

section \<open>C arrays\<close>

definition array_get :: "'a list \<Rightarrow> int \<Rightarrow> 'a result" where
  "array_get xs i =
     (if 0 \<le> i \<and> i < int (length xs) then Inr (xs ! nat i) else Inl (Fault ''array read''))"

definition array_set :: "'a list \<Rightarrow> int \<Rightarrow> 'a \<Rightarrow> 'a list result" where
  "array_set xs i v =
     (if 0 \<le> i \<and> i < int (length xs) then Inr (xs[nat i := v]) else Inl (Fault ''array write''))"

section \<open>Shared lemmas\<close>

named_theorems result_simps

lemma sbind_Inr [simp]: "sbind (Inr x) f = f x"
  by (simp add: sbind_def)

lemma sbind_Inl [simp]: "sbind (Inl e) f = Inl e"
  by (simp add: sbind_def)

lemma sbind_eq_Inr: "sbind r f = Inr y \<longleftrightarrow> (\<exists>x. r = Inr x \<and> f x = Inr y)"
  by (cases r) auto

lemma sbind_cong [fundef_cong]:
  "r = r' \<Longrightarrow> (\<And>x. r' = Inr x \<Longrightarrow> f x = f' x) \<Longrightarrow> sbind r f = sbind r' f'"
  by (cases r') auto

lemma sbind_assoc: "sbind (sbind r f) g = sbind r (\<lambda>x. sbind (f x) g)"
  by (cases r) auto

lemma kassert_ok [simp]: "b \<Longrightarrow> kassert b m = Inr ()"
  by (simp add: kassert_def)

lemma kassert_fail [simp]: "\<not> b \<Longrightarrow> kassert b m = Inl (Assert_Failed m)"
  by (simp add: kassert_def)

lemma kassert_eq_Inr [simp]: "kassert b m = Inr u \<longleftrightarrow> b"
  by (cases b) auto

lemma array_get_ok [simp]:
  "0 \<le> i \<Longrightarrow> i < int (length xs) \<Longrightarrow> array_get xs i = Inr (xs ! nat i)"
  by (simp add: array_get_def)

lemma array_get_eq_Inr:
  "array_get xs i = Inr v \<longleftrightarrow> 0 \<le> i \<and> i < int (length xs) \<and> v = xs ! nat i"
  by (auto simp: array_get_def)

lemma array_set_ok [simp]:
  "0 \<le> i \<Longrightarrow> i < int (length xs) \<Longrightarrow> array_set xs i v = Inr (xs[nat i := v])"
  by (simp add: array_set_def)

lemma array_set_eq_Inr:
  "array_set xs i v = Inr ys \<longleftrightarrow> 0 \<le> i \<and> i < int (length xs) \<and> ys = xs[nat i := v]"
  by (auto simp: array_set_def)

declare sbind_eq_Inr [result_simps] array_get_eq_Inr [result_simps] array_set_eq_Inr [result_simps]

lemma unat_Suc_less:
  fixes i n :: "'a::len word"
  assumes "i < n"
  shows "unat (i + 1) = Suc (unat i)"
proof -
  have "unat i < unat n"
    using assms by (simp add: word_less_nat_alt)
  then have "unat i + 1 < 2 ^ LENGTH('a)"
    using unsigned_less [of n, where ?'a = nat] by linarith
  then show ?thesis
    by (simp add: unat_word_ariths)
qed

lemma unat_less_uint: "unat w < n \<longleftrightarrow> uint w < int n"
  by (metis of_nat_less_iff of_nat_unat)

lemma unat_add_less_uint: "unat w + x < n \<longleftrightarrow> uint w + int x < int n"
  by (metis of_nat_add of_nat_less_iff of_nat_unat)

lemma unat_le_uint: "unat v \<le> unat w \<longleftrightarrow> uint v \<le> uint w" for v w :: "'a::len word"
  by (simp flip: word_le_def word_le_nat_alt)

lemma sint_small:
  fixes w :: U64
  assumes "unat w < 2 ^ 63"
  shows "sint w = int (unat w)"
proof -
  have "- (2 ^ 63) \<le> uint w" by (rule order_trans [OF _ uint_ge_0]) simp
  then show ?thesis
    using assms by (simp add: sint_uint signed_take_bit_int_eq_self unat_less_uint)
qed

lemma sdiv_nonneg [simp]: "0 \<le> a \<Longrightarrow> 0 < b \<Longrightarrow> a sdiv b = a div (b::int)"
  by (auto simp: signed_divide_int_def sgn_if)

lemma smod_nonneg [simp]: "0 \<le> a \<Longrightarrow> 0 < b \<Longrightarrow> a smod b = a mod (b::int)"
  by (auto simp: signed_modulo_int_def sgn_if)

end
