(* ===== verification/Physical_Allocator.thy ===== *)
theory Physical_Allocator
  imports Kernel_Prelude
begin

text \<open>
  The physical page allocator, \<^verbatim>\<open>kernel/src/system/system_physical_allocator.c\<close>: one allocator per
  range of physical memory, a bitmap that says which page is used and a stack of the free pages.

  The C struct lies at the start of the range it manages, followed by the bitmap and the stack.
  \<open>system_pa_init\<close> gets the bytes that were there before, zeroes as many as the C code does, and takes the
  two arrays from the result, as lists in the record (\<open>pages_bitmap\<close>, \<open>pages_stack\<close>, with the lengths
  \<open>system_pa_calculate_size_specification\<close> gives them): when the metadata pages are too few for the arrays, the part
  beyond them holds what was there before. From then on the arrays are objects of their own, and every
  access to them is bounds checked. A function that writes the struct returns the new record.

  The invariant \<open>pa_wf\<close> says how the bitmap and the stack agree; the abstraction \<open>pa_frees\<close> is the
  set of free page numbers. The interface \<open>page_allocator\<close> states what a client may rely on, and
  the model of the C code is an interpretation of it.
\<close>

section \<open>The code\<close>

definition SYSTEM_PAGE_SIZE :: int where
  "SYSTEM_PAGE_SIZE = 4096"

record System_Physical_Allocator =
  pa_next :: ptr
  pa_next_16mb :: ptr
  pa_next_4gb :: ptr
  pa_size :: int
  stack_top :: int
  pages_bitmap :: "U64 list"
  pages_stack :: "U32 list"
  address_base :: Uintptr

record System_Pa_Page_Index =
  bitmap_index :: int
  bit_index :: int

definition system_pa_calculate_page_index ::
    "System_Physical_Allocator \<Rightarrow> int \<Rightarrow> System_Pa_Page_Index result" where
  "system_pa_calculate_page_index pa page =
     sbind (kassert (0 \<le> page \<and> page < pa_size pa) ''0 <= page && page < pa->size'') (\<lambda>_.
     Inr \<lparr> bitmap_index = page sdiv 64, bit_index = page smod 64 \<rparr>)"

record System_Pa_Size_Specification =
  stack_size :: int
  bitmap_size :: int

definition size_of_U32 :: int where
  "size_of_U32 = 4"

definition size_of_U64 :: int where
  "size_of_U64 = 8"

text \<open>Eight fields of eight bytes each.\<close>

definition size_of_System_Physical_Allocator :: int where
  "size_of_System_Physical_Allocator = 64"

definition system_pa_calculate_size_specification ::
    "int \<Rightarrow> System_Pa_Size_Specification result" where
  "system_pa_calculate_size_specification page_count =
     sbind (kassert (page_count \<le> U32_MAX) ''page_count <= U32_MAX'') (\<lambda>_.
     Inr \<lparr> stack_size = page_count * size_of_U32,
           bitmap_size =
             ((page_count + (size_of_U64 * 8 - 1)) sdiv (size_of_U64 * 8)) * size_of_U64 \<rparr>)"

definition system_pa_calculate_required_size :: "int \<Rightarrow> int result" where
  "system_pa_calculate_required_size page_count =
     sbind (kassert (page_count \<le> U32_MAX) ''page_count <= U32_MAX'') (\<lambda>_.
     sbind (system_pa_calculate_size_specification page_count) (\<lambda>spec.
     Inr (size_of_System_Physical_Allocator + stack_size spec + bitmap_size spec)))"

definition system_pa_set_used ::
    "System_Physical_Allocator \<Rightarrow> int \<Rightarrow> System_Physical_Allocator result" where
  "system_pa_set_used pa page_index =
     sbind (system_pa_calculate_page_index pa page_index) (\<lambda>page.
     sbind (array_get (pages_bitmap pa) (bitmap_index page)) (\<lambda>w.
     sbind (array_set (pages_bitmap pa) (bitmap_index page)
              (w OR push_bit (nat (bit_index page)) 1)) (\<lambda>bm.
     Inr (pa\<lparr> pages_bitmap := bm \<rparr>))))"

text \<open>The first loop of \<^verbatim>\<open>system_pa_init\<close>: it pushes the pages \<open>i, i + 1, \<dots>\<close> below \<open>page_count\<close>.\<close>

function system_pa_init_stack ::
    "U32 \<Rightarrow> U32 \<Rightarrow> int \<Rightarrow> U32 list \<Rightarrow> (U32 list \<times> int) result" where
  "system_pa_init_stack i page_count stack_index stack =
     (if i < page_count
      then sbind (array_set stack stack_index i) (\<lambda>stack'.
           system_pa_init_stack (i + 1) page_count (stack_index + 1) stack')
      else Inr (stack, stack_index))"
  by pat_completeness auto
termination
  by (relation "measure (\<lambda>(i, page_count, stack_index, stack). unat page_count - unat i)")
    (auto simp: unat_Suc_less word_less_nat_alt)

declare system_pa_init_stack.simps [simp del]

text \<open>The second loop: it marks the first \<open>metadata_pages\<close> pages, from page \<open>i\<close> on, as used.\<close>

function system_pa_init_used ::
    "int \<Rightarrow> int \<Rightarrow> System_Physical_Allocator \<Rightarrow> System_Physical_Allocator result" where
  "system_pa_init_used i metadata_pages pa =
     (if i < metadata_pages
      then sbind (system_pa_set_used pa i) (system_pa_init_used (i + 1) metadata_pages)
      else Inr pa)"
  by pat_completeness auto
termination
  by (relation "measure (\<lambda>(i, metadata_pages, pa). nat (metadata_pages - i))") auto

declare system_pa_init_used.simps [simp del]

text \<open>
  \<^verbatim>\<open>zero(address, length)\<close> on the bytes at \<^verbatim>\<open>address\<close>, numbered from there, and the words of an array in them at
  a byte offset, least significant byte first.
\<close>

definition zero_bytes :: "int \<Rightarrow> (nat \<Rightarrow> U8) \<Rightarrow> nat \<Rightarrow> U8" where
  "zero_bytes count region = (\<lambda>k. if int k < count then 0 else region k)"

definition region_word :: "(nat \<Rightarrow> U8) \<Rightarrow> nat \<Rightarrow> nat \<Rightarrow> 'a::len word" where
  "region_word region start n = horner_sum ucast 256 (map region [start..<start + n])"

definition region_array :: "(nat \<Rightarrow> U8) \<Rightarrow> nat \<Rightarrow> nat \<Rightarrow> nat \<Rightarrow> 'a::len word list" where
  "region_array region start n count = map (\<lambda>i. region_word region (start + n * i) n) [0..<count]"

text \<open>
  \<open>region\<close> is what the bytes at \<^verbatim>\<open>address\<close> hold before the call. At least one page is zeroed, so the fields of the
  struct start at 0; the pointers to the arrays are their offsets in the region.
\<close>

definition system_pa_init ::
    "(nat \<Rightarrow> U8) \<Rightarrow> Uintptr \<Rightarrow> int \<Rightarrow> int \<Rightarrow> System_Physical_Allocator result" where
  "system_pa_init region base metadata_pages page_count =
     sbind (kassert (page_count \<le> U32_MAX) ''page_count <= U32_MAX'') (\<lambda>_.
     sbind (kassert (0 < page_count) ''0          <  page_count'') (\<lambda>_.
     sbind (kassert (0 < metadata_pages) ''0          <  metadata_pages'') (\<lambda>_.
     let region = zero_bytes (metadata_pages * SYSTEM_PAGE_SIZE) region in
     sbind (system_pa_calculate_size_specification page_count) (\<lambda>spec.
     let data = size_of_System_Physical_Allocator;
         bitmap = region_array region (nat data) (nat size_of_U64) (nat (bitmap_size spec sdiv size_of_U64));
         data = data + bitmap_size spec;
         stack = region_array region (nat data) (nat size_of_U32) (nat (stack_size spec sdiv size_of_U32));
         pa = \<lparr> pa_next = 0, pa_next_16mb = 0, pa_next_4gb = 0, pa_size = page_count, stack_top = 0,
                pages_bitmap = bitmap, pages_stack = stack, address_base = 0 \<rparr>
     in sbind (system_pa_init_stack (word_of_int metadata_pages) (word_of_int page_count) 0
                 (pages_stack pa)) (\<lambda>(stack, stack_index).
     let pa = pa\<lparr> pages_stack := stack, stack_top := stack_index - 1 \<rparr>
     in sbind (system_pa_init_used 0 metadata_pages pa) (\<lambda>pa.
     Inr (pa\<lparr> address_base := base \<rparr>)))))))"

text \<open>The check of an address against the range of the allocator, in wrapping address arithmetic.\<close>

definition system_pa_in_range :: "System_Physical_Allocator \<Rightarrow> Uintptr \<Rightarrow> bool" where
  "system_pa_in_range pa address \<longleftrightarrow>
     address_base pa \<le> address
     \<and> address < address_base pa + word_of_int (pa_size pa) * word_of_int SYSTEM_PAGE_SIZE"

text \<open>
  \<^verbatim>\<open>system_pa_alloc\<close> returns the address, the value stored through \<^verbatim>\<open>ok\<close> and the allocator. The product
  \<^verbatim>\<open>offset * SYSTEM_PAGE_SIZE\<close> is one of a \<^verbatim>\<open>U32\<close> and an \<^verbatim>\<open>int\<close>: it is computed in 32 bits and only
  then widened.
\<close>

definition system_pa_alloc ::
    "System_Physical_Allocator \<Rightarrow> (Uintptr \<times> bool \<times> System_Physical_Allocator) result" where
  "system_pa_alloc pa =
     (if stack_top pa < 0 \<or> pa_size pa \<le> 0
      then Inr (0, False, pa)
      else
        sbind (array_get (pages_stack pa) (stack_top pa)) (\<lambda>offset.
        sbind (system_pa_set_used pa (uint offset)) (\<lambda>pa.
        let pa = pa\<lparr> stack_top := stack_top pa - 1 \<rparr>;
            address = ucast (offset * word_of_int SYSTEM_PAGE_SIZE :: U32) + address_base pa
        in sbind (kassert (system_pa_in_range pa address)
                    ''pa->address_base <= address && address < pa->address_base + ((Uintptr)pa->size * SYSTEM_PAGE_SIZE)'') (\<lambda>_.
           Inr (address, True, pa)))))"

definition system_pa_page_of :: "System_Physical_Allocator \<Rightarrow> Uintptr \<Rightarrow> int" where
  "system_pa_page_of pa address = sint (address - address_base pa) sdiv SYSTEM_PAGE_SIZE"

definition system_pa_is_free :: "System_Physical_Allocator \<Rightarrow> Uintptr \<Rightarrow> bool result" where
  "system_pa_is_free pa address =
     sbind (kassert (system_pa_in_range pa address)
              ''pa->address_base <= address && address < pa->address_base + ((Uintptr)pa->size * SYSTEM_PAGE_SIZE)'') (\<lambda>_.
     sbind (system_pa_calculate_page_index pa (system_pa_page_of pa address)) (\<lambda>page.
     sbind (array_get (pages_bitmap pa) (bitmap_index page)) (\<lambda>w.
     Inr (\<not> (w AND push_bit (nat (bit_index page)) 1) \<noteq> 0))))"

text \<open>
  \<^verbatim>\<open>system_pa_free\<close> writes the digits 1 to 4 to the format stream between its checks; \<open>out\<close> is what the
  stream has received.
\<close>

definition system_pa_free ::
    "System_Physical_Allocator \<Rightarrow> Uintptr \<Rightarrow> string
       \<Rightarrow> (System_Physical_Allocator \<times> string) result" where
  "system_pa_free pa address out =
     (let out = out @ ''1'' in
     sbind (system_pa_is_free pa address) (\<lambda>free.
     sbind (kassert (\<not> free) ''!system_pa_is_free(pa, address)'') (\<lambda>_.
     let out = out @ ''2'' in
     sbind (kassert (stack_top pa + 1 < pa_size pa) ''pa->stack_top+1 <  pa->size'') (\<lambda>_.
     let out = out @ ''3'' in
     sbind (kassert (stack_top pa \<ge> -1) ''pa->stack_top   >= -1'') (\<lambda>_.
     let out = out @ ''4'';
         page_index = system_pa_page_of pa address;
         pa = pa\<lparr> stack_top := stack_top pa + 1 \<rparr>
     in sbind (array_set (pages_stack pa) (stack_top pa) (word_of_int page_index)) (\<lambda>stack.
     let pa = pa\<lparr> pages_stack := stack \<rparr>
     in sbind (system_pa_calculate_page_index pa page_index) (\<lambda>page.
     sbind (array_get (pages_bitmap pa) (bitmap_index page)) (\<lambda>w.
     sbind (array_set (pages_bitmap pa) (bitmap_index page)
              (w AND NOT (push_bit (nat (bit_index page)) 1))) (\<lambda>bm.
     Inr (pa\<lparr> pages_bitmap := bm \<rparr>, out))))))))))"

section \<open>What the state means\<close>

text \<open>
  The bit of a page, the free pages in the order of the stack (its top last) and as a set, the shape
  of the arrays, and the invariant: the stack holds each free page once, and the bitmap marks exactly
  the other pages of the range. The range ends below the end of the address space.
\<close>

definition pa_used_bit :: "System_Physical_Allocator \<Rightarrow> nat \<Rightarrow> bool" where
  "pa_used_bit pa p \<longleftrightarrow> bit (pages_bitmap pa ! (p div 64)) (p mod 64)"

definition pa_stacked :: "System_Physical_Allocator \<Rightarrow> nat list" where
  "pa_stacked pa = map unat (take (nat (stack_top pa + 1)) (pages_stack pa))"

definition pa_frees :: "System_Physical_Allocator \<Rightarrow> nat set" where
  "pa_frees pa = set (pa_stacked pa)"

definition pa_shape :: "System_Physical_Allocator \<Rightarrow> bool" where
  "pa_shape pa \<longleftrightarrow>
     0 < pa_size pa \<and> pa_size pa \<le> U32_MAX
     \<and> length (pages_bitmap pa) = (nat (pa_size pa) + 63) div 64
     \<and> length (pages_stack pa) = nat (pa_size pa)"

definition pa_wf :: "System_Physical_Allocator \<Rightarrow> bool" where
  "pa_wf pa \<longleftrightarrow>
     pa_shape pa
     \<and> -1 \<le> stack_top pa \<and> stack_top pa < pa_size pa
     \<and> distinct (pa_stacked pa)
     \<and> pa_frees pa \<subseteq> {..<nat (pa_size pa)}
     \<and> (\<forall>p < nat (pa_size pa). pa_used_bit pa p \<longleftrightarrow> p \<notin> pa_frees pa)
     \<and> uint (address_base pa) + pa_size pa * SYSTEM_PAGE_SIZE < 2 ^ 64"

text \<open>The bytes the struct and the arrays take, and the metadata pages that hold them.\<close>

definition pa_metadata_size :: "nat \<Rightarrow> nat" where
  "pa_metadata_size n = 64 + 8 * ((n + 63) div 64) + 4 * n"

definition pa_metadata_covers :: "nat \<Rightarrow> nat \<Rightarrow> bool" where
  "pa_metadata_covers m n \<longleftrightarrow> pa_metadata_size n \<le> m * 4096"

definition pa_page_address :: "System_Physical_Allocator \<Rightarrow> nat \<Rightarrow> Uintptr" where
  "pa_page_address pa p = address_base pa + of_nat (p * 4096)"

text \<open>The allocator after its top page was handed out, and after page \<open>p\<close> came back.\<close>

definition pa_popped :: "System_Physical_Allocator \<Rightarrow> System_Physical_Allocator" where
  "pa_popped pa = (let p = last (pa_stacked pa) in
     pa\<lparr> pages_bitmap := (pages_bitmap pa)[p div 64 :=
            pages_bitmap pa ! (p div 64) OR push_bit (p mod 64) 1],
         stack_top := stack_top pa - 1 \<rparr>)"

definition pa_pushed :: "System_Physical_Allocator \<Rightarrow> nat \<Rightarrow> System_Physical_Allocator" where
  "pa_pushed pa p =
     pa\<lparr> stack_top := stack_top pa + 1,
         pages_stack := (pages_stack pa)[nat (stack_top pa + 1) := of_nat p],
         pages_bitmap := (pages_bitmap pa)[p div 64 :=
            pages_bitmap pa ! (p div 64) AND NOT (push_bit (p mod 64) 1)] \<rparr>"

text \<open>
  A client that allocates pages and gives back pages it holds: the reachable allocators \<open>s\<close>
  with the set \<open>held\<close> of page addresses it has.
\<close>

inductive page_run ::
    "('s \<Rightarrow> (Uintptr \<times> bool \<times> 's) result) \<Rightarrow> ('s \<Rightarrow> Uintptr \<Rightarrow> 's result) \<Rightarrow> 's
       \<Rightarrow> 's \<Rightarrow> Uintptr set \<Rightarrow> bool"
  for alloc :: "'s \<Rightarrow> (Uintptr \<times> bool \<times> 's) result" and release :: "'s \<Rightarrow> Uintptr \<Rightarrow> 's result"
    and s0 :: 's where
  run_start: "page_run alloc release s0 s0 {}"
| run_alloc: "page_run alloc release s0 s held \<Longrightarrow> alloc s = Inr (a, True, s') \<Longrightarrow>
     page_run alloc release s0 s' (insert a held)"
| run_exhausted: "page_run alloc release s0 s held \<Longrightarrow> alloc s = Inr (a, False, s') \<Longrightarrow>
     page_run alloc release s0 s' held"
| run_release: "page_run alloc release s0 s held \<Longrightarrow> a \<in> held \<Longrightarrow> release s a = Inr s' \<Longrightarrow>
     page_run alloc release s0 s' (held - {a})"

definition pa_release ::
    "System_Physical_Allocator \<Rightarrow> Uintptr \<Rightarrow> System_Physical_Allocator result" where
  "pa_release pa a = sbind (system_pa_free pa a '''') (\<lambda>(pa, out). Inr pa)"

definition pa_small :: "System_Physical_Allocator \<Rightarrow> bool" where
  "pa_small pa \<longleftrightarrow> pa_wf pa \<and> pa_size pa \<le> 2 ^ 20"

definition pa_free_pages :: "System_Physical_Allocator \<Rightarrow> Uintptr set" where
  "pa_free_pages pa = pa_page_address pa ` pa_frees pa"

definition pa_pages :: "System_Physical_Allocator \<Rightarrow> Uintptr set" where
  "pa_pages pa = pa_page_address pa ` {..<nat (pa_size pa)}"

section \<open>The interface a client relies on\<close>

locale page_allocator =
  fixes alloc :: "'s \<Rightarrow> (Uintptr \<times> bool \<times> 's) result"
    and release :: "'s \<Rightarrow> Uintptr \<Rightarrow> 's result"
    and inv :: "'s \<Rightarrow> bool"
    and free_pages :: "'s \<Rightarrow> Uintptr set"
    and pages :: "'s \<Rightarrow> Uintptr set"
  assumes finite_pages: "inv s \<Longrightarrow> finite (pages s)"
    and free_sub: "inv s \<Longrightarrow> free_pages s \<subseteq> pages s"
    and alloc_some: "inv s \<Longrightarrow> free_pages s \<noteq> {} \<Longrightarrow>
      \<exists>a s'. alloc s = Inr (a, True, s') \<and> a \<in> free_pages s \<and> inv s'
        \<and> free_pages s' = free_pages s - {a} \<and> pages s' = pages s"
    and alloc_none: "inv s \<Longrightarrow> free_pages s = {} \<Longrightarrow> alloc s = Inr (0, False, s)"
    and release_used: "inv s \<Longrightarrow> a \<in> pages s \<Longrightarrow> a \<notin> free_pages s \<Longrightarrow>
      \<exists>s'. release s a = Inr s' \<and> inv s' \<and> free_pages s' = insert a (free_pages s)
        \<and> pages s' = pages s"
    and release_free: "inv s \<Longrightarrow> a \<in> free_pages s \<Longrightarrow> \<exists>e. release s a = Inl e"
begin

lemma alloc_cases:
  assumes "inv s"
  obtains (none) "free_pages s = {}" "alloc s = Inr (0, False, s)"
  | (some) a s' where "alloc s = Inr (a, True, s')" "a \<in> free_pages s" "inv s'"
      "free_pages s' = free_pages s - {a}" "pages s' = pages s"
  using assms alloc_some alloc_none by metis

lemma alloc_never_fails: "inv s \<Longrightarrow> \<exists>r. alloc s = Inr r"
  using alloc_cases by metis

lemma run_invariant:
  assumes "page_run alloc release s0 s held" and "inv s0"
  shows "inv s \<and> pages s = pages s0 \<and> held \<subseteq> free_pages s0
     \<and> held \<inter> free_pages s = {} \<and> held \<union> free_pages s = free_pages s0"
  using assms
proof (induction rule: page_run.induct)
  case run_start
  then show ?case by simp
next
  case (run_alloc s held a s')
  then have "inv s" by simp
  then show ?case
    using run_alloc by (cases rule: alloc_cases) auto
next
  case (run_exhausted s held a s')
  then have "inv s" by simp
  then show ?case
    using run_exhausted by (cases rule: alloc_cases) auto
next
  case (run_release s held a s')
  then have "inv s" "a \<in> pages s" "a \<notin> free_pages s"
    using free_sub by auto
  then obtain s'' where "release s a = Inr s''" "inv s''"
      "free_pages s'' = insert a (free_pages s)" "pages s'' = pages s"
    using release_used by blast
  with run_release show ?case by auto
qed

lemma run_alloc_fresh:
  assumes "page_run alloc release s0 s held" and "inv s0" and "alloc s = Inr (a, True, s')"
  shows "a \<notin> held \<and> a \<in> free_pages s0"
proof -
  have "inv s" and split: "held \<inter> free_pages s = {}" "held \<union> free_pages s = free_pages s0"
    using run_invariant [OF assms(1,2)] by auto
  then show ?thesis using assms(3) by (cases rule: alloc_cases) auto
qed

lemma run_counts:
  assumes "page_run alloc release s0 s held" and "inv s0"
  shows "card held + card (free_pages s) = card (free_pages s0)"
proof -
  have "inv s" and split: "held \<inter> free_pages s = {}" "held \<union> free_pages s = free_pages s0"
    using run_invariant [OF assms] by auto
  have "finite (free_pages s0)"
    using finite_pages [OF assms(2)] free_sub [OF assms(2)] by (rule rev_finite_subset)
  then show ?thesis
    using split by (metis card_Un_disjoint finite_Un)
qed

lemma run_alloc_succeeds:
  assumes "page_run alloc release s0 s held" and "inv s0" and "card held < card (free_pages s0)"
  shows "\<exists>a s'. alloc s = Inr (a, True, s')"
proof -
  have "inv s" using run_invariant [OF assms(1,2)] by simp
  then show ?thesis
    using run_counts [OF assms(1,2)] assms(3) by (cases rule: alloc_cases) auto
qed

end

section \<open>Bits and page indices\<close>

lemma page_index_ok:
  "p < nat (pa_size pa) \<Longrightarrow>
   system_pa_calculate_page_index pa (int p) =
     Inr \<lparr> bitmap_index = int (p div 64), bit_index = int (p mod 64) \<rparr>"
  by (simp add: system_pa_calculate_page_index_def zdiv_int zmod_int zless_nat_eq_int_zless)

lemma page_index_fail:
  "\<not> (0 \<le> i \<and> i < pa_size pa) \<Longrightarrow>
   system_pa_calculate_page_index pa i = Inl (Assert_Failed ''0 <= page && page < pa->size'')"
  unfolding system_pa_calculate_page_index_def by (subst kassert_fail) simp_all

lemma bitmap_index_bound:
  "pa_shape pa \<Longrightarrow> p < nat (pa_size pa) \<Longrightarrow> p div 64 < length (pages_bitmap pa)"
  by (auto simp: pa_shape_def)

lemma set_used_ok:
  assumes "pa_shape pa" and "p < nat (pa_size pa)"
  shows "system_pa_set_used pa (int p) =
     Inr (pa\<lparr> pages_bitmap := (pages_bitmap pa)[p div 64 :=
            pages_bitmap pa ! (p div 64) OR push_bit (p mod 64) 1] \<rparr>)"
  using bitmap_index_bound [OF assms] assms(2)
  by (simp add: system_pa_set_used_def page_index_ok)

lemma used_bit_set:
  assumes "pa_shape pa" and "p < nat (pa_size pa)" and "q < nat (pa_size pa)"
  shows "pa_used_bit (pa\<lparr> pages_bitmap := (pages_bitmap pa)[p div 64 :=
            pages_bitmap pa ! (p div 64) OR push_bit (p mod 64) 1] \<rparr>) q
     \<longleftrightarrow> q = p \<or> pa_used_bit pa q"
proof -
  have eq: "q = p \<longleftrightarrow> q div 64 = p div 64 \<and> q mod 64 = p mod 64"
    by (metis div_mult_mod_eq)
  show ?thesis
    using bitmap_index_bound [OF assms(1,2)] bitmap_index_bound [OF assms(1,3)]
    by (auto simp: pa_used_bit_def eq nth_list_update bit_simps)
qed

lemma used_bit_clear:
  assumes "pa_shape pa" and "p < nat (pa_size pa)" and "q < nat (pa_size pa)"
  shows "pa_used_bit (pa\<lparr> pages_bitmap := (pages_bitmap pa)[p div 64 :=
            pages_bitmap pa ! (p div 64) AND NOT (push_bit (p mod 64) 1)] \<rparr>) q
     \<longleftrightarrow> q \<noteq> p \<and> pa_used_bit pa q"
proof -
  have eq: "q = p \<longleftrightarrow> q div 64 = p div 64 \<and> q mod 64 = p mod 64"
    by (metis div_mult_mod_eq)
  show ?thesis
    using bitmap_index_bound [OF assms(1,2)] bitmap_index_bound [OF assms(1,3)]
    by (auto simp: pa_used_bit_def eq nth_list_update bit_simps)
qed

section \<open>Initialisation\<close>

lemma init_stack_fills:
  assumes "k + (unat n - unat i) \<le> length st"
  shows "system_pa_init_stack i n (int k) st =
     Inr (take k st @ map of_nat [unat i..<unat n] @ drop (k + (unat n - unat i)) st,
          int (k + (unat n - unat i)))"
  using assms
proof (induction "unat n - unat i" arbitrary: i k st)
  case 0
  then have "\<not> i < n" by (simp add: word_less_nat_alt)
  with 0 show ?case by (simp add: system_pa_init_stack.simps [of i])
next
  case (Suc d)
  then have less: "i < n" by (simp add: word_less_nat_alt)
  have u: "unat (i + 1) = Suc (unat i)" using less by (rule unat_Suc_less)
  have k: "k < length st" using Suc by linarith
  have d: "d = unat n - unat (i + 1)" using Suc.hyps(2) u by simp
  have "system_pa_init_stack i n (int k) st =
      system_pa_init_stack (i + 1) n (int (Suc k)) (st[k := i])"
    using less k by (simp add: system_pa_init_stack.simps [of i] add.commute)
  also have "\<dots> = Inr (take (Suc k) (st[k := i]) @ map of_nat [unat (i + 1)..<unat n]
        @ drop (Suc k + (unat n - unat (i + 1))) (st[k := i]),
      int (Suc k + (unat n - unat (i + 1))))"
    using Suc.prems d Suc.hyps(2) by (intro Suc.hyps(1)) auto
  also have "\<dots> = Inr (take k st @ map of_nat [unat i..<unat n] @ drop (k + (unat n - unat i)) st,
          int (k + (unat n - unat i)))"
    using k less u Suc.hyps(2)
    by (simp add: take_Suc_conv_app_nth upt_conv_Cons [of "unat i"] word_less_nat_alt Suc_diff_Suc)
  finally show ?case .
qed

lemma init_used_marks:
  assumes "pa_shape pa" and "m \<le> nat (pa_size pa)"
  shows "\<exists>bm. system_pa_init_used (int i) (int m) pa = Inr (pa\<lparr> pages_bitmap := bm \<rparr>)
     \<and> length bm = length (pages_bitmap pa)
     \<and> (\<forall>q < nat (pa_size pa). pa_used_bit (pa\<lparr> pages_bitmap := bm \<rparr>) q
            \<longleftrightarrow> (i \<le> q \<and> q < m) \<or> pa_used_bit pa q)"
  using assms
proof (induction "m - i" arbitrary: i pa)
  case 0
  then show ?case
    by (intro exI [of _ "pages_bitmap pa"]) (auto simp: system_pa_init_used.simps [of "int i"])
next
  case (Suc d)
  then have less: "i < m" and i: "i < nat (pa_size pa)" by auto
  define pa' where "pa' = pa\<lparr> pages_bitmap := (pages_bitmap pa)[i div 64 :=
            pages_bitmap pa ! (i div 64) OR push_bit (i mod 64) 1] \<rparr>"
  have step: "system_pa_init_used (int i) (int m) pa = system_pa_init_used (int (Suc i)) (int m) pa'"
    using less set_used_ok [OF Suc.prems(1) i]
    by (simp add: system_pa_init_used.simps [of "int i"] pa'_def add.commute)
  have shape: "pa_shape pa'" and size: "pa_size pa' = pa_size pa"
    and len: "length (pages_bitmap pa') = length (pages_bitmap pa)"
    and upd: "\<And>bm. pa'\<lparr> pages_bitmap := bm \<rparr> = pa\<lparr> pages_bitmap := bm \<rparr>"
    using Suc.prems(1) by (simp_all add: pa'_def pa_shape_def)
  have d: "d = m - Suc i" using Suc.hyps(2) by simp
  obtain bm where bm: "system_pa_init_used (int (Suc i)) (int m) pa' = Inr (pa\<lparr> pages_bitmap := bm \<rparr>)"
    "length bm = length (pages_bitmap pa)"
    "\<forall>q < nat (pa_size pa). pa_used_bit (pa\<lparr> pages_bitmap := bm \<rparr>) q
        \<longleftrightarrow> (Suc i \<le> q \<and> q < m) \<or> pa_used_bit pa' q"
    using Suc.hyps(1) [OF d shape] Suc.prems(2) unfolding upd size len by auto
  have "\<forall>q < nat (pa_size pa). pa_used_bit pa' q \<longleftrightarrow> q = i \<or> pa_used_bit pa q"
    using used_bit_set [OF Suc.prems(1) i] by (simp add: pa'_def)
  with bm less step show ?case
    by (intro exI [of _ bm]) (auto simp: le_less_Suc_eq le_eq_less_or_eq Suc_le_eq)
qed

lemma init_used_overrun:
  assumes "pa_shape pa" and "pa_size pa < m" and "int i \<le> pa_size pa"
  shows "system_pa_init_used (int i) m pa = Inl (Assert_Failed ''0 <= page && page < pa->size'')"
  using assms
proof (induction "nat (pa_size pa) - i" arbitrary: i pa)
  case 0
  then show ?case
    by (simp add: system_pa_init_used.simps [of "int i"] system_pa_set_used_def page_index_fail)
next
  case (Suc d)
  then have i: "i < nat (pa_size pa)" by simp
  define pa' where "pa' = pa\<lparr> pages_bitmap := (pages_bitmap pa)[i div 64 :=
            pages_bitmap pa ! (i div 64) OR push_bit (i mod 64) 1] \<rparr>"
  have "system_pa_init_used (int i) m pa = system_pa_init_used (int (Suc i)) m pa'"
    using Suc.prems i set_used_ok [OF Suc.prems(1) i]
    by (simp add: system_pa_init_used.simps [of "int i"] pa'_def add.commute)
  also have "\<dots> = Inl (Assert_Failed ''0 <= page && page < pa->size'')"
    using Suc i by (intro Suc.hyps(1)) (auto simp: pa'_def pa_shape_def)
  finally show ?case .
qed

lemma take_unat_upt:
  "N < 2 ^ 32 \<Longrightarrow> map (unat \<circ> (of_nat :: nat \<Rightarrow> U32)) [m..<N] = [m..<N]"
  by (rule map_idI) (auto simp: unat_of_nat)

lemma region_array_length [simp]: "length (region_array region start n count) = count"
  by (simp add: region_array_def)

lemma region_array_zero:
  assumes "int (start + n * count) \<le> zeroed_to"
  shows "region_array (zero_bytes zeroed_to region) start n count = replicate count 0"
proof -
  have "region_word (zero_bytes zeroed_to region) (start + n * i) n = 0" if "i < count" for i
  proof -
    have "n * i + n \<le> n * count" using that mult_le_mono2 [of "Suc i" count n] by simp
    then have "start + n * i + n \<le> start + n * count" by simp
    then have "int (start + n * i + n) \<le> zeroed_to" using assms by (metis of_nat_le_iff order_trans)
    then have "int k < zeroed_to" if "k < start + n * i + n" for k using that by (metis less_le_trans of_nat_less_iff)
    then have "map (zero_bytes zeroed_to region) [start + n * i..<start + n * i + n] = map (\<lambda>_. 0) [start + n * i..<start + n * i + n]"
      by (intro map_cong) (auto simp: zero_bytes_def)
    moreover have "horner_sum ucast 256 (map (\<lambda>_. 0 :: U8) xs) = 0" for xs :: "nat list" by (induction xs) simp_all
    ultimately show ?thesis by (simp only: region_word_def)
  qed
  then show ?thesis unfolding region_array_def by (intro nth_equalityI) simp_all
qed

text \<open>The struct when the stack has been filled.\<close>

definition pa_filled :: "(nat \<Rightarrow> U8) \<Rightarrow> nat \<Rightarrow> nat \<Rightarrow> System_Physical_Allocator" where
  "pa_filled region m N = \<lparr> pa_next = 0, pa_next_16mb = 0, pa_next_4gb = 0, pa_size = int N, stack_top = int (N - m) - 1,
     pages_bitmap = region_array (zero_bytes (int m * 4096) region) 64 8 ((N + 63) div 64),
     pages_stack = map of_nat [m..<N] @ drop (N - m) (region_array (zero_bytes (int m * 4096) region) (64 + 8 * ((N + 63) div 64)) 4 N),
     address_base = 0 \<rparr>"

lemma init_start:
  assumes "0 < N" "int N \<le> U32_MAX" "0 < m"
  shows "system_pa_init region base m (int N) =
     sbind (system_pa_init_stack (word_of_int m) (of_nat N) 0 (region_array (zero_bytes (m * 4096) region) (64 + 8 * ((N + 63) div 64)) 4 N))
       (\<lambda>(stack, stack_index). sbind (system_pa_init_used 0 m \<lparr> pa_next = 0, pa_next_16mb = 0, pa_next_4gb = 0, pa_size = int N,
            stack_top = stack_index - 1, pages_bitmap = region_array (zero_bytes (m * 4096) region) 64 8 ((N + 63) div 64),
            pages_stack = stack, address_base = 0 \<rparr>) (\<lambda>pa. Inr (pa\<lparr> address_base := base \<rparr>)))"
proof -
  have "system_pa_calculate_size_specification (int N) = Inr \<lparr> stack_size = int (4 * N), bitmap_size = int (8 * ((N + 63) div 64)) \<rparr>"
    using assms(2) by (simp add: system_pa_calculate_size_specification_def size_of_U64_def size_of_U32_def zdiv_int)
  moreover have "int (8 * ((N + 63) div 64)) sdiv size_of_U64 = int ((N + 63) div 64)" "int (4 * N) sdiv size_of_U32 = int N"
    by (simp_all add: size_of_U64_def size_of_U32_def)
  moreover have "nat (size_of_System_Physical_Allocator + int (8 * ((N + 63) div 64))) = 64 + 8 * ((N + 63) div 64)"
    by (simp add: size_of_System_Physical_Allocator_def)
  ultimately show ?thesis
    using assms by (simp add: system_pa_init_def Let_def SYSTEM_PAGE_SIZE_def size_of_System_Physical_Allocator_def size_of_U64_def size_of_U32_def
        split_beta del: of_nat_mult of_nat_add)
qed

lemma init_filled:
  assumes m: "0 < m" "m \<le> N" and N: "int N \<le> U32_MAX"
  shows "system_pa_init region base (int m) (int N) =
     sbind (system_pa_init_used 0 (int m) (pa_filled region m N)) (\<lambda>pa. Inr (pa\<lparr> address_base := base \<rparr>))"
proof -
  have N32: "N < 2 ^ 32" and m32: "m < 2 ^ 32" using N m by (auto simp: U32_MAX_def)
  define st :: "U32 list" where "st = region_array (zero_bytes (int m * 4096) region) (64 + 8 * ((N + 63) div 64)) 4 N"
  have "length st = N" by (simp add: st_def)
  then have "system_pa_init_stack (word_of_int (int m)) (of_nat N) 0 st = Inr (map of_nat [m..<N] @ drop (N - m) st, int (N - m))"
    using init_stack_fills [of 0 "of_nat N" "of_nat m" st] N32 m32 by (simp add: unat_of_nat)
  then show ?thesis using m N by (simp add: init_start pa_filled_def st_def)
qed

lemma pa_filled_shape: "0 < N \<Longrightarrow> m \<le> N \<Longrightarrow> int N \<le> U32_MAX \<Longrightarrow> pa_shape (pa_filled region m N)"
  by (simp add: pa_shape_def pa_filled_def)

text \<open>Whatever the memory held, the stack is right.\<close>

lemma pa_init_stacked:
  assumes m: "0 < m" "m \<le> N" and N: "int N \<le> U32_MAX"
  obtains bm where
    "system_pa_init region base (int m) (int N) = Inr ((pa_filled region m N)\<lparr> pages_bitmap := bm, address_base := base \<rparr>)"
    "length bm = (N + 63) div 64"
    "\<And>q. q < N \<Longrightarrow> pa_used_bit ((pa_filled region m N)\<lparr> pages_bitmap := bm, address_base := base \<rparr>) q \<longleftrightarrow> q < m \<or> pa_used_bit (pa_filled region m N) q"
    "pa_stacked ((pa_filled region m N)\<lparr> pages_bitmap := bm, address_base := base \<rparr>) = [m..<N]"
proof -
  have N32: "N < 2 ^ 32" using N by (auto simp: U32_MAX_def)
  have "0 < N" using m by simp
  then obtain bm where bm: "system_pa_init_used 0 (int m) (pa_filled region m N) = Inr ((pa_filled region m N)\<lparr> pages_bitmap := bm \<rparr>)"
    "length bm = length (pages_bitmap (pa_filled region m N))"
    "\<forall>q < N. pa_used_bit ((pa_filled region m N)\<lparr> pages_bitmap := bm \<rparr>) q \<longleftrightarrow> q < m \<or> pa_used_bit (pa_filled region m N) q"
    using init_used_marks [OF pa_filled_shape [OF _ m(2) N], of m region 0] m by (auto simp: pa_filled_def)
  have "pa_stacked ((pa_filled region m N)\<lparr> pages_bitmap := bm, address_base := base \<rparr>) = [m..<N]"
    using m take_unat_upt [OF N32, of m] by (simp add: pa_stacked_def pa_filled_def)
  moreover have "length bm = (N + 63) div 64" using bm(2) by (simp add: pa_filled_def)
  ultimately show thesis using that [of bm] bm init_filled [OF m N] by (simp add: pa_used_bit_def)
qed

lemma pa_init_ok:
  assumes m: "0 < m" "m \<le> N" and N: "int N \<le> U32_MAX" and covers: "pa_metadata_covers m N"
    and range: "uint base + int N * SYSTEM_PAGE_SIZE < 2 ^ 64"
  shows "\<exists>pa. system_pa_init region base (int m) (int N) = Inr pa \<and> pa_wf pa
     \<and> pa_stacked pa = [m..<N] \<and> pa_size pa = int N \<and> address_base pa = base"
proof -
  obtain bm where bm: "system_pa_init region base (int m) (int N) = Inr ((pa_filled region m N)\<lparr> pages_bitmap := bm, address_base := base \<rparr>)"
    "length bm = (N + 63) div 64"
    "\<And>q. q < N \<Longrightarrow> pa_used_bit ((pa_filled region m N)\<lparr> pages_bitmap := bm, address_base := base \<rparr>) q \<longleftrightarrow> q < m \<or> pa_used_bit (pa_filled region m N) q"
    "pa_stacked ((pa_filled region m N)\<lparr> pages_bitmap := bm, address_base := base \<rparr>) = [m..<N]"
    using pa_init_stacked [OF m N, where region = region and base = base] by blast
  define pa where "pa = (pa_filled region m N)\<lparr> pages_bitmap := bm, address_base := base \<rparr>"
  have "int (64 + 8 * ((N + 63) div 64)) \<le> int m * 4096" using covers by (simp add: pa_metadata_covers_def pa_metadata_size_def)
  then have "pages_bitmap (pa_filled region m N) = replicate ((N + 63) div 64) 0"
    unfolding pa_filled_def by (simp add: region_array_zero)
  then have "\<not> pa_used_bit (pa_filled region m N) q" if "q < N" for q
    using that by (simp add: pa_used_bit_def nth_replicate)
  then have "\<forall>q < N. pa_used_bit pa q \<longleftrightarrow> q < m" using bm(3) by (simp add: pa_def)
  moreover have "pa_stacked pa = [m..<N]" using bm(4) by (simp add: pa_def)
  moreover have "pa_shape pa" using pa_filled_shape [of N m region] m N bm(2) by (simp add: pa_def pa_shape_def pa_filled_def)
  ultimately have "pa_wf pa" using range m by (auto simp: pa_wf_def pa_frees_def pa_def pa_filled_def)
  then show ?thesis using bm(1) \<open>pa_stacked pa = [m..<N]\<close> by (intro exI [of _ pa]) (simp add: pa_def pa_filled_def)
qed

section \<open>Addresses and page numbers\<close>

lemma in_range_iff:
  assumes "pa_wf pa"
  shows "system_pa_in_range pa a \<longleftrightarrow>
     unat (address_base pa) \<le> unat a \<and> unat a < unat (address_base pa) + nat (pa_size pa) * 4096"
proof -
  have size: "0 < pa_size pa" and range: "uint (address_base pa) + pa_size pa * 4096 < 2 ^ 64"
    using assms by (auto simp: pa_wf_def pa_shape_def SYSTEM_PAGE_SIZE_def)
  have small: "pa_size pa * 4096 < 2 ^ 64"
    using range uint_ge_0 [of "address_base pa"] by linarith
  have "uint (word_of_int (pa_size pa) * 4096 :: U64) = pa_size pa * 4096"
    using size small by (simp add: uint_word_ariths uint_word_of_int)
  then have "uint (address_base pa + word_of_int (pa_size pa) * 4096)
      = uint (address_base pa) + pa_size pa * 4096"
    using size range by (simp add: uint_word_ariths)
  then show ?thesis
    using size
    by (auto simp: system_pa_in_range_def SYSTEM_PAGE_SIZE_def word_le_def word_less_def
        unat_less_uint unat_le_uint)
qed

lemma page_of_in_range:
  assumes "pa_wf pa" and "system_pa_in_range pa a"
  shows "system_pa_page_of pa a = int ((unat a - unat (address_base pa)) div 4096)"
    and "(unat a - unat (address_base pa)) div 4096 < nat (pa_size pa)"
proof -
  have le: "unat (address_base pa) \<le> unat a"
    and lt: "unat a - unat (address_base pa) < nat (pa_size pa) * 4096"
    using assms(2) unfolding in_range_iff [OF assms(1)] by auto
  then show "(unat a - unat (address_base pa)) div 4096 < nat (pa_size pa)"
    by (simp add: less_mult_imp_div_less)
  have "nat (pa_size pa) * 4096 < 2 ^ 63"
    using assms(1) by (auto simp: pa_wf_def pa_shape_def U32_MAX_def)
  with lt have "sint (a - address_base pa) = int (unat a - unat (address_base pa))"
    using le by (subst sint_small) (simp_all add: unat_sub word_le_nat_alt)
  then show "system_pa_page_of pa a = int ((unat a - unat (address_base pa)) div 4096)"
    by (simp add: system_pa_page_of_def SYSTEM_PAGE_SIZE_def zdiv_int)
qed

lemma page_address_unat:
  assumes "pa_wf pa" and "x < nat (pa_size pa) * 4096"
  shows "unat (address_base pa + of_nat x) = unat (address_base pa) + x"
proof -
  have "uint (address_base pa) + pa_size pa * 4096 < 2 ^ 64" "0 < pa_size pa"
    using assms(1) by (auto simp: pa_wf_def pa_shape_def SYSTEM_PAGE_SIZE_def)
  then have "unat (address_base pa) + x < 2 ^ 64"
    using assms(2) unfolding unat_add_less_uint by simp
  then show ?thesis by (simp add: unat_word_ariths unat_of_nat)
qed

lemma offset_in_range:
  assumes "pa_wf pa" and "x < nat (pa_size pa) * 4096"
  shows "system_pa_in_range pa (address_base pa + of_nat x)"
  using page_address_unat [OF assms] assms(2) by (simp add: in_range_iff [OF assms(1)])

lemma page_address_in_range:
  "pa_wf pa \<Longrightarrow> p < nat (pa_size pa) \<Longrightarrow> system_pa_in_range pa (pa_page_address pa p)"
  unfolding pa_page_address_def by (rule offset_in_range) auto

lemma page_of_page_address:
  assumes "pa_wf pa" and "p < nat (pa_size pa)"
  shows "system_pa_page_of pa (pa_page_address pa p) = int p"
  using page_of_in_range(1) [OF assms(1) page_address_in_range [OF assms]]
    page_address_unat [OF assms(1), of "p * 4096"] assms(2)
  by (simp add: pa_page_address_def)

lemma is_free_iff:
  assumes "pa_wf pa" and "system_pa_in_range pa a"
  shows "system_pa_is_free pa a = Inr ((unat a - unat (address_base pa)) div 4096 \<in> pa_frees pa)"
proof -
  let ?p = "(unat a - unat (address_base pa)) div 4096"
  have p: "?p < nat (pa_size pa)" using page_of_in_range(2) [OF assms] .
  have shape: "pa_shape pa" and bits: "pa_used_bit pa ?p \<longleftrightarrow> ?p \<notin> pa_frees pa"
    using assms(1) p by (auto simp: pa_wf_def)
  have "(pages_bitmap pa ! (?p div 64)) AND push_bit (?p mod 64) 1 = 0 \<longleftrightarrow> \<not> pa_used_bit pa ?p"
    by (simp add: pa_used_bit_def push_bit_eq_mult and_exp_eq_0_iff_not_bit)
  with bits bitmap_index_bound [OF shape p] show ?thesis
    by (simp add: system_pa_is_free_def assms(2) page_of_in_range(1) [OF assms] page_index_ok p)
qed

lemma stacked_nth:
  assumes "pa_wf pa" and "0 \<le> stack_top pa"
  shows "pa_stacked pa \<noteq> []" and "last (pa_stacked pa) = unat (pages_stack pa ! nat (stack_top pa))"
    and "nat (stack_top pa) < length (pages_stack pa)"
proof -
  let ?n = "nat (stack_top pa)"
  show n: "?n < length (pages_stack pa)"
    using assms by (auto simp: pa_wf_def pa_shape_def)
  have "pa_stacked pa = map unat (take ?n (pages_stack pa)) @ [unat (pages_stack pa ! ?n)]"
    using assms(2) n by (simp add: pa_stacked_def nat_add_distrib take_Suc_conv_app_nth)
  then show "pa_stacked pa \<noteq> []" and "last (pa_stacked pa) = unat (pages_stack pa ! ?n)"
    by simp_all
qed

lemma stacked_empty_iff: "pa_wf pa \<Longrightarrow> pa_stacked pa = [] \<longleftrightarrow> stack_top pa < 0"
  by (auto simp: pa_wf_def pa_shape_def pa_stacked_def)

section \<open>Allocation\<close>

lemma pa_alloc_exhausted:
  "pa_wf pa \<Longrightarrow> pa_stacked pa = [] \<Longrightarrow> system_pa_alloc pa = Inr (0, False, pa)"
  by (simp add: stacked_empty_iff system_pa_alloc_def)

lemma u32_offset: "ucast ((offset :: U32) * 4096) = (of_nat (unat offset * 4096 mod 2 ^ 32) :: U64)"
proof -
  have "unat (offset * 4096) = unat offset * 4096 mod 2 ^ 32"
    by (simp add: unat_word_ariths)
  then show ?thesis by (metis of_nat_unat ucast_id unsigned_of_nat word_of_nat_eq_iff)
qed

lemma popped_fields [simp]:
  "pa_size (pa_popped pa) = pa_size pa" "address_base (pa_popped pa) = address_base pa"
  "pages_stack (pa_popped pa) = pages_stack pa" "stack_top (pa_popped pa) = stack_top pa - 1"
  "pa_next (pa_popped pa) = pa_next pa" "pa_next_16mb (pa_popped pa) = pa_next_16mb pa"
  "pa_next_4gb (pa_popped pa) = pa_next_4gb pa"
  by (simp_all add: pa_popped_def Let_def)

lemma stacked_popped:
  assumes "pa_wf pa" and "pa_stacked pa \<noteq> []"
  shows "pa_stacked (pa_popped pa) = butlast (pa_stacked pa)"
proof -
  have top: "0 \<le> stack_top pa" using assms stacked_empty_iff by fastforce
  then have "nat (stack_top pa) < length (pages_stack pa)" by (rule stacked_nth(3) [OF assms(1)])
  with top show ?thesis
    by (simp add: pa_stacked_def nat_add_distrib butlast_take map_butlast [symmetric])
qed

lemma frees_popped:
  assumes "pa_wf pa" and "pa_stacked pa \<noteq> []"
  shows "pa_frees (pa_popped pa) = pa_frees pa - {last (pa_stacked pa)}"
proof -
  have "distinct (pa_stacked pa)" and split: "pa_stacked pa = butlast (pa_stacked pa) @ [last (pa_stacked pa)]"
    using assms by (auto simp: pa_wf_def)
  then have "last (pa_stacked pa) \<notin> set (butlast (pa_stacked pa))"
    by (metis distinct_append disjoint_insert(2) inf_bot_right list.set(2))
  then show ?thesis
    using arg_cong [OF split, of set] unfolding pa_frees_def stacked_popped [OF assms] by auto
qed

lemma top_page:
  assumes "pa_wf pa" and "pa_stacked pa \<noteq> []"
  shows "last (pa_stacked pa) \<in> pa_frees pa" and "last (pa_stacked pa) < nat (pa_size pa)"
proof -
  show "last (pa_stacked pa) \<in> pa_frees pa"
    unfolding pa_frees_def using assms(2) by (rule last_in_set)
  moreover have "pa_frees pa \<subseteq> {..<nat (pa_size pa)}"
    using assms(1) by (simp add: pa_wf_def)
  ultimately show "last (pa_stacked pa) < nat (pa_size pa)" by blast
qed

lemma popped_wf:
  assumes wf: "pa_wf pa" and ne: "pa_stacked pa \<noteq> []"
  shows "pa_wf (pa_popped pa)"
proof -
  let ?p = "last (pa_stacked pa)"
  have shape: "pa_shape pa" and top: "0 \<le> stack_top pa"
    using wf ne stacked_empty_iff by (fastforce simp: pa_wf_def)+
  note p = top_page(2) [OF wf ne]
  have dist: "distinct (pa_stacked pa)" using wf by (simp add: pa_wf_def)
  note frees = frees_popped [OF wf ne]
  have bits: "\<forall>q < nat (pa_size pa). pa_used_bit (pa_popped pa) q \<longleftrightarrow> q = ?p \<or> pa_used_bit pa q"
    using used_bit_set [OF shape p] by (simp add: pa_popped_def Let_def pa_used_bit_def)
  have "pa_shape (pa_popped pa)"
    using shape by (simp add: pa_shape_def pa_popped_def Let_def)
  moreover have "distinct (pa_stacked (pa_popped pa))"
    using dist by (simp add: stacked_popped [OF wf ne] distinct_butlast)
  moreover have "\<forall>q < nat (pa_size pa). pa_used_bit (pa_popped pa) q \<longleftrightarrow> q \<notin> pa_frees pa - {?p}"
    using wf bits by (auto simp: pa_wf_def)
  ultimately show ?thesis
    using wf top unfolding pa_wf_def frees popped_fields by auto
qed

text \<open>Whether an address is in the range depends on neither array.\<close>

lemma shape_offset_in_range:
  assumes shape: "pa_shape pa" and range: "uint (address_base pa) + pa_size pa * SYSTEM_PAGE_SIZE < 2 ^ 64" and x: "x < nat (pa_size pa) * 4096"
  shows "system_pa_in_range pa (address_base pa + of_nat x)"
proof -
  define full where "full = pa\<lparr> stack_top := -1, pages_bitmap := replicate ((nat (pa_size pa) + 63) div 64) (-1) \<rparr>"
  have "pa_used_bit full q" if "q < nat (pa_size pa)" for q
    using that by (simp add: full_def pa_used_bit_def nth_replicate)
  then have "pa_wf full" using shape range by (auto simp: pa_wf_def pa_shape_def pa_frees_def pa_stacked_def full_def)
  then have "system_pa_in_range full (address_base full + of_nat x)" using x by (intro offset_in_range) (simp_all add: full_def)
  then show ?thesis by (simp add: system_pa_in_range_def full_def)
qed

lemma pa_alloc_top:
  assumes shape: "pa_shape pa" and top: "0 \<le> stack_top pa" "stack_top pa < pa_size pa" and p: "last (pa_stacked pa) < nat (pa_size pa)"
    and range: "uint (address_base pa) + pa_size pa * SYSTEM_PAGE_SIZE < 2 ^ 64"
  shows "system_pa_alloc pa =
     Inr (address_base pa + of_nat (last (pa_stacked pa) * 4096 mod 2 ^ 32), True, pa_popped pa)"
proof -
  define off where "off = pages_stack pa ! nat (stack_top pa)"
  define p where "p = last (pa_stacked pa)"
  define bm where "bm = (pages_bitmap pa)[p div 64 := pages_bitmap pa ! (p div 64) OR push_bit (p mod 64) 1]"
  define x :: U64 where "x = of_nat (p * 4096 mod 2 ^ 32)"
  have pn: "p < nat (pa_size pa)" using assms(4) by (simp add: p_def)
  have len: "nat (stack_top pa) < length (pages_stack pa)" using shape top by (simp add: pa_shape_def)
  have off: "p = unat off"
    using top(1) len by (simp add: p_def pa_stacked_def off_def nat_add_distrib take_Suc_conv_app_nth)
  have get: "array_get (pages_stack pa) (stack_top pa) = Inr off"
    using top len by (simp add: off_def)
  have used: "system_pa_set_used pa (uint off) = Inr (pa\<lparr> pages_bitmap := bm \<rparr>)"
    using set_used_ok [OF shape pn] off by (simp add: bm_def)
  have popped: "pa_popped pa = pa\<lparr> pages_bitmap := bm, stack_top := stack_top pa - 1 \<rparr>"
    by (simp add: pa_popped_def Let_def bm_def p_def)
  have addr: "ucast (off * word_of_int SYSTEM_PAGE_SIZE) = x"
    by (simp only: off x_def SYSTEM_PAGE_SIZE_def of_int_numeral u32_offset)
  have "p * 4096 mod 2 ^ 32 < nat (pa_size pa) * 4096"
    using pn by (meson mod_less_eq_dividend le_less_trans mult_less_mono1 zero_less_numeral)
  then have "system_pa_in_range pa (address_base pa + x)"
    unfolding x_def by (rule shape_offset_in_range [OF shape range])
  then have "system_pa_in_range (pa_popped pa) (address_base pa + x)" by (simp add: system_pa_in_range_def)
  moreover have "pa_size pa > 0" using shape by (simp add: pa_shape_def)
  ultimately have "system_pa_alloc pa = Inr (address_base pa + x, True, pa_popped pa)"
    using top get used addr unfolding popped
    by (simp add: system_pa_alloc_def Let_def add.commute)
  then show ?thesis by (simp only: x_def p_def)
qed

lemma pa_alloc_ok:
  assumes wf: "pa_wf pa" and ne: "pa_stacked pa \<noteq> []"
  shows "system_pa_alloc pa =
     Inr (address_base pa + of_nat (last (pa_stacked pa) * 4096 mod 2 ^ 32), True, pa_popped pa)"
  using wf ne stacked_empty_iff [OF wf] top_page(2) [OF wf ne] by (intro pa_alloc_top) (auto simp: pa_wf_def)

section \<open>Release\<close>

lemma pushed_fields [simp]:
  "pa_size (pa_pushed pa p) = pa_size pa" "address_base (pa_pushed pa p) = address_base pa"
  "stack_top (pa_pushed pa p) = stack_top pa + 1"
  "pa_next (pa_pushed pa p) = pa_next pa" "pa_next_16mb (pa_pushed pa p) = pa_next_16mb pa"
  "pa_next_4gb (pa_pushed pa p) = pa_next_4gb pa"
  by (simp_all add: pa_pushed_def)

lemma stack_room:
  assumes wf: "pa_wf pa" and p: "p < nat (pa_size pa)" "p \<notin> pa_frees pa"
  shows "stack_top pa + 1 < pa_size pa"
proof -
  have len: "length (pa_stacked pa) = nat (stack_top pa + 1)"
    using wf by (auto simp: pa_stacked_def pa_wf_def pa_shape_def)
  have "card (insert p (pa_frees pa)) \<le> card {..<nat (pa_size pa)}"
    using wf p by (intro card_mono) (auto simp: pa_wf_def)
  then have "Suc (card (pa_frees pa)) \<le> nat (pa_size pa)"
    using p by (simp add: pa_frees_def)
  moreover have "card (pa_frees pa) = length (pa_stacked pa)"
    using wf by (simp add: pa_frees_def distinct_card pa_wf_def)
  ultimately show ?thesis using len by linarith
qed

lemma stacked_pushed:
  assumes wf: "pa_wf pa" and p: "p < nat (pa_size pa)" "p \<notin> pa_frees pa"
  shows "pa_stacked (pa_pushed pa p) = pa_stacked pa @ [p]"
proof -
  let ?n = "nat (stack_top pa + 1)"
  have top: "-1 \<le> stack_top pa" "?n < length (pages_stack pa)"
    using wf stack_room [OF wf p] by (auto simp: pa_wf_def pa_shape_def)
  have n: "nat (2 + stack_top pa) = Suc ?n" using top(1) by simp
  have "p < 2 ^ 32" using wf p by (auto simp: pa_wf_def pa_shape_def U32_MAX_def)
  then have "unat (of_nat p :: U32) = p" by (simp add: unat_of_nat)
  then show ?thesis
    using top(2) by (simp add: pa_stacked_def n pa_pushed_def take_Suc_conv_app_nth)
qed

lemma pushed_wf:
  assumes wf: "pa_wf pa" and p: "p < nat (pa_size pa)" "p \<notin> pa_frees pa"
  shows "pa_wf (pa_pushed pa p)"
proof -
  have shape: "pa_shape pa" using wf by (simp add: pa_wf_def)
  have frees: "pa_frees (pa_pushed pa p) = insert p (pa_frees pa)"
    using stacked_pushed [OF wf p] by (simp add: pa_frees_def)
  have "distinct (pa_stacked (pa_pushed pa p))"
    using wf p(2) by (simp add: stacked_pushed [OF wf p] pa_wf_def pa_frees_def)
  moreover have "\<forall>q < nat (pa_size pa). pa_used_bit (pa_pushed pa p) q \<longleftrightarrow> q \<notin> insert p (pa_frees pa)"
    using used_bit_clear [OF shape p(1)] wf
    by (auto simp: pa_pushed_def pa_used_bit_def pa_wf_def)
  moreover have "pa_shape (pa_pushed pa p)"
    using shape by (simp add: pa_shape_def pa_pushed_def)
  moreover have "insert p (pa_frees pa) \<subseteq> {..<nat (pa_size pa)}"
    using wf p(1) by (simp add: pa_wf_def)
  ultimately show ?thesis
    using wf stack_room [OF wf p] unfolding pa_wf_def frees pushed_fields by auto
qed

lemma pa_free_ok:
  assumes wf: "pa_wf pa" and range: "system_pa_in_range pa a"
    and p: "p = (unat a - unat (address_base pa)) div 4096" and used: "p \<notin> pa_frees pa"
  shows "system_pa_free pa a out = Inr (pa_pushed pa p, out @ ''1234'')"
proof -
  have bound: "p < nat (pa_size pa)" using page_of_in_range(2) [OF wf range] p by simp
  have shape: "pa_shape pa" and top: "-1 \<le> stack_top pa" using wf by (auto simp: pa_wf_def)
  note room = stack_room [OF wf bound used]
  have "nat (stack_top pa + 1) < length (pages_stack pa)"
    using room shape top by (auto simp: pa_shape_def)
  moreover have "system_pa_is_free pa a = Inr False"
    using is_free_iff [OF wf range] p used by simp
  moreover have "system_pa_page_of pa a = int p"
    using page_of_in_range(1) [OF wf range] p by simp
  ultimately show ?thesis
    using room top bitmap_index_bound [OF shape bound] bound
    by (simp add: system_pa_free_def Let_def page_index_ok pa_pushed_def)
qed

lemma pa_free_double:
  assumes "pa_wf pa" and "system_pa_in_range pa a"
    and "(unat a - unat (address_base pa)) div 4096 \<in> pa_frees pa"
  shows "system_pa_free pa a out = Inl (Assert_Failed ''!system_pa_is_free(pa, address)'')"
  using is_free_iff [OF assms(1,2)] assms(3) by (simp add: system_pa_free_def Let_def)

lemma pa_free_outside:
  assumes "\<not> system_pa_in_range pa a"
  shows "system_pa_free pa a out = Inl (Assert_Failed
    ''pa->address_base <= address && address < pa->address_base + ((Uintptr)pa->size * SYSTEM_PAGE_SIZE)'')"
  using assms by (simp add: system_pa_free_def system_pa_is_free_def Let_def)

section \<open>The code implements the interface\<close>

lemma page_address_inj: "pa_wf pa \<Longrightarrow> inj_on (pa_page_address pa) {..<nat (pa_size pa)}"
  by (rule inj_onI) (metis lessThan_iff of_nat_eq_iff page_of_page_address)

lemma page_address_popped [simp]: "pa_page_address (pa_popped pa) = pa_page_address pa"
  by (rule ext) (simp add: pa_page_address_def)

lemma page_address_pushed [simp]: "pa_page_address (pa_pushed pa p) = pa_page_address pa"
  by (rule ext) (simp add: pa_page_address_def)

lemma free_page_address:
  assumes "pa_wf pa" and "p < nat (pa_size pa)"
  shows "(unat (pa_page_address pa p) - unat (address_base pa)) div 4096 = p"
  using page_of_page_address [OF assms] page_of_in_range(1) [OF assms(1) page_address_in_range [OF assms]]
  by simp

lemma mem_free_pages:
  assumes "pa_wf pa" and "p < nat (pa_size pa)"
  shows "pa_page_address pa p \<in> pa_free_pages pa \<longleftrightarrow> p \<in> pa_frees pa"
  using assms page_address_inj [OF assms(1)]
  by (auto simp: pa_free_pages_def pa_wf_def inj_on_def subset_iff)

interpretation pa: page_allocator system_pa_alloc pa_release pa_small pa_free_pages pa_pages
proof
  fix s :: System_Physical_Allocator and a :: Uintptr
  assume inv: "pa_small s"
  then have wf: "pa_wf s" and small: "pa_size s \<le> 2 ^ 20" by (auto simp: pa_small_def)
  have sub: "pa_frees s \<subseteq> {..<nat (pa_size s)}" using wf by (simp add: pa_wf_def)
  show "finite (pa_pages s)" by (simp add: pa_pages_def)
  show "pa_free_pages s \<subseteq> pa_pages s" using sub by (auto simp: pa_free_pages_def pa_pages_def)
  show "pa_free_pages s = {} \<Longrightarrow> system_pa_alloc s = Inr (0, False, s)"
    using pa_alloc_exhausted [OF wf] by (simp add: pa_free_pages_def pa_frees_def)
  show "\<exists>a s'. system_pa_alloc s = Inr (a, True, s') \<and> a \<in> pa_free_pages s \<and> pa_small s'
        \<and> pa_free_pages s' = pa_free_pages s - {a} \<and> pa_pages s' = pa_pages s"
    if "pa_free_pages s \<noteq> {}"
  proof -
    let ?p = "last (pa_stacked s)"
    have ne: "pa_stacked s \<noteq> []" using that by (auto simp: pa_free_pages_def pa_frees_def)
    note p = top_page [OF wf ne]
    then have "?p * 4096 < 2 ^ 32" using small by simp
    then have "system_pa_alloc s = Inr (pa_page_address s ?p, True, pa_popped s)"
      using pa_alloc_ok [OF wf ne] unfolding pa_page_address_def by (simp only: mod_less)
    moreover have "pa_free_pages (pa_popped s) = pa_free_pages s - {pa_page_address s ?p}"
    proof -
      have "pa_frees s - {?p} \<subseteq> {..<nat (pa_size s)}" and "{?p} \<subseteq> {..<nat (pa_size s)}"
        using sub p by auto
      from inj_on_image_set_diff [OF page_address_inj [OF wf] this] show ?thesis
        by (simp add: pa_free_pages_def frees_popped [OF wf ne])
    qed
    ultimately show ?thesis
      using p popped_wf [OF wf ne] inv
      by (auto simp: pa_small_def pa_free_pages_def pa_pages_def)
  qed
  show "\<exists>s'. pa_release s a = Inr s' \<and> pa_small s' \<and> pa_free_pages s' = insert a (pa_free_pages s)
        \<and> pa_pages s' = pa_pages s"
    if "a \<in> pa_pages s" "a \<notin> pa_free_pages s"
  proof -
    obtain p where p: "a = pa_page_address s p" "p < nat (pa_size s)"
      using \<open>a \<in> pa_pages s\<close> by (auto simp: pa_pages_def)
    then have used: "p \<notin> pa_frees s" using that(2) mem_free_pages [OF wf] by simp
    have "pa_release s a = Inr (pa_pushed s p)"
      using pa_free_ok [OF wf page_address_in_range [OF wf p(2)]] free_page_address [OF wf p(2)] used p(1)
      by (simp add: pa_release_def)
    moreover have "pa_free_pages (pa_pushed s p) = insert a (pa_free_pages s)"
      using stacked_pushed [OF wf p(2) used] p(1) by (simp add: pa_free_pages_def pa_frees_def)
    ultimately show ?thesis
      using pushed_wf [OF wf p(2) used] inv by (simp add: pa_small_def pa_pages_def)
  qed
  show "\<exists>e. pa_release s a = Inl e" if held: "a \<in> pa_free_pages s"
  proof -
    obtain p where p: "a = pa_page_address s p" "p \<in> pa_frees s" "p < nat (pa_size s)"
      using held sub by (auto simp: pa_free_pages_def)
    then show ?thesis
      using pa_free_double [OF wf page_address_in_range [OF wf p(3)]] free_page_address [OF wf p(3)]
      by (simp add: pa_release_def)
  qed
qed

section \<open>Properties\<close>

text \<open>(C8) Whatever the memory of the range held before: when the metadata pages \<open>m\<close> hold the struct, the bitmap and the stack of \<open>N\<close>
  pages, a fresh allocator over \<open>N\<close> pages is well formed and has exactly the pages \<open>m, \<dots>, N - 1\<close> free. The pages
  are zeroed first, so the bitmap starts empty.\<close>

theorem system_pa_init_correct:
  assumes "0 < m" and "m \<le> N" and "int N \<le> U32_MAX" and "pa_metadata_covers m N"
    and "uint base + int N * SYSTEM_PAGE_SIZE < 2 ^ 64"
  shows "\<exists>pa. system_pa_init region base (int m) (int N) = Inr pa \<and> pa_wf pa
     \<and> pa_frees pa = {m..<N} \<and> pa_size pa = int N \<and> address_base pa = base"
  using pa_init_ok [OF assms] by (fastforce simp: pa_frees_def)

theorem system_pa_init_correct_witness:
  "\<exists>pa. system_pa_init (\<lambda>_. 0xAA) 0x1000 (int 1) (int 4) = Inr pa \<and> pa_wf pa
     \<and> pa_frees pa = {1..<4} \<and> pa_size pa = int 4 \<and> address_base pa = 0x1000"
  by (rule system_pa_init_correct) (simp_all add: U32_MAX_def SYSTEM_PAGE_SIZE_def pa_metadata_covers_def pa_metadata_size_def)

text \<open>(C9) Metadata larger than the range is caught: if the metadata pages do not fit into the page count, the
  loop that marks them as used stops at the bounds check of \<^verbatim>\<open>system_pa_calculate_page_index\<close>.\<close>

theorem system_pa_init_metadata_overrun:
  assumes "0 < n" and "n \<le> U32_MAX" and "n < m"
  shows "system_pa_init region base m n = Inl (Assert_Failed ''0 <= page && page < pa->size'')"
proof -
  define N where "N = nat n"
  have N: "n = int N" "0 < N" "int N \<le> U32_MAX" using assms by (simp_all add: N_def)
  define mem where "mem = zero_bytes (m * 4096) region"
  define stack0 :: "U32 list" where "stack0 = region_array mem (64 + 8 * ((N + 63) div 64)) 4 N"
  have len0: "length stack0 = N" by (simp add: stack0_def)
  have "unat (of_nat N :: U32) = N" using N(3) by (simp add: unat_of_nat U32_MAX_def)
  then obtain st k where st: "system_pa_init_stack (word_of_int m) (of_nat N) 0 stack0 = Inr (st, k)" and len: "length st = N"
    using init_stack_fills [of 0 "of_nat N" "word_of_int m" stack0] len0 by auto
  have "system_pa_init_used 0 m \<lparr> pa_next = 0, pa_next_16mb = 0, pa_next_4gb = 0, pa_size = int N,
            stack_top = k - 1, pages_bitmap = region_array mem 64 8 ((N + 63) div 64), pages_stack = st, address_base = 0 \<rparr>
      = Inl (Assert_Failed ''0 <= page && page < pa->size'')"
    using init_used_overrun [of _ m 0] assms N len by (simp add: pa_shape_def)
  then show ?thesis
    using st assms unfolding N(1) by (simp add: init_start [OF N(2,3)] stack0_def mem_def)
qed

theorem system_pa_init_metadata_overrun_witness:
  "system_pa_init (\<lambda>_. 0xAA) 0x1000 3 2 = Inl (Assert_Failed ''0 <= page && page < pa->size'')"
  by (rule system_pa_init_metadata_overrun) (simp_all add: U32_MAX_def)

text \<open>(C4) \<^verbatim>\<open>system_pa_alloc\<close> on a range of at most 4 GiB: with no page free it reports failure and changes
  nothing; otherwise it returns the address of a free page, which is then used and nothing else changes.\<close>

theorem system_pa_alloc_correct:
  assumes "pa_wf pa" and "pa_size pa \<le> 2 ^ 20"
  shows "if pa_frees pa = {} then system_pa_alloc pa = Inr (0, False, pa)
     else \<exists>p pa'. p \<in> pa_frees pa \<and> system_pa_alloc pa = Inr (pa_page_address pa p, True, pa')
       \<and> pa_wf pa' \<and> pa_frees pa' = pa_frees pa - {p}
       \<and> pa_size pa' = pa_size pa \<and> address_base pa' = address_base pa"
proof (cases "pa_stacked pa = []")
  case True
  then show ?thesis using pa_alloc_exhausted [OF assms(1)] by (simp add: pa_frees_def)
next
  case False
  let ?p = "last (pa_stacked pa)"
  note p = top_page [OF assms(1) False]
  then have "?p * 4096 < 2 ^ 32" using assms(2) by simp
  then have "system_pa_alloc pa = Inr (pa_page_address pa ?p, True, pa_popped pa)"
    using pa_alloc_ok [OF assms(1) False] unfolding pa_page_address_def by (simp only: mod_less)
  moreover have "pa_frees pa \<noteq> {}" using p(1) by blast
  ultimately show ?thesis
    using p(1) popped_wf [OF assms(1) False] frees_popped [OF assms(1) False]
    by (auto intro!: exI [of _ ?p] exI [of _ "pa_popped pa"])
qed

theorem system_pa_alloc_correct_witness:
  "\<exists>pa p pa'. system_pa_init (\<lambda>_. 0xAA) 0x1000 (int 1) (int 4) = Inr pa \<and> p \<in> {1..<4::nat}
     \<and> system_pa_alloc pa = Inr (pa_page_address pa p, True, pa') \<and> pa_frees pa' = {1..<4} - {p}"
proof -
  obtain pa where pa: "system_pa_init (\<lambda>_. 0xAA) 0x1000 (int 1) (int 4) = Inr pa" "pa_wf pa"
      "pa_stacked pa = [1..<4]" "pa_size pa = int 4"
    using pa_init_ok [of 1 4 "0x1000" "\<lambda>_. 0xAA"] by (auto simp: U32_MAX_def SYSTEM_PAGE_SIZE_def pa_metadata_covers_def pa_metadata_size_def)
  then have "pa_size pa \<le> 2 ^ 20" and frees: "pa_frees pa = {1..<4}"
    by (auto simp: pa_frees_def)
  from system_pa_alloc_correct [OF pa(2) this(1)] frees pa(1) show ?thesis by auto
qed

text \<open>(C10) Defect. The product of the page number and the page size is taken in 32 bits, so a range of more than
  4 GiB hands out wrong addresses: the first page a fresh allocator of \<open>2\<^sup>2\<^sup>0 + 1\<close> pages returns is at
  its base, where its own metadata lies.\<close>

theorem system_pa_alloc_wraps_at_4GiB:
  assumes "0 < m" and "m \<le> 2 ^ 20" and "uint base + (2 ^ 20 + 1) * SYSTEM_PAGE_SIZE < 2 ^ 64"
  shows "\<exists>pa pa'. system_pa_init region base (int m) (2 ^ 20 + 1) = Inr pa \<and> 0 \<notin> pa_frees pa
     \<and> system_pa_alloc pa = Inr (pa_page_address pa 0, True, pa')"
proof -
  let ?N = "2 ^ 20 + 1 :: nat"
  have m: "m \<le> ?N" and N: "int ?N \<le> U32_MAX" using assms(2) by (simp_all add: U32_MAX_def)
  obtain bm where bm: "system_pa_init region base (int m) (int ?N) = Inr ((pa_filled region m ?N)\<lparr> pages_bitmap := bm, address_base := base \<rparr>)"
    "length bm = (?N + 63) div 64" "pa_stacked ((pa_filled region m ?N)\<lparr> pages_bitmap := bm, address_base := base \<rparr>) = [m..<?N]"
    using pa_init_stacked [OF assms(1) m N, where region = region and base = base] by blast
  define pa where "pa = (pa_filled region m ?N)\<lparr> pages_bitmap := bm, address_base := base \<rparr>"
  have st: "pa_stacked pa = [m..<?N]" and fields: "pa_size pa = int ?N" "address_base pa = base" "stack_top pa = int (?N - m) - 1"
    using bm(3) by (simp_all add: pa_def pa_filled_def)
  have "pa_shape pa" using pa_filled_shape [of ?N m region] m N bm(2) by (simp add: pa_def pa_shape_def pa_filled_def)
  moreover have last: "last (pa_stacked pa) = 2 ^ 20" using st assms(2) by simp
  ultimately have "system_pa_alloc pa = Inr (address_base pa + of_nat (last (pa_stacked pa) * 4096 mod 2 ^ 32), True, pa_popped pa)"
    using fields assms by (intro pa_alloc_top) simp_all
  then have "system_pa_alloc pa = Inr (pa_page_address pa 0, True, pa_popped pa)"
    unfolding last by (simp add: pa_page_address_def)
  moreover have "0 \<notin> pa_frees pa" using st assms(1) by (simp add: pa_frees_def)
  moreover have "system_pa_init region base (int m) (2 ^ 20 + 1) = Inr pa" using bm(1) by (simp add: pa_def)
  ultimately show ?thesis by blast
qed

theorem system_pa_alloc_wraps_at_4GiB_witness:
  "\<exists>pa pa'. system_pa_init (\<lambda>_. 0xAA) 0x100000000 (int 1057) (2 ^ 20 + 1) = Inr pa \<and> 0 \<notin> pa_frees pa
     \<and> system_pa_alloc pa = Inr (pa_page_address pa 0, True, pa')"
  by (rule system_pa_alloc_wraps_at_4GiB) (simp_all add: SYSTEM_PAGE_SIZE_def)

text \<open>(C6) \<^verbatim>\<open>system_pa_free\<close> on every branch: an address outside the range and an address in a free page stop
  at an assertion; any other address makes its page free, keeps the invariant and prints 1234.\<close>

theorem system_pa_free_correct:
  assumes "pa_wf pa"
  shows "system_pa_free pa a out =
     (if \<not> system_pa_in_range pa a then Inl (Assert_Failed
        ''pa->address_base <= address && address < pa->address_base + ((Uintptr)pa->size * SYSTEM_PAGE_SIZE)'')
      else if (unat a - unat (address_base pa)) div 4096 \<in> pa_frees pa
      then Inl (Assert_Failed ''!system_pa_is_free(pa, address)'')
      else Inr (pa_pushed pa ((unat a - unat (address_base pa)) div 4096), out @ ''1234''))
     \<and> (\<forall>p < nat (pa_size pa). p \<notin> pa_frees pa \<longrightarrow>
          pa_wf (pa_pushed pa p) \<and> pa_frees (pa_pushed pa p) = insert p (pa_frees pa))"
proof -
  have "pa_frees (pa_pushed pa p) = insert p (pa_frees pa)"
    if "p < nat (pa_size pa)" "p \<notin> pa_frees pa" for p
    using stacked_pushed [OF assms that] by (simp add: pa_frees_def)
  then show ?thesis
    using pa_free_ok [OF assms] pa_free_double [OF assms] pa_free_outside pushed_wf [OF assms] by auto
qed

theorem system_pa_free_correct_witness:
  "\<exists>pa pa'. system_pa_init (\<lambda>_. 0xAA) 0x1000 (int 1) (int 4) = Inr pa
     \<and> system_pa_free pa 0x2000 [] = Inl (Assert_Failed ''!system_pa_is_free(pa, address)'')
     \<and> system_pa_free pa 0x1000 [] = Inr (pa', ''1234'') \<and> pa_frees pa' = {0..<4}"
proof -
  obtain pa where pa: "system_pa_init (\<lambda>_. 0xAA) 0x1000 (int 1) (int 4) = Inr pa" "pa_wf pa"
      "pa_stacked pa = [1..<4]" "pa_size pa = int 4" "address_base pa = 0x1000"
    using pa_init_ok [of 1 4 "0x1000" "\<lambda>_. 0xAA"] by (auto simp: U32_MAX_def SYSTEM_PAGE_SIZE_def pa_metadata_covers_def pa_metadata_size_def)
  have frees: "pa_frees pa = {1..<4}" using pa(3) by (simp add: pa_frees_def)
  have "system_pa_in_range pa 0x2000" and "system_pa_in_range pa 0x1000"
    using in_range_iff [OF pa(2)] pa(4,5) by simp_all
  with system_pa_free_correct [OF pa(2), of "0x2000" "[]"]
    system_pa_free_correct [OF pa(2), of "0x1000" "[]"] frees pa show ?thesis
    by (auto simp: insert_absorb atLeastLessThan_def)
qed

text \<open>(C7) Allocation and release undo each other: giving back the page just allocated restores the free stack,
  and the next allocation returns the same address.\<close>

theorem system_pa_alloc_free_roundtrip:
  assumes "pa_wf pa" and "pa_size pa \<le> 2 ^ 20" and "system_pa_alloc pa = Inr (a, True, pa')"
  shows "\<exists>pa'' pa3. system_pa_free pa' a out = Inr (pa'', out @ ''1234'') \<and> pa_wf pa''
     \<and> pa_stacked pa'' = pa_stacked pa \<and> system_pa_alloc pa'' = Inr (a, True, pa3)"
proof -
  have ne: "pa_stacked pa \<noteq> []"
    using assms(3) pa_alloc_exhausted [OF assms(1)] by auto
  let ?p = "last (pa_stacked pa)"
  note p = top_page [OF assms(1) ne]
  have "?p * 4096 < 2 ^ 32" using p assms(2) by simp
  then have "system_pa_alloc pa = Inr (pa_page_address pa ?p, True, pa_popped pa)"
    using pa_alloc_ok [OF assms(1) ne] unfolding pa_page_address_def by (simp only: mod_less)
  then have a: "a = pa_page_address (pa_popped pa) ?p" and pa': "pa' = pa_popped pa"
    using assms(3) by simp_all
  note wf' = popped_wf [OF assms(1) ne]
  have p': "?p < nat (pa_size (pa_popped pa))" "?p \<notin> pa_frees (pa_popped pa)"
    using p frees_popped [OF assms(1) ne] by simp_all
  define pa'' where "pa'' = pa_pushed (pa_popped pa) ?p"
  have free: "system_pa_free pa' a out = Inr (pa'', out @ ''1234'')"
    unfolding a pa' pa''_def using page_address_in_range [OF wf' p'(1)] free_page_address [OF wf' p'(1)] p'(2)
    by (intro pa_free_ok [OF wf']) simp_all
  have wf'': "pa_wf pa''" unfolding pa''_def by (rule pushed_wf [OF wf' p'])
  have st: "pa_stacked pa'' = pa_stacked pa"
    unfolding pa''_def using stacked_pushed [OF wf' p'] stacked_popped [OF assms(1) ne] ne by simp
  have "system_pa_alloc pa'' = Inr (pa_page_address pa'' ?p, True, pa_popped pa'')"
    using pa_alloc_ok [OF wf''] st ne \<open>?p * 4096 < 2 ^ 32\<close>
    unfolding pa_page_address_def by (simp only: mod_less) simp
  moreover have "pa_page_address pa'' ?p = a" by (simp add: a pa''_def)
  ultimately show ?thesis using free wf'' st by metis
qed

theorem system_pa_alloc_free_roundtrip_witness:
  "\<exists>pa a pa' pa'' pa3. system_pa_init (\<lambda>_. 0xAA) 0x1000 (int 1) (int 4) = Inr pa
     \<and> system_pa_alloc pa = Inr (a, True, pa') \<and> system_pa_free pa' a [] = Inr (pa'', ''1234'')
     \<and> pa_stacked pa'' = [1..<4] \<and> system_pa_alloc pa'' = Inr (a, True, pa3)"
proof -
  obtain pa where pa: "system_pa_init (\<lambda>_. 0xAA) 0x1000 (int 1) (int 4) = Inr pa" "pa_wf pa"
      "pa_stacked pa = [1..<4]" "pa_size pa = int 4"
    using pa_init_ok [of 1 4 "0x1000" "\<lambda>_. 0xAA"] by (auto simp: U32_MAX_def SYSTEM_PAGE_SIZE_def pa_metadata_covers_def pa_metadata_size_def)
  moreover from this have "\<exists>a pa'. system_pa_alloc pa = Inr (a, True, pa')"
    using pa_alloc_ok [OF pa(2)] by simp
  ultimately show ?thesis
    using system_pa_alloc_free_roundtrip [of pa _ _ "[]"] by fastforce
qed

text \<open>(C5) Over any sequence of allocations and releases of held pages, from an allocator of at most 4 GiB, an
  allocation never fails an assertion, never returns a page the client already holds, and succeeds
  as long as the client holds fewer pages than were free at the start.\<close>

theorem page_run_safe:
  assumes "page_run system_pa_alloc pa_release s0 s held" and "pa_wf s0" and "pa_size s0 \<le> 2 ^ 20"
  shows "(\<exists>r. system_pa_alloc s = Inr r)
     \<and> (\<forall>a s'. system_pa_alloc s = Inr (a, True, s') \<longrightarrow> a \<notin> held \<and> a \<in> pa_free_pages s0)
     \<and> (card held < card (pa_free_pages s0) \<longrightarrow> (\<exists>a s'. system_pa_alloc s = Inr (a, True, s')))
     \<and> (\<forall>a \<in> held. \<exists>s'. pa_release s a = Inr s')"
proof -
  have inv: "pa_small s0" using assms(2,3) by (simp add: pa_small_def)
  note run = assms(1)
  have st: "pa_small s" "pa_pages s = pa_pages s0" "held \<subseteq> pa_free_pages s0" "held \<inter> pa_free_pages s = {}"
    using pa.run_invariant [OF run inv] by simp_all
  have "\<exists>s'. pa_release s a = Inr s'" if "a \<in> held" for a
  proof -
    have "a \<in> pa_pages s" and "a \<notin> pa_free_pages s"
      using st pa.free_sub [OF inv] that by auto
    then show ?thesis using pa.release_used [OF st(1)] by blast
  qed
  moreover have "\<exists>r. system_pa_alloc s = Inr r" by (rule pa.alloc_never_fails [OF st(1)])
  ultimately show ?thesis
    using pa.run_alloc_fresh [OF run inv] pa.run_alloc_succeeds [OF run inv] by simp
qed

theorem page_run_safe_witness:
  "\<exists>pa a pa'. system_pa_init (\<lambda>_. 0xAA) 0x1000 (int 1) (int 4) = Inr pa
     \<and> page_run system_pa_alloc pa_release pa pa' {a}
     \<and> (\<exists>b s. system_pa_alloc pa' = Inr (b, True, s) \<and> b \<noteq> a)"
proof -
  obtain pa where pa: "system_pa_init (\<lambda>_. 0xAA) 0x1000 (int 1) (int 4) = Inr pa" "pa_wf pa"
      "pa_stacked pa = [1..<4]" "pa_size pa = int 4"
    using pa_init_ok [of 1 4 "0x1000" "\<lambda>_. 0xAA"] by (auto simp: U32_MAX_def SYSTEM_PAGE_SIZE_def pa_metadata_covers_def pa_metadata_size_def)
  moreover from this obtain a pa' where a: "system_pa_alloc pa = Inr (a, True, pa')"
    using pa_alloc_ok [OF pa(2)] by simp
  ultimately have run: "page_run system_pa_alloc pa_release pa pa' (insert a {})"
    by (intro run_alloc [OF run_start])
  have "card (pa_free_pages pa) = 3"
    using card_image [OF inj_on_subset [OF page_address_inj [OF pa(2)]], of "{1..<4}"] pa(3,4)
    by (simp add: pa_free_pages_def pa_frees_def subset_iff)
  then have "card {a} < card (pa_free_pages pa)" by simp
  then obtain b s where "system_pa_alloc pa' = Inr (b, True, s)" "b \<noteq> a"
    using page_run_safe [OF run pa(2)] pa(4) by auto
  with pa(1) run show ?thesis by blast
qed

end
