(* ===== verification/Rb_Range.thy ===== *)
theory Rb_Range
  imports Kernel_Prelude
begin

text \<open>
  The address ranges the red-black tree of \<^verbatim>\<open>experiments/rbtree.c\<close> holds: \<^verbatim>\<open>Test_Range\<close> with its
  comparison, validity and overlap test. Addresses and lengths are 64-bit words and the sums in
  the overlap test wrap; for valid ranges they do not, and the lemmas below give the comparison and
  the overlap test their meaning on the set of addresses a range covers.
\<close>

section \<open>The code\<close>

abbreviation c_assert :: "bool \<Rightarrow> string \<Rightarrow> unit result" where
  "c_assert \<equiv> kassert"

record Test_Range =
  rstart :: U64
  rlen :: U64

definition test_range_compare :: "Test_Range \<Rightarrow> Test_Range \<Rightarrow> int" where
  "test_range_compare a b =
     (if rstart a < rstart b then -1
      else if rstart a > rstart b then 1
      else if rlen a < rlen b then -1
      else if rlen a > rlen b then 1
      else 0)"

definition UINTPTR_MAX :: U64 where
  "UINTPTR_MAX = 0xFFFFFFFFFFFFFFFF"

definition test_range_valid :: "Test_Range \<Rightarrow> bool" where
  "test_range_valid r =
     (if rlen r \<le> 0 then False
      else if rlen r > UINTPTR_MAX - rstart r then False
      else True)"

definition test_range_overlap :: "Test_Range \<Rightarrow> Test_Range \<Rightarrow> bool result" where
  "test_range_overlap a b =
     sbind (c_assert (test_range_valid a \<and> test_range_valid b)
              ''test_range_valid(a) && test_range_valid(b)'') (\<lambda>_.
     Inr (rstart a < rstart b + rlen b \<and> rstart b < rstart a + rlen a))"

section \<open>What it means\<close>

text \<open>The addresses of a range, and the relation ``ends before''.\<close>

definition range_addrs :: "Test_Range \<Rightarrow> nat set" where
  "range_addrs r = {unat (rstart r)..<unat (rstart r) + unat (rlen r)}"

definition range_before :: "Test_Range \<Rightarrow> Test_Range \<Rightarrow> bool" where
  "range_before a b \<longleftrightarrow> unat (rstart a) + unat (rlen a) \<le> unat (rstart b)"

text \<open>The overlap test without its assertion, as the tree uses it on valid ranges.\<close>

definition overlaps :: "Test_Range \<Rightarrow> Test_Range \<Rightarrow> bool" where
  "overlaps a b \<longleftrightarrow> \<not> range_before a b \<and> \<not> range_before b a"

lemma valid_iff: "test_range_valid r \<longleftrightarrow> 0 < unat (rlen r) \<and> unat (rstart r) + unat (rlen r) < 2 ^ 64"
proof -
  have bound: "unat (rstart r) < 2 ^ 64" using unsigned_less [of "rstart r", where ?'a = nat] by simp
  then have "rstart r \<le> UINTPTR_MAX"
    by (simp add: UINTPTR_MAX_def word_le_nat_alt)
  then have "unat (UINTPTR_MAX - rstart r) = 2 ^ 64 - 1 - unat (rstart r)"
    by (simp add: unat_sub UINTPTR_MAX_def)
  then show ?thesis
    using bound by (auto simp: test_range_valid_def word_less_nat_alt unat_gt_0)
qed

lemma valid_end:
  "test_range_valid r \<Longrightarrow> unat (rstart r + rlen r) = unat (rstart r) + unat (rlen r)"
  by (simp add: valid_iff unat_word_ariths)

lemma valid_nonempty: "test_range_valid r \<Longrightarrow> unat (rstart r) \<in> range_addrs r"
  by (simp add: valid_iff range_addrs_def)

lemma overlap_ok:
  "test_range_valid a \<Longrightarrow> test_range_valid b \<Longrightarrow> test_range_overlap a b = Inr (overlaps a b)"
  by (auto simp: test_range_overlap_def overlaps_def range_before_def word_less_nat_alt valid_end)

lemma overlaps_iff:
  "test_range_valid a \<Longrightarrow> test_range_valid b \<Longrightarrow>
   overlaps a b \<longleftrightarrow> range_addrs a \<inter> range_addrs b \<noteq> {}"
  by (auto simp: overlaps_def range_before_def range_addrs_def valid_iff not_le)

lemma compare_before:
  assumes "range_before a b" and "test_range_valid a"
  shows "test_range_compare a b = -1" and "test_range_compare b a = 1"
proof -
  have "rstart a < rstart b" using assms by (auto simp: range_before_def valid_iff word_less_nat_alt)
  then show "test_range_compare a b = -1" and "test_range_compare b a = 1"
    by (auto simp: test_range_compare_def)
qed

lemma compare_eq_0 [simp]: "test_range_compare a b = 0 \<longleftrightarrow> a = b"
  by (cases a; cases b) (auto simp: test_range_compare_def)

lemma compare_same [simp]: "test_range_compare a a = 0"
  by simp

lemma before_trans [trans]:
  "range_before a b \<Longrightarrow> range_before b c \<Longrightarrow> test_range_valid b \<Longrightarrow> range_before a c"
  by (auto simp: range_before_def)

lemma before_irrefl [simp]: "test_range_valid a \<Longrightarrow> \<not> range_before a a"
  by (simp add: range_before_def valid_iff)

lemma before_asym: "range_before a b \<Longrightarrow> test_range_valid a \<Longrightarrow> \<not> range_before b a"
  by (auto simp: range_before_def valid_iff)

end
