(* ===== verification/Rb_Node.thy ===== *)
theory Rb_Node
  imports Rb_Range
begin

text \<open>
  The nodes of \<^verbatim>\<open>experiments/rbtree.c\<close> (lines 62 to 226): a typed heap from addresses to \<^verbatim>\<open>Node\<close>
  structs, with the colour of a node kept in the lowest bit of its left child pointer, and the
  operations on single nodes, among them the rotations and the insertion into and removal from the
  doubly linked list that threads the tree.

  Every \<^verbatim>\<open>assert\<close> of the source is an assertion of the model in the same place, and reading a
  pointer that is no node is a \<open>Fault\<close>. The lemmas at the end hide the tagging: a node is seen
  through \<open>node_color\<close> and \<open>node_child\<close>, which every operation updates like independent fields.
\<close>

section \<open>The code\<close>

datatype RB_Direction = RB_LEFT | RB_RIGHT

definition RB_COLOR_DIRECTION :: RB_Direction where
  "RB_COLOR_DIRECTION = RB_LEFT"

definition RB_COLOR_NEXT_FREE :: RB_Direction where
  "RB_COLOR_NEXT_FREE = RB_RIGHT"

fun rb_direction_flip :: "RB_Direction \<Rightarrow> RB_Direction" where
  "rb_direction_flip RB_LEFT = RB_RIGHT"
| "rb_direction_flip RB_RIGHT = RB_LEFT"

datatype RB_Color = RBC_BLACK | RBC_RED

fun rb_color_flip :: "RB_Color \<Rightarrow> RB_Color" where
  "rb_color_flip RBC_BLACK = RBC_RED"
| "rb_color_flip RBC_RED = RBC_BLACK"

text \<open>The enumeration values as the words that are stored in the tag bit.\<close>

fun color_bits :: "RB_Color \<Rightarrow> U64" where
  "color_bits RBC_BLACK = 0"
| "color_bits RBC_RED = 1"

definition bits_color :: "U64 \<Rightarrow> RB_Color" where
  "bits_color w = (if w = 0 then RBC_BLACK else RBC_RED)"

record Node =
  node_range :: Test_Range
  node_list :: "RB_Direction \<Rightarrow> ptr"
  node_children :: "RB_Direction \<Rightarrow> ptr"

type_synonym node_heap = "ptr \<rightharpoonup> Node"

text \<open>The address of the global \<^verbatim>\<open>node_nil\<close>: some address that is not NULL and has its lowest bit clear.\<close>

definition node_nil :: ptr where
  "node_nil = 0x1000"

definition NODE_PTR_MASK :: U64 where
  "NODE_PTR_MASK = NOT 1"

definition node_get :: "ptr \<Rightarrow> ptr" where
  "node_get node = node AND NOT 1"

definition node_valid :: "ptr \<Rightarrow> bool" where
  "node_valid node \<longleftrightarrow> node \<noteq> 0 \<and> node_get node = node"

definition node_is_nil :: "ptr \<Rightarrow> bool result" where
  "node_is_nil node =
     sbind (c_assert (node_valid node) ''node_valid(node)'') (\<lambda>_. Inr (node = node_nil))"

text \<open>\<^verbatim>\<open>assert(!node_is_nil(node))\<close>.\<close>

definition assert_not_nil :: "ptr \<Rightarrow> unit result" where
  "assert_not_nil node = sbind (node_is_nil node) (\<lambda>nil. c_assert (\<not> nil) ''!node_is_nil(node)'')"

definition node_load :: "node_heap \<Rightarrow> ptr \<Rightarrow> Node result" where
  "node_load h p = (case h p of None \<Rightarrow> Inl (Fault ''node'') | Some n \<Rightarrow> Inr n)"

definition node_get_color :: "node_heap \<Rightarrow> ptr \<Rightarrow> RB_Color result" where
  "node_get_color h node =
     sbind (c_assert (node_valid node) ''node_valid(node)'') (\<lambda>_.
     sbind (assert_not_nil node) (\<lambda>_.
     sbind (node_load h node) (\<lambda>n.
     Inr (bits_color (node_children n RB_COLOR_DIRECTION AND 1)))))"

definition node_set_color :: "node_heap \<Rightarrow> ptr \<Rightarrow> RB_Color \<Rightarrow> node_heap result" where
  "node_set_color h node color =
     sbind (c_assert (node_valid node) ''node_valid(node)'') (\<lambda>_.
     sbind (assert_not_nil node) (\<lambda>_.
     sbind (node_load h node) (\<lambda>n.
     Inr (h(node \<mapsto> n\<lparr> node_children := (node_children n)(RB_COLOR_DIRECTION :=
       (node_children n RB_COLOR_DIRECTION AND NODE_PTR_MASK) OR color_bits color) \<rparr>)))))"

definition node_get_child :: "node_heap \<Rightarrow> ptr \<Rightarrow> RB_Direction \<Rightarrow> ptr result" where
  "node_get_child h node direction =
     sbind (c_assert (node_valid node) ''node_valid(node)'') (\<lambda>_.
     sbind (assert_not_nil node) (\<lambda>_.
     sbind (node_load h node) (\<lambda>n.
     let child = node_children n direction;
         child = (if direction = RB_COLOR_DIRECTION then node_get child else child)
     in sbind (c_assert (node_valid child) ''node_valid(child)'') (\<lambda>_.
     Inr child))))"

definition node_set_child :: "node_heap \<Rightarrow> ptr \<Rightarrow> RB_Direction \<Rightarrow> ptr \<Rightarrow> node_heap result" where
  "node_set_child h node direction child =
     sbind (c_assert (node_valid node) ''node_valid(node)'') (\<lambda>_.
     sbind (c_assert (node_valid child) ''node_valid(child)'') (\<lambda>_.
     sbind (assert_not_nil node) (\<lambda>_.
     sbind (if direction = RB_COLOR_DIRECTION
            then sbind (node_get_color h node) (\<lambda>color. Inr (child OR color_bits color))
            else Inr child) (\<lambda>child.
     sbind (node_load h node) (\<lambda>n.
     Inr (h(node \<mapsto> n\<lparr> node_children := (node_children n)(direction := child) \<rparr>)))))))"

definition node_has_child :: "node_heap \<Rightarrow> ptr \<Rightarrow> RB_Direction \<Rightarrow> bool result" where
  "node_has_child h node direction =
     sbind (assert_not_nil node) (\<lambda>_.
     sbind (node_get_child h node direction) (\<lambda>child.
     sbind (node_is_nil child) (\<lambda>nil. Inr (\<not> nil))))"

definition node_red :: "node_heap \<Rightarrow> ptr \<Rightarrow> bool result" where
  "node_red h node =
     sbind (node_is_nil node) (\<lambda>nil.
     if nil then Inr False
     else sbind (node_get_color h node) (\<lambda>color. Inr (color = RBC_RED)))"

definition node_child_red :: "node_heap \<Rightarrow> ptr \<Rightarrow> RB_Direction \<Rightarrow> bool result" where
  "node_child_red h node direction =
     sbind (assert_not_nil node) (\<lambda>_.
     sbind (node_get_child h node direction) (node_red h))"

definition node_flip_if_node :: "node_heap \<Rightarrow> ptr \<Rightarrow> node_heap result" where
  "node_flip_if_node h child =
     sbind (node_is_nil child) (\<lambda>nil.
     if \<not> nil
     then sbind (node_get_color h child) (\<lambda>color. node_set_color h child (rb_color_flip color))
     else Inr h)"

definition node_color_flip :: "node_heap \<Rightarrow> ptr \<Rightarrow> node_heap result" where
  "node_color_flip h node =
     sbind (assert_not_nil node) (\<lambda>_.
     sbind (node_get_color h node) (\<lambda>color.
     sbind (node_set_color h node (rb_color_flip color)) (\<lambda>h.
     sbind (node_get_child h node RB_LEFT) (\<lambda>left.
     sbind (node_flip_if_node h left) (\<lambda>h.
     sbind (node_get_child h node RB_RIGHT) (\<lambda>right.
     node_flip_if_node h right))))))"

definition node_rotate :: "node_heap \<Rightarrow> ptr \<Rightarrow> RB_Direction \<Rightarrow> (ptr \<times> node_heap) result" where
  "node_rotate h node direction =
     sbind (assert_not_nil node) (\<lambda>_.
     sbind (node_get_child h node (rb_direction_flip direction)) (\<lambda>temp.
     sbind (assert_not_nil temp) (\<lambda>_.
     sbind (node_get_child h temp direction) (\<lambda>inner.
     sbind (node_set_child h node (rb_direction_flip direction) inner) (\<lambda>h.
     sbind (node_set_child h temp direction node) (\<lambda>h.
     sbind (node_get_color h node) (\<lambda>color.
     sbind (node_set_color h temp color) (\<lambda>h.
     sbind (node_set_color h node RBC_RED) (\<lambda>h.
     sbind (c_assert (node_valid temp) ''node_valid(temp)'') (\<lambda>_.
     Inr (temp, h)))))))))))"

definition node_double_rotate ::
    "node_heap \<Rightarrow> ptr \<Rightarrow> RB_Direction \<Rightarrow> (ptr \<times> node_heap) result" where
  "node_double_rotate h node direction =
     sbind (assert_not_nil node) (\<lambda>_.
     sbind (node_get_child h node (rb_direction_flip direction)) (\<lambda>child.
     sbind (assert_not_nil child) (\<lambda>_.
     sbind (node_get_child h node (rb_direction_flip direction)) (\<lambda>child.
     sbind (node_rotate h child (rb_direction_flip direction)) (\<lambda>(new, h).
     sbind (node_set_child h node (rb_direction_flip direction) new) (\<lambda>h.
     sbind (node_rotate h node direction) (\<lambda>(result, h).
     sbind (c_assert (node_valid result) ''node_valid(result)'') (\<lambda>_.
     Inr (result, h)))))))))"

text \<open>\<^verbatim>\<open>p->list[direction] = q\<close>.\<close>

definition node_set_list :: "node_heap \<Rightarrow> ptr \<Rightarrow> RB_Direction \<Rightarrow> ptr \<Rightarrow> node_heap result" where
  "node_set_list h p direction q =
     sbind (node_load h p) (\<lambda>n.
     Inr (h(p \<mapsto> n\<lparr> node_list := (node_list n)(direction := q) \<rparr>)))"

definition node_insert :: "node_heap \<Rightarrow> ptr \<Rightarrow> ptr \<Rightarrow> RB_Direction \<Rightarrow> node_heap result" where
  "node_insert h node anker direction =
     sbind (c_assert (node_valid node) ''node_valid(node)'') (\<lambda>_.
     sbind (assert_not_nil node) (\<lambda>_.
     sbind (c_assert (node_valid anker) ''node_valid(anker)'') (\<lambda>_.
     sbind (assert_not_nil anker) (\<lambda>_.
     let flipped = rb_direction_flip direction in
     sbind (node_load h anker) (\<lambda>a.
     sbind (node_set_list h node direction (node_list a direction)) (\<lambda>h.
     sbind (node_set_list h node flipped anker) (\<lambda>h.
     sbind (node_set_list h anker direction node) (\<lambda>h.
     sbind (node_load h node) (\<lambda>n.
     node_set_list h (node_list n direction) flipped node)))))))))"

definition node_remove_from_list :: "node_heap \<Rightarrow> ptr \<Rightarrow> node_heap result" where
  "node_remove_from_list h node =
     sbind (c_assert (node_valid node) ''node_valid(node)'') (\<lambda>_.
     sbind (assert_not_nil node) (\<lambda>_.
     sbind (node_load h node) (\<lambda>n.
     sbind (node_set_list h (node_list n RB_LEFT) RB_RIGHT (node_list n RB_RIGHT)) (\<lambda>h.
     sbind (node_load h node) (\<lambda>n.
     node_set_list h (node_list n RB_RIGHT) RB_LEFT (node_list n RB_LEFT))))))"

section \<open>Nodes without the tag\<close>

definition node_color :: "Node \<Rightarrow> RB_Color" where
  "node_color n = bits_color (node_children n RB_LEFT AND 1)"

definition node_child :: "Node \<Rightarrow> RB_Direction \<Rightarrow> ptr" where
  "node_child n d = (case d of RB_LEFT \<Rightarrow> node_get (node_children n RB_LEFT) | RB_RIGHT \<Rightarrow> node_children n RB_RIGHT)"

definition paint_node :: "Node \<Rightarrow> RB_Color \<Rightarrow> Node" where
  "paint_node n c = n\<lparr> node_children := (node_children n)(RB_LEFT :=
     (node_children n RB_LEFT AND NODE_PTR_MASK) OR color_bits c) \<rparr>"

definition link_node :: "Node \<Rightarrow> RB_Direction \<Rightarrow> ptr \<Rightarrow> Node" where
  "link_node n d q = n\<lparr> node_children := (node_children n)(d :=
     (if d = RB_LEFT then q OR color_bits (node_color n) else q)) \<rparr>"

definition list_node :: "Node \<Rightarrow> RB_Direction \<Rightarrow> ptr \<Rightarrow> Node" where
  "list_node n d q = n\<lparr> node_list := (node_list n)(d := q) \<rparr>"

definition ok_ptr :: "ptr \<Rightarrow> bool" where
  "ok_ptr p \<longleftrightarrow> node_valid p \<and> p \<noteq> node_nil"

named_theorems node_ops

lemma valid_even: "node_valid q \<Longrightarrow> \<not> bit q 0"
proof -
  assume "node_valid q"
  moreover have "\<not> bit (node_get q) 0" by (simp add: node_get_def bit_simps)
  ultimately show ?thesis by (simp add: node_valid_def)
qed

lemma tag_color: "node_valid q \<Longrightarrow> (q OR color_bits c) AND 1 = color_bits c"
  by (cases c) (auto intro!: bit_word_eqI simp: bit_simps dest: valid_even)

lemma tag_ptr: "node_valid q \<Longrightarrow> node_get (q OR color_bits c) = q"
proof -
  assume "node_valid q"
  moreover have "node_get (q OR color_bits c) = node_get q"
    by (cases c) (auto intro!: bit_word_eqI simp: bit_simps node_get_def)
  ultimately show ?thesis by (simp add: node_valid_def)
qed

lemma retag_color: "((w AND NODE_PTR_MASK) OR color_bits c) AND 1 = color_bits c"
  by (cases c) (auto intro!: bit_word_eqI simp: bit_simps NODE_PTR_MASK_def)

lemma retag_ptr: "node_get ((w AND NODE_PTR_MASK) OR color_bits c) = node_get w"
  by (cases c) (auto intro!: bit_word_eqI simp: bit_simps NODE_PTR_MASK_def node_get_def)

lemma bits_color_bits [simp]: "bits_color (color_bits c) = c"
  by (cases c) (simp_all add: bits_color_def)

lemma paint_node_view [simp]:
  "node_color (paint_node n c) = c" "node_child (paint_node n c) d = node_child n d"
  "node_range (paint_node n c) = node_range n" "node_list (paint_node n c) = node_list n"
  by (cases d; simp add: paint_node_def node_color_def node_child_def retag_color retag_ptr)+

lemma link_node_view [simp]:
  "node_valid q \<Longrightarrow> node_color (link_node n d q) = node_color n"
  "node_valid q \<Longrightarrow> node_child (link_node n d q) d' = (if d' = d then q else node_child n d')"
  "node_range (link_node n d q) = node_range n" "node_list (link_node n d q) = node_list n"
  by (cases d; cases d'; simp add: link_node_def node_color_def node_child_def tag_color tag_ptr)+

lemma list_node_view [simp]:
  "node_color (list_node n d q) = node_color n" "node_child (list_node n d q) = node_child n"
  "node_range (list_node n d q) = node_range n" "node_list (list_node n d q) = (node_list n)(d := q)"
  "node_children (list_node n d q) = node_children n"
  by (cases n; simp add: list_node_def node_color_def node_child_def [abs_def])+

lemma flip_flip [simp]: "rb_direction_flip (rb_direction_flip d) = d"
  by (cases d) simp_all

lemma flip_neq [simp]: "rb_direction_flip d \<noteq> d" "d \<noteq> rb_direction_flip d"
  by (cases d; simp)+

lemma neq_flip: "d' \<noteq> d \<longleftrightarrow> d' = rb_direction_flip d"
  by (cases d; cases d') simp_all

lemma nil_valid [simp]: "node_valid node_nil"
  by (simp add: node_valid_def node_nil_def node_get_def)

lemma ok_valid [simp]: "ok_ptr p \<Longrightarrow> node_valid p"
  by (simp add: ok_ptr_def)

lemma ok_not_nil [simp]: "ok_ptr p \<Longrightarrow> p \<noteq> node_nil" "ok_ptr p \<Longrightarrow> node_nil \<noteq> p"
  by (auto simp: ok_ptr_def)

lemma is_nil_ok [node_ops]: "node_valid p \<Longrightarrow> node_is_nil p = Inr (p = node_nil)"
  by (simp add: node_is_nil_def)

lemma not_nil_ok [node_ops]: "ok_ptr p \<Longrightarrow> assert_not_nil p = Inr ()"
  by (simp add: assert_not_nil_def is_nil_ok)

lemma load_ok [node_ops]: "h p = Some n \<Longrightarrow> node_load h p = Inr n"
  by (simp add: node_load_def)

lemma get_color_ok [node_ops]:
  "ok_ptr p \<Longrightarrow> h p = Some n \<Longrightarrow> node_get_color h p = Inr (node_color n)"
  by (simp add: node_get_color_def node_ops node_color_def RB_COLOR_DIRECTION_def)

lemma set_color_ok [node_ops]:
  "ok_ptr p \<Longrightarrow> h p = Some n \<Longrightarrow> node_set_color h p c = Inr (h(p \<mapsto> paint_node n c))"
  by (simp add: node_set_color_def node_ops paint_node_def RB_COLOR_DIRECTION_def)

lemma get_child_ok [node_ops]:
  "ok_ptr p \<Longrightarrow> h p = Some n \<Longrightarrow> node_valid (node_child n d) \<Longrightarrow>
   node_get_child h p d = Inr (node_child n d)"
  by (cases d) (simp_all add: node_get_child_def node_ops node_child_def RB_COLOR_DIRECTION_def Let_def)

lemma set_child_ok [node_ops]:
  "ok_ptr p \<Longrightarrow> h p = Some n \<Longrightarrow> node_valid q \<Longrightarrow>
   node_set_child h p d q = Inr (h(p \<mapsto> link_node n d q))"
  by (simp add: node_set_child_def node_ops link_node_def RB_COLOR_DIRECTION_def)

lemma set_list_ok [node_ops]: "h p = Some n \<Longrightarrow> node_set_list h p d q = Inr (h(p \<mapsto> list_node n d q))"
  by (simp add: node_set_list_def node_ops list_node_def)

lemma node_red_nil [node_ops]: "node_red h node_nil = Inr False"
  by (simp add: node_red_def node_ops)

lemma node_red_ok [node_ops]:
  "ok_ptr p \<Longrightarrow> h p = Some n \<Longrightarrow> node_red h p = Inr (node_color n = RBC_RED)"
  by (simp add: node_red_def node_ops)

end
