(* ===== verification/Rb_Abstract.thy ===== *)
theory Rb_Abstract
  imports Rb_Node
begin

text \<open>
  The red-black tree of \<^verbatim>\<open>experiments/rbtree.c\<close> as a value: a binary tree whose nodes carry their
  address, colour and range, with the functional counterparts of the rotations, the fix-ups and
  the recursive insertion and deletion. The pointer program is shown to implement these
  functions in the theories that follow; here they are shown to keep the red-black invariants (no
  red node has a red child, every path has the same number of black nodes) and to act on the
  sorted list of ranges like insertion and removal.

  \<open>del\<close> returns, like the code, whether the height is repaired (\<open>RB_DELETE_OK\<close>) or the subtree is one
  black node short (\<open>RB_DELETE_FAIL\<close>).
\<close>

section \<open>Trees\<close>

datatype rbt = Tip | Bin rbt ptr RB_Color Test_Range rbt

fun root :: "rbt \<Rightarrow> ptr" where
  "root Tip = node_nil"
| "root (Bin l a c r rt) = a"

fun color :: "rbt \<Rightarrow> RB_Color" where
  "color Tip = RBC_BLACK"
| "color (Bin l a c r rt) = c"

abbreviation red :: "rbt \<Rightarrow> bool" where
  "red t \<equiv> color t = RBC_RED"

fun sub :: "RB_Direction \<Rightarrow> rbt \<Rightarrow> rbt" where
  "sub d Tip = Tip"
| "sub RB_LEFT (Bin l a c r rt) = l"
| "sub RB_RIGHT (Bin l a c r rt) = rt"

fun set_sub :: "RB_Direction \<Rightarrow> rbt \<Rightarrow> rbt \<Rightarrow> rbt" where
  "set_sub d u Tip = Tip"
| "set_sub RB_LEFT u (Bin l a c r rt) = Bin u a c r rt"
| "set_sub RB_RIGHT u (Bin l a c r rt) = Bin l a c r u"

fun paint :: "RB_Color \<Rightarrow> rbt \<Rightarrow> rbt" where
  "paint c Tip = Tip"
| "paint c (Bin l a c' r rt) = Bin l a c r rt"

fun addrs :: "rbt \<Rightarrow> ptr list" where
  "addrs Tip = []"
| "addrs (Bin l a c r rt) = addrs l @ a # addrs rt"

fun ranges :: "rbt \<Rightarrow> Test_Range list" where
  "ranges Tip = []"
| "ranges (Bin l a c r rt) = ranges l @ r # ranges rt"

fun height :: "rbt \<Rightarrow> nat" where
  "height Tip = 0"
| "height (Bin l a c r rt) = Suc (max (height l) (height rt))"

fun flip_root :: "rbt \<Rightarrow> rbt" where
  "flip_root Tip = Tip"
| "flip_root (Bin l a c r rt) = Bin l a (rb_color_flip c) r rt"

fun flip_colors :: "rbt \<Rightarrow> rbt" where
  "flip_colors Tip = Tip"
| "flip_colors (Bin l a c r rt) = Bin (flip_root l) a (rb_color_flip c) r (flip_root rt)"

fun rot :: "RB_Direction \<Rightarrow> rbt \<Rightarrow> rbt" where
  "rot RB_LEFT (Bin a x c r (Bin b y c' r' d)) = Bin (Bin a x RBC_RED r b) y c r' d"
| "rot RB_RIGHT (Bin (Bin a x c r b) y c' r' d) = Bin a x c' r (Bin b y RBC_RED r' d)"
| "rot _ t = t"

definition double_rot :: "RB_Direction \<Rightarrow> rbt \<Rightarrow> rbt" where
  "double_rot d t =
     rot d (set_sub (rb_direction_flip d) (rot (rb_direction_flip d) (sub (rb_direction_flip d) t)) t)"

definition insert_fix :: "RB_Direction \<Rightarrow> rbt \<Rightarrow> rbt" where
  "insert_fix d t =
     (if red (sub d t) then
        let u = sub d t in
        if red (sub (rb_direction_flip d) t) then
          if red (sub d u) \<or> red (sub (rb_direction_flip d) u) then flip_colors t else t
        else if red (sub d u) then rot (rb_direction_flip d) t
        else if red (sub (rb_direction_flip d) u) then double_rot (rb_direction_flip d) t
        else t
      else t)"

fun ins :: "ptr \<Rightarrow> Test_Range \<Rightarrow> rbt \<Rightarrow> rbt" where
  "ins a x Tip = Bin Tip a RBC_RED x Tip"
| "ins a x (Bin l b c y rt) =
     (if test_range_compare x y > 0
      then insert_fix RB_RIGHT (Bin l b c y (ins a x rt))
      else insert_fix RB_LEFT (Bin (ins a x l) b c y rt))"

fun overlapping :: "Test_Range \<Rightarrow> rbt \<Rightarrow> bool" where
  "overlapping x Tip = False"
| "overlapping x (Bin l b c y rt) =
     (overlaps x y \<or> (if test_range_compare x y > 0 then overlapping x rt else overlapping x l))"

datatype RB_Delete_Status = RB_DELETE_OK | RB_DELETE_FAIL

text \<open>The part of the fix-up after deletion whose sibling is black.\<close>

definition delete_fix_black :: "RB_Direction \<Rightarrow> rbt \<Rightarrow> rbt \<times> RB_Delete_Status" where
  "delete_fix_black d t =
     (let f = rb_direction_flip d; s = sub f t in
      if s = Tip then (t, RB_DELETE_FAIL)
      else if \<not> red (sub RB_LEFT s) \<and> \<not> red (sub RB_RIGHT s)
      then (paint RBC_BLACK (set_sub f (paint RBC_RED s) t),
            if red t then RB_DELETE_OK else RB_DELETE_FAIL)
      else
        let u = (if red (sub f s) then rot d t else double_rot d t);
            u = paint (color t) u;
            u = set_sub RB_LEFT (paint RBC_BLACK (sub RB_LEFT u)) u
        in (set_sub RB_RIGHT (paint RBC_BLACK (sub RB_RIGHT u)) u, RB_DELETE_OK))"

definition delete_fix :: "RB_Direction \<Rightarrow> rbt \<Rightarrow> rbt \<times> RB_Delete_Status" where
  "delete_fix d t =
     (if red (sub (rb_direction_flip d) t)
      then let u = rot d t; (v, st) = delete_fix_black d (sub d u) in (set_sub d v u, st)
      else delete_fix_black d t)"

fun max_range :: "rbt \<Rightarrow> Test_Range" where
  "max_range (Bin l a c r Tip) = r"
| "max_range (Bin l a c r rt) = max_range rt"
| "max_range Tip = \<lparr> rstart = 0, rlen = 0 \<rparr>"

fun del :: "Test_Range \<Rightarrow> rbt \<Rightarrow> rbt \<times> RB_Delete_Status" where
  "del x Tip = (Tip, RB_DELETE_OK)"
| "del x (Bin l a c r rt) =
     (if r = x \<and> (l = Tip \<or> rt = Tip)
      then let temp = (if rt \<noteq> Tip then rt else l) in
        if c = RBC_RED then (temp, RB_DELETE_OK)
        else if red temp then (paint RBC_BLACK temp, RB_DELETE_OK)
        else (temp, RB_DELETE_FAIL)
      else if r = x
      then let y = max_range l; (l', st) = del y l; t = Bin l' a c y rt in
        if st = RB_DELETE_OK then (t, RB_DELETE_OK) else delete_fix RB_LEFT t
      else if test_range_compare x r > 0
      then let (rt', st) = del x rt; t = Bin l a c r rt' in
        if st = RB_DELETE_OK then (t, RB_DELETE_OK) else delete_fix RB_RIGHT t
      else let (l', st) = del x l; t = Bin l' a c r rt in
        if st = RB_DELETE_OK then (t, RB_DELETE_OK) else delete_fix RB_LEFT t)"

text \<open>The address of the node that \<open>del\<close> takes out.\<close>

fun del_addr :: "Test_Range \<Rightarrow> rbt \<Rightarrow> ptr option" where
  "del_addr x Tip = None"
| "del_addr x (Bin l a c r rt) =
     (if r = x \<and> (l = Tip \<or> rt = Tip) then Some a
      else if r = x then del_addr (max_range l) l
      else if test_range_compare x r > 0 then del_addr x rt
      else del_addr x l)"

section \<open>Invariants\<close>

fun bheight :: "rbt \<Rightarrow> nat" where
  "bheight Tip = 0"
| "bheight (Bin l a c r rt) = (if c = RBC_BLACK then Suc (bheight l) else bheight l)"

fun no_red_red :: "rbt \<Rightarrow> bool" where
  "no_red_red Tip = True"
| "no_red_red (Bin l a c r rt) =
     ((c = RBC_RED \<longrightarrow> \<not> red l \<and> \<not> red rt) \<and> no_red_red l \<and> no_red_red rt)"

text \<open>The root may be red under a red parent and over red children, as after an insertion.\<close>

fun no_red_red_below :: "rbt \<Rightarrow> bool" where
  "no_red_red_below Tip = True"
| "no_red_red_below (Bin l a c r rt) = (no_red_red l \<and> no_red_red rt \<and> (c = RBC_RED \<longrightarrow> \<not> (red l \<and> red rt)))"

fun same_bheight :: "rbt \<Rightarrow> bool" where
  "same_bheight Tip = True"
| "same_bheight (Bin l a c r rt) = (bheight l = bheight rt \<and> same_bheight l \<and> same_bheight rt)"

definition rb_balanced :: "rbt \<Rightarrow> bool" where
  "rb_balanced t \<longleftrightarrow> no_red_red t \<and> same_bheight t \<and> color t = RBC_BLACK"

definition rb_sorted :: "rbt \<Rightarrow> bool" where
  "rb_sorted t \<longleftrightarrow> sorted_wrt range_before (ranges t) \<and> (\<forall>r \<in> set (ranges t). test_range_valid r)"

text \<open>What \<open>del\<close> gives back for a balanced tree.\<close>

definition del_post :: "rbt \<Rightarrow> rbt \<times> RB_Delete_Status \<Rightarrow> bool" where
  "del_post t r \<longleftrightarrow> no_red_red (fst r) \<and> same_bheight (fst r)
     \<and> (color t = RBC_BLACK \<longrightarrow> color (fst r) = RBC_BLACK) \<and> (red t \<longrightarrow> snd r = RB_DELETE_OK)
     \<and> bheight t = (if snd r = RB_DELETE_OK then bheight (fst r) else Suc (bheight (fst r)))"

text \<open>The place of a range in a sorted list of ranges, and its insertion there.\<close>

definition insert_range :: "Test_Range \<Rightarrow> Test_Range list \<Rightarrow> Test_Range list" where
  "insert_range x rs = takeWhile (\<lambda>r. range_before r x) rs @ x # dropWhile (\<lambda>r. range_before r x) rs"

definition insert_pos :: "Test_Range \<Rightarrow> Test_Range list \<Rightarrow> nat" where
  "insert_pos x rs = length (takeWhile (\<lambda>r. range_before r x) rs)"

section \<open>Contents\<close>

lemma not_red [simp]: "c \<noteq> RBC_RED \<longleftrightarrow> c = RBC_BLACK" "c \<noteq> RBC_BLACK \<longleftrightarrow> c = RBC_RED"
  by (cases c; simp)+

text \<open>Rotations and repainting keep the contents.\<close>

lemma contents_rot [simp]: "addrs (rot d t) = addrs t" "ranges (rot d t) = ranges t"
  by (cases "(d, t)" rule: rot.cases; simp)+

lemma contents_paint [simp]: "addrs (paint c t) = addrs t" "ranges (paint c t) = ranges t"
  by (cases t; simp)+

lemma contents_flip_root [simp]: "addrs (flip_root t) = addrs t" "ranges (flip_root t) = ranges t"
  by (cases t; simp)+

lemma contents_flip [simp]: "addrs (flip_colors t) = addrs t" "ranges (flip_colors t) = ranges t"
  by (cases t; simp)+

lemma contents_set_sub:
  "addrs u = addrs (sub d t) \<Longrightarrow> addrs (set_sub d u t) = addrs t"
  "ranges u = ranges (sub d t) \<Longrightarrow> ranges (set_sub d u t) = ranges t"
  by (cases d; cases t; simp)+

lemma contents_double_rot [simp]:
  "addrs (double_rot d t) = addrs t" "ranges (double_rot d t) = ranges t"
  by (simp_all add: double_rot_def contents_set_sub)

lemma contents_insert_fix [simp]:
  "addrs (insert_fix d t) = addrs t" "ranges (insert_fix d t) = ranges t"
  by (simp_all add: insert_fix_def Let_def)

lemma contents_delete_fix_black [simp]:
  "addrs (fst (delete_fix_black d t)) = addrs t" "ranges (fst (delete_fix_black d t)) = ranges t"
  by (simp_all add: delete_fix_black_def Let_def contents_set_sub)

lemma contents_delete_fix [simp]:
  "addrs (fst (delete_fix d t)) = addrs t" "ranges (fst (delete_fix d t)) = ranges t"
  by (simp_all add: delete_fix_def Let_def contents_set_sub split_beta)

section \<open>Insertion keeps the balance\<close>

lemma red_Bin: "red t \<Longrightarrow> \<exists>l a r rt. t = Bin l a RBC_RED r rt"
  by (cases t) auto

lemma insert_fix_right:
  assumes "no_red_red l" "no_red_red_below rt" "same_bheight l" "same_bheight rt" "bheight l = bheight rt"
    and "c = RBC_RED \<Longrightarrow> \<not> red l \<and> no_red_red rt"
  shows "same_bheight (insert_fix RB_RIGHT (Bin l a c r rt))
     \<and> bheight (insert_fix RB_RIGHT (Bin l a c r rt)) = bheight (Bin l a c r rt)
     \<and> no_red_red_below (insert_fix RB_RIGHT (Bin l a c r rt))
     \<and> (c = RBC_BLACK \<longrightarrow> no_red_red (insert_fix RB_RIGHT (Bin l a c r rt)))"
  using assms
  by (cases c; cases l; cases rt)
    (auto simp: insert_fix_def Let_def double_rot_def dest!: red_Bin split: if_splits)

lemma insert_fix_left:
  assumes "no_red_red_below l" "no_red_red rt" "same_bheight l" "same_bheight rt" "bheight l = bheight rt"
    and "c = RBC_RED \<Longrightarrow> no_red_red l \<and> \<not> red rt"
  shows "same_bheight (insert_fix RB_LEFT (Bin l a c r rt))
     \<and> bheight (insert_fix RB_LEFT (Bin l a c r rt)) = bheight (Bin l a c r rt)
     \<and> no_red_red_below (insert_fix RB_LEFT (Bin l a c r rt))
     \<and> (c = RBC_BLACK \<longrightarrow> no_red_red (insert_fix RB_LEFT (Bin l a c r rt)))"
  using assms
  by (cases c; cases l; cases rt)
    (auto simp: insert_fix_def Let_def double_rot_def dest!: red_Bin split: if_splits)

lemma no_red_red_weaken: "no_red_red t \<Longrightarrow> no_red_red_below t"
  by (cases t) auto

lemma ins_balance:
  "no_red_red t \<Longrightarrow> same_bheight t \<Longrightarrow>
   same_bheight (ins a x t) \<and> bheight (ins a x t) = bheight t \<and> no_red_red_below (ins a x t)
   \<and> (color t = RBC_BLACK \<longrightarrow> no_red_red (ins a x t))"
proof (induction t)
  case Tip
  then show ?case by simp
next
  case (Bin l b c y rt)
  then show ?case
    using insert_fix_right [of l "ins a x rt" c b y] insert_fix_left [of "ins a x l" rt c b y]
    by (simp add: no_red_red_weaken)
qed

section \<open>Deletion keeps the balance\<close>

text \<open>The subtree on side \<open>d\<close> is one black node short.\<close>

lemma delete_fix_black_left:
  assumes "no_red_red l" "no_red_red rt" "same_bheight l" "same_bheight rt" "bheight rt = Suc (bheight l)"
    and "\<not> red rt" "\<not> red l"
    and "delete_fix_black RB_LEFT (Bin l a c r rt) = (t, st)"
  shows "no_red_red t \<and> same_bheight t \<and> (c = RBC_BLACK \<longrightarrow> color t = RBC_BLACK) \<and> (c = RBC_RED \<longrightarrow> st = RB_DELETE_OK)
     \<and> bheight t = (if st = RB_DELETE_OK then bheight (Bin rt a c r rt) else bheight rt) \<and> t \<noteq> Tip"
  using assms
  by (cases c; cases rt)
    (auto simp: delete_fix_black_def Let_def double_rot_def dest!: red_Bin split: if_splits)

lemma delete_fix_black_right:
  assumes "no_red_red l" "no_red_red rt" "same_bheight l" "same_bheight rt" "bheight l = Suc (bheight rt)"
    and "\<not> red rt" "\<not> red l"
    and "delete_fix_black RB_RIGHT (Bin l a c r rt) = (t, st)"
  shows "no_red_red t \<and> same_bheight t \<and> (c = RBC_BLACK \<longrightarrow> color t = RBC_BLACK) \<and> (c = RBC_RED \<longrightarrow> st = RB_DELETE_OK)
     \<and> bheight t = (if st = RB_DELETE_OK then bheight (Bin l a c r l) else bheight l) \<and> t \<noteq> Tip"
  using assms
  by (cases c; cases l)
    (auto simp: delete_fix_black_def Let_def double_rot_def dest!: red_Bin split: if_splits)

lemma delete_fix_left:
  assumes "no_red_red l" "no_red_red rt" "same_bheight l" "same_bheight rt" "bheight rt = Suc (bheight l)"
    and "\<not> red l" "c = RBC_RED \<Longrightarrow> \<not> red rt"
    and f: "delete_fix RB_LEFT (Bin l a c r rt) = (t, st)"
  shows "no_red_red t \<and> same_bheight t \<and> (c = RBC_BLACK \<longrightarrow> color t = RBC_BLACK) \<and> (c = RBC_RED \<longrightarrow> st = RB_DELETE_OK)
     \<and> bheight t = (if st = RB_DELETE_OK then bheight (Bin rt a c r rt) else bheight rt)"
proof (cases "red rt")
  case False
  then show ?thesis
    using assms delete_fix_black_left [of l rt a c r t st] by (simp add: delete_fix_def)
next
  case True
  then obtain u b q v where rt: "rt = Bin u b RBC_RED q v" using red_Bin by blast
  have c: "c = RBC_BLACK" using True assms(7) by (cases c) auto
  obtain w st' where w: "delete_fix_black RB_LEFT (Bin l a RBC_RED r u) = (w, st')"
    by (cases "delete_fix_black RB_LEFT (Bin l a RBC_RED r u)")
  have "no_red_red w \<and> same_bheight w \<and> st' = RB_DELETE_OK \<and> bheight w = bheight u"
    using delete_fix_black_left [OF _ _ _ _ _ _ _ w] assms rt by auto
  moreover have "t = Bin w b RBC_BLACK q v" and "st = st'"
    using f w rt c by (simp_all add: delete_fix_def)
  ultimately show ?thesis using assms rt c by auto
qed

lemma delete_fix_right:
  assumes "no_red_red l" "no_red_red rt" "same_bheight l" "same_bheight rt" "bheight l = Suc (bheight rt)"
    and "\<not> red rt" "c = RBC_RED \<Longrightarrow> \<not> red l"
    and f: "delete_fix RB_RIGHT (Bin l a c r rt) = (t, st)"
  shows "no_red_red t \<and> same_bheight t \<and> (c = RBC_BLACK \<longrightarrow> color t = RBC_BLACK) \<and> (c = RBC_RED \<longrightarrow> st = RB_DELETE_OK)
     \<and> bheight t = (if st = RB_DELETE_OK then bheight (Bin l a c r l) else bheight l)"
proof (cases "red l")
  case False
  then show ?thesis
    using assms delete_fix_black_right [of l rt a c r t st] by (simp add: delete_fix_def)
next
  case True
  then obtain u b q v where l: "l = Bin u b RBC_RED q v" using red_Bin by blast
  have c: "c = RBC_BLACK" using True assms(7) by (cases c) auto
  obtain w st' where w: "delete_fix_black RB_RIGHT (Bin v a RBC_RED r rt) = (w, st')"
    by (cases "delete_fix_black RB_RIGHT (Bin v a RBC_RED r rt)")
  have "no_red_red w \<and> same_bheight w \<and> st' = RB_DELETE_OK \<and> bheight w = bheight v"
    using delete_fix_black_right [OF _ _ _ _ _ _ _ w] assms l by auto
  moreover have "t = Bin u b RBC_BLACK q w" and "st = st'"
    using f w l c by (simp_all add: delete_fix_def)
  ultimately show ?thesis using assms l c by auto
qed

lemma del_post_left:
  assumes "no_red_red (Bin l a c r rt)" "same_bheight (Bin l a c r rt)" "del_post l (l', st)"
  shows "del_post (Bin l a c r rt)
     (if st = RB_DELETE_OK then (Bin l' a c y rt, RB_DELETE_OK) else delete_fix RB_LEFT (Bin l' a c y rt))"
proof (cases "st = RB_DELETE_OK")
  case True
  then show ?thesis using assms by (auto simp: del_post_def)
next
  case False
  obtain t st' where f: "delete_fix RB_LEFT (Bin l' a c y rt) = (t, st')"
    by (cases "delete_fix RB_LEFT (Bin l' a c y rt)")
  have "\<not> red l" using assms False by (auto simp: del_post_def)
  then show ?thesis
    using assms False delete_fix_left [OF _ _ _ _ _ _ _ f] f by (auto simp: del_post_def)
qed

lemma del_post_right:
  assumes "no_red_red (Bin l a c r rt)" "same_bheight (Bin l a c r rt)" "del_post rt (rt', st)"
  shows "del_post (Bin l a c r rt)
     (if st = RB_DELETE_OK then (Bin l a c r rt', RB_DELETE_OK) else delete_fix RB_RIGHT (Bin l a c r rt'))"
proof (cases "st = RB_DELETE_OK")
  case True
  then show ?thesis using assms by (auto simp: del_post_def)
next
  case False
  obtain t st' where f: "delete_fix RB_RIGHT (Bin l a c r rt') = (t, st')"
    by (cases "delete_fix RB_RIGHT (Bin l a c r rt')")
  have "\<not> red rt" using assms False by (auto simp: del_post_def)
  then show ?thesis
    using assms False delete_fix_right [OF _ _ _ _ _ _ _ f] f by (auto simp: del_post_def)
qed

lemma del_post_leaf:
  assumes "no_red_red (Bin l a c r rt)" "same_bheight (Bin l a c r rt)" "l = Tip \<or> rt = Tip"
  shows "del_post (Bin l a c r rt)
    (let temp = (if rt \<noteq> Tip then rt else l) in
        if c = RBC_RED then (temp, RB_DELETE_OK)
        else if red temp then (paint RBC_BLACK temp, RB_DELETE_OK)
        else (temp, RB_DELETE_FAIL))"
  using assms by (cases c; cases l; cases rt) (auto simp: del_post_def split: if_splits)

lemma del_balance: "no_red_red t \<Longrightarrow> same_bheight t \<Longrightarrow> del_post t (del x t)"
proof (induction x t rule: del.induct)
  case (1 x)
  then show ?case by (simp add: del_post_def)
next
  case (2 x l a c r rt)
  have sub: "no_red_red l" "same_bheight l" "no_red_red rt" "same_bheight rt" using 2(4,5) by auto
  consider (leaf) "r = x" "l = Tip \<or> rt = Tip" | (both) "r = x" "\<not> (l = Tip \<or> rt = Tip)"
    | (right) "r \<noteq> x" "test_range_compare x r > 0" | (left) "r \<noteq> x" "\<not> test_range_compare x r > 0"
    by blast
  then show ?case
  proof cases
    case leaf
    then show ?thesis using del_post_leaf [OF 2(4,5)] by simp
  next
    case both
    then show ?thesis
      using del_post_left [OF 2(4,5), of _ _ "max_range l"] 2(1) sub
      by (cases "del (max_range l) l") (simp add: Let_def)
  next
    case right
    then show ?thesis
      using del_post_right [OF 2(4,5)] 2(2) sub by (cases "del x rt") (simp add: Let_def)
  next
    case left
    then show ?thesis
      using del_post_left [OF 2(4,5), of _ _ r] 2(3) sub by (cases "del x l") (simp add: Let_def)
  qed
qed

section \<open>Insertion and deletion on the sorted list\<close>

lemma rb_sorted_Tip [simp]: "rb_sorted Tip"
  by (simp add: rb_sorted_def)

lemma rb_sorted_Bin:
  "rb_sorted (Bin l a c r rt) \<longleftrightarrow>
     rb_sorted l \<and> rb_sorted rt \<and> test_range_valid r
     \<and> (\<forall>x \<in> set (ranges l). range_before x r) \<and> (\<forall>x \<in> set (ranges rt). range_before r x)"
  by (auto simp: rb_sorted_def sorted_wrt_append intro: before_trans)

lemma sorted_valid: "rb_sorted t \<Longrightarrow> r \<in> set (ranges t) \<Longrightarrow> test_range_valid r"
  by (simp add: rb_sorted_def)

lemma sorted_ranges_distinct: "rb_sorted t \<Longrightarrow> distinct (ranges t)"
proof (induction t)
  case (Bin l a c r rt)
  then have "r \<notin> set (ranges l)" "r \<notin> set (ranges rt)" "set (ranges l) \<inter> set (ranges rt) = {}"
    using before_irrefl [of r] before_asym [of r] by (auto simp: rb_sorted_Bin)
  then show ?case using Bin by (simp add: rb_sorted_Bin)
qed simp

lemma length_addrs [simp]: "length (addrs t) = length (ranges t)"
  by (induction t) auto

lemma split_compare:
  assumes "test_range_valid x" "test_range_valid y" "\<not> overlaps x y"
  shows "test_range_compare x y > 0 \<longleftrightarrow> range_before y x"
    and "\<not> test_range_compare x y > 0 \<longleftrightarrow> range_before x y"
  using assms compare_before before_asym by (auto simp: overlaps_def)

lemma overlapping_iff:
  assumes "rb_sorted t" "test_range_valid x"
  shows "overlapping x t \<longleftrightarrow> (\<exists>r \<in> set (ranges t). overlaps x r)"
  using assms
proof (induction t)
  case (Bin l b c y rt)
  have sub: "rb_sorted l" "rb_sorted rt" "test_range_valid y"
    and l: "\<forall>z \<in> set (ranges l). range_before z y" and r: "\<forall>z \<in> set (ranges rt). range_before y z"
    using Bin.prems(1) by (auto simp: rb_sorted_Bin)
  show ?case
  proof (cases "overlaps x y")
    case False
    note cmp = split_compare [OF Bin.prems(2) sub(3) False]
    have "\<not> overlaps x z" if "range_before y x" "z \<in> set (ranges l)" for z
      using l that before_trans [OF _ that(1) sub(3)] by (auto simp: overlaps_def)
    moreover have "\<not> overlaps x z" if "range_before x y" "z \<in> set (ranges rt)" for z
      using r that before_trans [OF that(1) _ sub(3)] by (auto simp: overlaps_def)
    ultimately show ?thesis
      using Bin.IH sub Bin.prems(2) False cmp by auto
  qed simp
qed simp

lemma insert_range_right:
  "\<forall>r \<in> set xs. range_before r x \<Longrightarrow> insert_range x (xs @ ys) = xs @ insert_range x ys
     \<and> insert_pos x (xs @ ys) = length xs + insert_pos x ys"
  by (simp add: insert_range_def insert_pos_def takeWhile_append2 dropWhile_append2)

lemma insert_range_left:
  "\<not> range_before y x \<Longrightarrow> insert_range x (xs @ y # ys) = insert_range x xs @ y # ys
     \<and> insert_pos x (xs @ y # ys) = insert_pos x xs"
  by (induction xs) (auto simp: insert_range_def insert_pos_def)

lemma insert_pos_le [simp]: "insert_pos x rs \<le> length rs"
  by (simp add: insert_pos_def length_takeWhile_le)

lemma ins_contents:
  assumes "rb_sorted t" "test_range_valid x" "\<not> overlapping x t"
  shows "ranges (ins a x t) = insert_range x (ranges t)
     \<and> addrs (ins a x t) = take (insert_pos x (ranges t)) (addrs t) @ a # drop (insert_pos x (ranges t)) (addrs t)"
  using assms
proof (induction t)
  case Tip
  then show ?case by (simp add: insert_range_def insert_pos_def)
next
  case (Bin l b c y rt)
  have sub: "rb_sorted l" "rb_sorted rt" "test_range_valid y" "\<not> overlaps x y"
    and l: "\<forall>z \<in> set (ranges l). range_before z y"
    using Bin.prems(1,3) by (auto simp: rb_sorted_Bin)
  note cmp = split_compare [OF Bin.prems(2) sub(3,4)]
  show ?case
  proof (cases "test_range_compare x y > 0")
    case True
    then have "\<forall>r \<in> set (ranges l @ [y]). range_before r x"
      using cmp(1) l before_trans [OF _ _ sub(3)] by auto
    then show ?thesis
      using insert_range_right [of "ranges l @ [y]" x "ranges rt"] True Bin by (simp add: rb_sorted_Bin)
  next
    case False
    then have "\<not> range_before y x" using cmp by blast
    then show ?thesis
      using insert_range_left [of y x "ranges l" "ranges rt"] False Bin by (simp add: rb_sorted_Bin)
  qed
qed

lemma insert_range_sorted:
  assumes "sorted_wrt range_before rs" "\<forall>r \<in> set rs. test_range_valid r" "test_range_valid x"
    "\<forall>r \<in> set rs. \<not> overlaps x r"
  shows "sorted_wrt range_before (insert_range x rs)"
  using assms
proof (induction rs)
  case (Cons r rs)
  show ?case
  proof (cases "range_before r x")
    case True
    then have "sorted_wrt range_before (insert_range x rs)" using Cons by simp
    moreover have "set (insert_range x rs) = insert x (set rs)"
      unfolding insert_range_def by (metis Un_insert_right list.set(2) set_append takeWhile_dropWhile_id)
    ultimately show ?thesis using True Cons.prems by (simp add: insert_range_def)
  next
    case False
    then have "range_before x r" using Cons.prems by (auto simp: overlaps_def)
    moreover from this have "\<forall>z \<in> set rs. range_before x z"
      using Cons.prems before_trans by fastforce
    ultimately show ?thesis using False Cons.prems by (simp add: insert_range_def)
  qed
qed (simp add: insert_range_def)

lemma set_insert_range [simp]: "set (insert_range x rs) = insert x (set rs)"
  unfolding insert_range_def by (metis Un_insert_right list.set(2) set_append takeWhile_dropWhile_id)

lemma ins_sorted:
  assumes "rb_sorted t" "test_range_valid x" "\<not> overlapping x t"
  shows "rb_sorted (ins a x t)"
  using assms insert_range_sorted [of "ranges t" x] overlapping_iff [OF assms(1,2)]
  by (simp add: rb_sorted_def ins_contents)

lemma paint_sorted [simp]: "rb_sorted (paint c t) = rb_sorted t"
  by (simp add: rb_sorted_def)

text \<open>Deletion.\<close>

lemma max_range_last: "t \<noteq> Tip \<Longrightarrow> max_range t = last (ranges t) \<and> ranges t \<noteq> []"
  by (induction t rule: max_range.induct) auto

lemma max_range_split: "t \<noteq> Tip \<Longrightarrow> ranges t = butlast (ranges t) @ [max_range t]"
  using max_range_last [of t] by simp

lemma remove1_snoc: "distinct (xs @ [x]) \<Longrightarrow> remove1 x (xs @ [x]) = xs"
  by (simp add: remove1_append)

lemma del_ranges: "rb_sorted t \<Longrightarrow> ranges (fst (del x t)) = remove1 x (ranges t)"
proof (induction x t rule: del.induct)
  case (2 x l a c r rt)
  have sub: "rb_sorted l" "rb_sorted rt" "test_range_valid r"
    and l: "\<forall>z \<in> set (ranges l). range_before z r" and rt: "\<forall>z \<in> set (ranges rt). range_before r z"
    using 2(4) by (auto simp: rb_sorted_Bin)
  have r: "r \<notin> set (ranges l)" using l before_irrefl [OF sub(3)] by blast
  consider (leaf) "r = x" "l = Tip \<or> rt = Tip" | (both) "r = x" "\<not> (l = Tip \<or> rt = Tip)"
    | (right) "r \<noteq> x" "test_range_compare x r > 0" | (left) "r \<noteq> x" "\<not> test_range_compare x r > 0"
    by blast
  then show ?case
  proof cases
    case leaf
    then show ?thesis using r by (auto simp: remove1_append Let_def)
  next
    case both
    have "remove1 (max_range l) (ranges l) = butlast (ranges l)"
      using max_range_split [of l] sorted_ranges_distinct [OF sub(1)] both remove1_snoc by metis
    then have "ranges (fst (del x (Bin l a c r rt))) = butlast (ranges l) @ max_range l # ranges rt"
      using both 2(1) sub by (simp add: split_beta Let_def)
    then show ?thesis
      using both r max_range_split [of l] by (simp add: remove1_append)
  next
    case right
    then have "x \<notin> set (ranges l)"
      using l sub compare_before(1) by (fastforce dest: sorted_valid)
    then show ?thesis using right 2(2) sub by (simp add: split_beta Let_def remove1_append)
  next
    case left
    then have "x \<notin> set (ranges rt)"
      using rt sub compare_before(2) by fastforce
    then have "x \<notin> set (ranges l) \<Longrightarrow> remove1 x (r # ranges rt) = r # ranges rt"
      using left by (simp add: remove1_idem)
    then show ?thesis
      using left 2(3) sub by (auto simp: split_beta Let_def remove1_append remove1_idem)
  qed
qed simp

lemma del_addr_mem:
  "rb_sorted t \<Longrightarrow> x \<in> set (ranges t) \<Longrightarrow> \<exists>b. del_addr x t = Some b \<and> b \<in> set (addrs t)"
proof (induction x t rule: del_addr.induct)
  case (2 x l a c r rt)
  have sub: "rb_sorted l" "rb_sorted rt" "test_range_valid r"
    and l: "\<forall>z \<in> set (ranges l). range_before z r" and rt: "\<forall>z \<in> set (ranges rt). range_before r z"
    using 2(4) by (auto simp: rb_sorted_Bin)
  show ?case
  proof (cases "r = x")
    case True
    then show ?thesis using 2(1) sub max_range_last [of l] by auto
  next
    case False
    then consider "x \<in> set (ranges l)" | "x \<in> set (ranges rt)" using 2(5) by auto
    then show ?thesis
    proof cases
      case 1
      then have "test_range_compare x r = -1"
        using l compare_before(1) sorted_valid [OF sub(1)] by blast
      then show ?thesis using 2(3) sub 1 False by auto
    next
      case 2
      then have "test_range_compare x r = 1" using rt compare_before(2) sub(3) by blast
      then show ?thesis using "2.IH"(2) sub 2 False by auto
    qed
  qed
qed simp

lemma del_addr_None: "rb_sorted t \<Longrightarrow> x \<notin> set (ranges t) \<Longrightarrow> del_addr x t = None"
  by (induction t) (auto simp: rb_sorted_Bin)

lemma del_addrs:
  "rb_sorted t \<Longrightarrow> distinct (addrs t) \<Longrightarrow>
   addrs (fst (del x t)) = (case del_addr x t of None \<Rightarrow> addrs t | Some b \<Rightarrow> remove1 b (addrs t))"
proof (induction x t rule: del.induct)
  case (2 x l a c r rt)
  have sub: "rb_sorted l" "rb_sorted rt" "distinct (addrs l)" "distinct (addrs rt)"
    "a \<notin> set (addrs l)" "a \<notin> set (addrs rt)" "set (addrs l) \<inter> set (addrs rt) = {}"
    using 2(4,5) by (auto simp: rb_sorted_Bin)
  consider (leaf) "r = x" "l = Tip \<or> rt = Tip" | (both) "r = x" "\<not> (l = Tip \<or> rt = Tip)"
    | (right) "r \<noteq> x" "test_range_compare x r > 0" | (left) "r \<noteq> x" "\<not> test_range_compare x r > 0"
    by blast
  then show ?case
  proof cases
    case leaf
    then show ?thesis using sub by (auto simp: remove1_append Let_def)
  next
    case both
    then obtain b where "del_addr (max_range l) l = Some b" "b \<in> set (addrs l)"
      using del_addr_mem [OF sub(1), of "max_range l"] max_range_last [of l] by auto
    then show ?thesis using both 2(1) sub by (auto simp: split_beta Let_def remove1_append)
  next
    case right
    show ?thesis
    proof (cases "x \<in> set (ranges rt)")
      case True
      then obtain b where "del_addr x rt = Some b" "b \<in> set (addrs rt)"
        using del_addr_mem [OF sub(2)] by auto
      then show ?thesis using right 2(2) sub by (auto simp: split_beta Let_def remove1_append)
    next
      case False
      then show ?thesis using right 2(2) sub del_addr_None [OF sub(2)] by (simp add: split_beta Let_def)
    qed
  next
    case left
    show ?thesis
    proof (cases "x \<in> set (ranges l)")
      case True
      then obtain b where "del_addr x l = Some b" "b \<in> set (addrs l)"
        using del_addr_mem [OF sub(1)] by auto
      then show ?thesis using left 2(3) sub by (auto simp: split_beta Let_def remove1_append)
    next
      case False
      then show ?thesis using left 2(3) sub del_addr_None [OF sub(1)] by (simp add: split_beta Let_def)
    qed
  qed
qed simp

section \<open>Height\<close>

lemma height_bheight:
  "no_red_red t \<Longrightarrow> same_bheight t \<Longrightarrow> height t \<le> 2 * bheight t + (if red t then 1 else 0)"
  by (induction t) (auto split: if_splits)

lemma bheight_size: "same_bheight t \<Longrightarrow> 2 ^ bheight t \<le> Suc (length (ranges t))"
proof (induction t)
  case (Bin l a c r rt)
  then have "2 ^ bheight l \<le> Suc (length (ranges l))" "2 ^ bheight l \<le> Suc (length (ranges rt))"
    by auto
  then show ?case by auto
qed simp

end
