(* ===== verification/Rb_Tree.thy ===== *)
theory Rb_Tree
  imports Rb_Abstract
begin

text \<open>
  The tree operations of \<^verbatim>\<open>experiments/rbtree.c\<close> (lines 228 to 669) on the heap: pages of nodes and the
  free list, insertion, deletion, the searches and the validation of the threaded list.

  The heap holds the nodes, the headers of the pages that hold them (\<^verbatim>\<open>RB_Nodes\<close>) and the answers the
  C library will give to the next calls of \<^verbatim>\<open>calloc\<close> (\<open>page_supply\<close>, where 0 is NULL); a page that is
  handed out appears zeroed. The \<^verbatim>\<open>RB_Tree\<close> struct is passed and returned as a record; \<open>tree_list\<close> is the
  address of its embedded sentinel node \<^verbatim>\<open>list\<close>, which lives in the heap of nodes.

  Recursion and loops over the heap take fuel, \<open>Out_Of_Fuel\<close> when it runs out. The
  theorems about them give the fuel that is enough: more than the height of the tree.
\<close>

section \<open>Pages of nodes\<close>

record RB_Nodes =
  nodes_next :: ptr
  node_count :: U64

record rb_heap =
  heap_nodes :: node_heap
  heap_pages :: "ptr \<rightharpoonup> RB_Nodes"
  page_supply :: "ptr list"

record RB_Tree =
  tree_root :: ptr
  tree_list :: ptr
  free_list :: ptr
  tree_nodes :: ptr
  current_node :: ptr

definition size_of_RB_Nodes :: nat where
  "size_of_RB_Nodes = 32"

definition size_of_Node :: nat where
  "size_of_Node = 48"

definition RB_NODES_MAX :: nat where
  "RB_NODES_MAX = (4096 - size_of_RB_Nodes) div size_of_Node"

text \<open>\<^verbatim>\<open>&page->nodes[i]\<close>.\<close>

definition node_slot :: "ptr \<Rightarrow> nat \<Rightarrow> ptr" where
  "node_slot page i = page + of_nat (size_of_RB_Nodes + size_of_Node * i)"

definition page_slots :: "ptr \<Rightarrow> ptr list" where
  "page_slots page = map (node_slot page) [0..<RB_NODES_MAX]"

definition node_zero :: Node where
  "node_zero = \<lparr> node_range = \<lparr> rstart = 0, rlen = 0 \<rparr>, node_list = (\<lambda>_. 0), node_children = (\<lambda>_. 0) \<rparr>"

definition page_alloc :: "rb_heap \<Rightarrow> ptr \<times> rb_heap" where
  "page_alloc h =
     (case page_supply h of
        [] \<Rightarrow> (0, h)
      | p # ps \<Rightarrow>
          if p = 0 then (0, h\<lparr> page_supply := ps \<rparr>)
          else (p, h\<lparr> page_supply := ps,
                      heap_pages := (heap_pages h)(p \<mapsto> \<lparr> nodes_next = 0, node_count = 0 \<rparr>),
                      heap_nodes := (\<lambda>a. if a \<in> set (page_slots p) then Some node_zero
                                         else heap_nodes h a) \<rparr>))"

definition page_free :: "rb_heap \<Rightarrow> ptr \<Rightarrow> rb_heap" where
  "page_free h p =
     h\<lparr> heap_pages := (heap_pages h)(p := None),
        heap_nodes := (\<lambda>a. if a \<in> set (page_slots p) then None else heap_nodes h a) \<rparr>"

definition rb_nodes_create :: "rb_heap \<Rightarrow> ptr \<times> rb_heap" where
  "rb_nodes_create h = page_alloc h"

definition page_load :: "rb_heap \<Rightarrow> ptr \<Rightarrow> RB_Nodes result" where
  "page_load h p = (case heap_pages h p of None \<Rightarrow> Inl (Fault ''page'') | Some n \<Rightarrow> Inr n)"

text \<open>Runs an operation on the nodes of the heap.\<close>

definition on_nodes :: "rb_heap \<Rightarrow> node_heap result \<Rightarrow> rb_heap result" where
  "on_nodes h r = sbind r (\<lambda>ns. Inr (h\<lparr> heap_nodes := ns \<rparr>))"

section \<open>The tree\<close>

definition rb_tree_valid :: "RB_Tree \<Rightarrow> bool" where
  "rb_tree_valid tree \<longleftrightarrow>
     node_valid (tree_root tree) \<and> tree_nodes tree \<noteq> 0 \<and> current_node tree \<noteq> 0"

definition rb_list_reset :: "rb_heap \<Rightarrow> RB_Tree \<Rightarrow> rb_heap result" where
  "rb_list_reset h tree =
     sbind (on_nodes h (node_set_list (heap_nodes h) (tree_list tree) RB_LEFT (tree_list tree))) (\<lambda>h.
     on_nodes h (node_set_list (heap_nodes h) (tree_list tree) RB_RIGHT (tree_list tree)))"

definition rb_tree_init :: "rb_heap \<Rightarrow> RB_Tree \<Rightarrow> (bool \<times> RB_Tree \<times> rb_heap) result" where
  "rb_tree_init h tree =
     (let tree = tree\<lparr> tree_root := node_nil \<rparr>;
          (new_nodes, h) = rb_nodes_create h
      in if new_nodes = 0 then Inr (False, tree, h)
      else let tree = tree\<lparr> tree_nodes := new_nodes, current_node := new_nodes \<rparr> in
        sbind (rb_list_reset h tree) (\<lambda>h. Inr (True, tree, h)))"

text \<open>
  The part of \<^verbatim>\<open>rb_tree_node_make\<close> that finds memory for a node: the free list, the next slot of
  the current page, or a new page. A result of 0 is the NULL of a failed allocation.
\<close>

definition rb_tree_node_memory :: "rb_heap \<Rightarrow> RB_Tree \<Rightarrow> (ptr \<times> RB_Tree \<times> rb_heap) result" where
  "rb_tree_node_memory h tree =
     (if free_list tree \<noteq> 0 then
        let node = free_list tree in
        sbind (node_load (heap_nodes h) node) (\<lambda>n.
        Inr (node, tree\<lparr> free_list := node_children n RB_COLOR_NEXT_FREE \<rparr>,
             h\<lparr> heap_nodes := (heap_nodes h)(node \<mapsto> node_zero) \<rparr>))
      else sbind (page_load h (current_node tree)) (\<lambda>page.
        if node_count page < of_nat RB_NODES_MAX then
          let page = page\<lparr> node_count := node_count page + 1 \<rparr> in
          Inr (node_slot (current_node tree) (unat (node_count page - 1)), tree,
               h\<lparr> heap_pages := (heap_pages h)(current_node tree \<mapsto> page) \<rparr>)
        else
          let (new_nodes, h) = rb_nodes_create h in
          if new_nodes = 0 then Inr (0, tree, h)
          else sbind (page_load h (current_node tree)) (\<lambda>page.
            let h = h\<lparr> heap_pages := (heap_pages h)(current_node tree \<mapsto> page\<lparr> nodes_next := new_nodes \<rparr>) \<rparr>;
                tree = tree\<lparr> current_node := new_nodes \<rparr>
            in sbind (page_load h new_nodes) (\<lambda>page.
               Inr (node_slot new_nodes 0, tree,
                    h\<lparr> heap_pages := (heap_pages h)(new_nodes \<mapsto> page\<lparr> node_count := 1 \<rparr>) \<rparr>)))))"

definition rb_tree_node_make ::
    "rb_heap \<Rightarrow> RB_Tree \<Rightarrow> Test_Range \<Rightarrow> RB_Color \<Rightarrow> (ptr \<times> RB_Tree \<times> rb_heap) result" where
  "rb_tree_node_make h tree rng col =
     sbind (c_assert (rb_tree_valid tree) ''rb_tree_valid(tree)'') (\<lambda>_.
     sbind (c_assert (test_range_valid rng) ''test_range_valid(range)'') (\<lambda>_.
     sbind (rb_tree_node_memory h tree) (\<lambda>(node, tree, h).
     if node = 0 then Inr (0, tree, h)
     else
       sbind (c_assert (node AND 7 = 0) ''(((uintptr_t)node) & (sizeof(uintptr_t) - 1)) == 0'') (\<lambda>_.
       sbind (node_load (heap_nodes h) node) (\<lambda>n.
       let n = n\<lparr> node_range := rng,
                  node_children := (node_children n)(RB_LEFT := node_nil, RB_RIGHT := node_nil) \<rparr>;
           h = h\<lparr> heap_nodes := (heap_nodes h)(node \<mapsto> n) \<rparr>
       in sbind (on_nodes h (node_set_color (heap_nodes h) node col)) (\<lambda>h.
          Inr (node, tree, h)))))))"

fun rb_tree_node_free ::
    "nat \<Rightarrow> rb_heap \<Rightarrow> RB_Tree \<Rightarrow> ptr \<Rightarrow> bool \<Rightarrow> (RB_Tree \<times> rb_heap) result" where
  "rb_tree_node_free 0 h tree node recurse = Inl Out_Of_Fuel"
| "rb_tree_node_free (Suc fuel) h tree node recurse =
     sbind (c_assert (rb_tree_valid tree) ''rb_tree_valid(tree)'') (\<lambda>_.
     sbind (c_assert (node_valid node) ''node_valid(node)'') (\<lambda>_.
     sbind (node_is_nil node) (\<lambda>nil.
     if nil then Inr (tree, h)
     else
       sbind (if recurse then
                sbind (node_get_child (heap_nodes h) node RB_LEFT) (\<lambda>left.
                sbind (rb_tree_node_free fuel h tree left True) (\<lambda>(tree, h).
                sbind (node_get_child (heap_nodes h) node RB_RIGHT) (\<lambda>right.
                rb_tree_node_free fuel h tree right True)))
              else Inr (tree, h)) (\<lambda>(tree, h).
       sbind (node_load (heap_nodes h) node) (\<lambda>n.
       Inr (tree\<lparr> free_list := node \<rparr>,
            h\<lparr> heap_nodes := (heap_nodes h)(node \<mapsto>
                 n\<lparr> node_children := (node_children n)(RB_COLOR_NEXT_FREE := free_list tree) \<rparr>) \<rparr>))))))"

text \<open>\<^verbatim>\<open>*tree = (RB_Tree){ 0 }\<close>: the fields, with the embedded sentinel, become zero.\<close>

definition rb_tree_zero :: "rb_heap \<Rightarrow> RB_Tree \<Rightarrow> RB_Tree \<times> rb_heap" where
  "rb_tree_zero h tree =
     (tree\<lparr> tree_root := 0, free_list := 0, tree_nodes := 0, current_node := 0 \<rparr>,
      h\<lparr> heap_nodes := (heap_nodes h)(tree_list tree \<mapsto> node_zero) \<rparr>)"

fun rb_destroy_pages :: "nat \<Rightarrow> rb_heap \<Rightarrow> ptr \<Rightarrow> rb_heap result" where
  "rb_destroy_pages 0 h current = Inl Out_Of_Fuel"
| "rb_destroy_pages (Suc fuel) h current =
     (if current = 0 then Inr h
      else sbind (page_load h current) (\<lambda>page.
        rb_destroy_pages fuel (page_free h current) (nodes_next page)))"

definition rb_destroy :: "nat \<Rightarrow> rb_heap \<Rightarrow> RB_Tree \<Rightarrow> (RB_Tree \<times> rb_heap) result" where
  "rb_destroy fuel h tree =
     (if \<not> rb_tree_valid tree then Inr (rb_tree_zero h tree)
      else sbind (rb_destroy_pages fuel h (tree_nodes tree)) (\<lambda>h. Inr (rb_tree_zero h tree)))"

definition rb_clear :: "nat \<Rightarrow> rb_heap \<Rightarrow> RB_Tree \<Rightarrow> (RB_Tree \<times> rb_heap) result" where
  "rb_clear fuel h tree =
     sbind (c_assert (rb_tree_valid tree) ''rb_tree_valid(tree)'') (\<lambda>_.
     sbind (rb_tree_node_free fuel h tree (tree_root tree) True) (\<lambda>(tree, h).
     let tree = tree\<lparr> tree_root := node_nil \<rparr> in
     sbind (rb_list_reset h tree) (\<lambda>h. Inr (tree, h))))"

section \<open>Insertion\<close>

datatype RB_Insert_Status = RB_INSERT_OK | RB_INSERT_OVERLAP | RB_INSERT_OOM

definition rb_insert_fix_up :: "node_heap \<Rightarrow> ptr \<Rightarrow> RB_Direction \<Rightarrow> (ptr \<times> node_heap) result" where
  "rb_insert_fix_up h node direction =
     sbind (assert_not_nil node) (\<lambda>_.
     sbind (node_child_red h node direction) (\<lambda>r.
     sbind (if r then
              sbind (node_get_child h node direction) (\<lambda>dir_child.
              sbind (node_child_red h node (rb_direction_flip direction)) (\<lambda>other.
              if other then
                sbind (node_child_red h dir_child direction) (\<lambda>outer.
                sbind (if outer then Inr True
                       else node_child_red h dir_child (rb_direction_flip direction)) (\<lambda>any.
                if any then sbind (node_color_flip h node) (\<lambda>h. Inr (node, h)) else Inr (node, h)))
              else
                sbind (node_child_red h dir_child direction) (\<lambda>outer.
                if outer then node_rotate h node (rb_direction_flip direction)
                else sbind (node_child_red h dir_child (rb_direction_flip direction)) (\<lambda>inner.
                  if inner then node_double_rotate h node (rb_direction_flip direction)
                  else Inr (node, h)))))
            else Inr (node, h)) (\<lambda>(node, h).
     sbind (c_assert (node_valid node) ''node_valid(node)'') (\<lambda>_. Inr (node, h)))))"

fun rb_insert_helper ::
    "nat \<Rightarrow> rb_heap \<Rightarrow> RB_Tree \<Rightarrow> ptr \<Rightarrow> Test_Range \<Rightarrow> ptr \<Rightarrow> RB_Direction
       \<Rightarrow> (ptr \<times> RB_Insert_Status \<times> RB_Tree \<times> rb_heap) result" where
  "rb_insert_helper 0 h tree node rng list_anker list_direction = Inl Out_Of_Fuel"
| "rb_insert_helper (Suc fuel) h tree node rng list_anker list_direction =
     sbind (c_assert (rb_tree_valid tree) ''rb_tree_valid(tree)'') (\<lambda>_.
     sbind (c_assert (node_valid node) ''node_valid(node)'') (\<lambda>_.
     sbind (c_assert (test_range_valid rng) ''test_range_valid(range)'') (\<lambda>_.
     sbind (c_assert (node_valid list_anker) ''node_valid(list_anker)'') (\<lambda>_.
     sbind (node_is_nil node) (\<lambda>nil.
     if nil then
       sbind (rb_tree_node_make h tree rng RBC_RED) (\<lambda>(new_node, tree, h).
       if new_node = 0 then Inr (node_nil, RB_INSERT_OOM, tree, h)
       else
         sbind (on_nodes h (node_insert (heap_nodes h) new_node list_anker list_direction)) (\<lambda>h.
         sbind (c_assert (node_valid new_node) ''node_valid(result.node)'') (\<lambda>_.
         Inr (new_node, RB_INSERT_OK, tree, h))))
     else
       sbind (node_load (heap_nodes h) node) (\<lambda>n.
       sbind (test_range_overlap rng (node_range n)) (\<lambda>overlap.
       if overlap then
         sbind (c_assert (node_valid node) ''node_valid(result.node)'') (\<lambda>_.
         Inr (node, RB_INSERT_OVERLAP, tree, h))
       else
         let comparison = test_range_compare rng (node_range n) in
         sbind (c_assert (comparison \<noteq> 0) ''comparison != 0'') (\<lambda>_.
         let direction = (if comparison > 0 then RB_RIGHT else RB_LEFT) in
         sbind (node_get_child (heap_nodes h) node direction) (\<lambda>child.
         sbind (rb_insert_helper fuel h tree child rng node direction) (\<lambda>(new, status, tree, h).
         sbind (if status = RB_INSERT_OK then
                  sbind (on_nodes h (node_set_child (heap_nodes h) node direction new)) (\<lambda>h.
                  sbind (rb_insert_fix_up (heap_nodes h) node direction) (\<lambda>(node, ns).
                  Inr (node, h\<lparr> heap_nodes := ns \<rparr>)))
                else Inr (node, h)) (\<lambda>(node, h).
         sbind (c_assert (node_valid node) ''node_valid(result.node)'') (\<lambda>_.
         Inr (node, status, tree, h)))))))))))))"

definition rb_insert ::
    "nat \<Rightarrow> rb_heap \<Rightarrow> RB_Tree \<Rightarrow> Test_Range \<Rightarrow> (RB_Insert_Status \<times> RB_Tree \<times> rb_heap) result" where
  "rb_insert fuel h tree rng =
     sbind (c_assert (rb_tree_valid tree) ''rb_tree_valid(tree)'') (\<lambda>_.
     sbind (c_assert (test_range_valid rng) ''test_range_valid(range)'') (\<lambda>_.
     sbind (rb_insert_helper fuel h tree (tree_root tree) rng (tree_list tree) RB_RIGHT)
       (\<lambda>(new, status, tree, h).
     let tree = tree\<lparr> tree_root := new \<rparr> in
     sbind (if status = RB_INSERT_OK
            then on_nodes h (node_set_color (heap_nodes h) (tree_root tree) RBC_BLACK)
            else Inr h) (\<lambda>h.
     Inr (status, tree, h)))))"

section \<open>Deletion\<close>

text \<open>The body of \<^verbatim>\<open>rb_delete_fix_up\<close> after the reduction to a black sibling (lines 486 to 519).\<close>

definition rb_delete_fix_sibling ::
    "node_heap \<Rightarrow> ptr \<Rightarrow> ptr \<Rightarrow> ptr \<Rightarrow> RB_Direction \<Rightarrow> (ptr \<times> RB_Delete_Status \<times> node_heap) result" where
  "rb_delete_fix_sibling h node parent sibling direction =
     sbind (node_is_nil sibling) (\<lambda>nil.
     if \<not> nil then
       sbind (node_child_red h sibling RB_LEFT) (\<lambda>left.
       sbind (if left then Inr True else node_child_red h sibling RB_RIGHT) (\<lambda>any.
       if \<not> any then
         sbind (node_red h parent) (\<lambda>p.
         sbind (node_set_color h parent RBC_BLACK) (\<lambda>h.
         sbind (node_set_color h sibling RBC_RED) (\<lambda>h.
         Inr (node, if p then RB_DELETE_OK else RB_DELETE_FAIL, h))))
       else
         sbind (node_get_color h parent) (\<lambda>initcol_parent.
         let is_red_sibling_reduction = (\<not> (node = parent)) in
         sbind (node_child_red h sibling (rb_direction_flip direction)) (\<lambda>outer.
         sbind (if outer then node_rotate h parent direction
                else node_double_rotate h parent direction) (\<lambda>(parent, h).
         sbind (node_set_color h parent initcol_parent) (\<lambda>h.
         sbind (node_get_child h parent RB_LEFT) (\<lambda>l.
         sbind (node_set_color h l RBC_BLACK) (\<lambda>h.
         sbind (node_get_child h parent RB_RIGHT) (\<lambda>r.
         sbind (node_set_color h r RBC_BLACK) (\<lambda>h.
         sbind (if is_red_sibling_reduction
                then sbind (node_set_child h node direction parent) (\<lambda>h. Inr (node, h))
                else Inr (parent, h)) (\<lambda>(node, h).
         Inr (node, RB_DELETE_OK, h))))))))))))
     else Inr (node, RB_DELETE_FAIL, h))"

definition rb_delete_fix_up ::
    "node_heap \<Rightarrow> ptr \<Rightarrow> RB_Direction \<Rightarrow> (ptr \<times> RB_Delete_Status \<times> node_heap) result" where
  "rb_delete_fix_up h node direction =
     sbind (c_assert (node_valid node) ''node_valid(node)'') (\<lambda>_.
     sbind (assert_not_nil node) (\<lambda>_.
     let parent = node in
     sbind (node_get_child h node (rb_direction_flip direction)) (\<lambda>sibling.
     sbind (node_red h sibling) (\<lambda>r.
     sbind (if r then
              sbind (node_rotate h node direction) (\<lambda>(node, h).
              sbind (node_get_child h parent (rb_direction_flip direction)) (\<lambda>sibling.
              Inr (node, sibling, h)))
            else Inr (node, sibling, h)) (\<lambda>(node, sibling, h).
     sbind (rb_delete_fix_sibling h node parent sibling direction) (\<lambda>(node, status, h).
     sbind (c_assert (node_valid node) ''node_valid(result.node)'') (\<lambda>_.
     Inr (node, status, h))))))))"

fun rb_rightmost :: "nat \<Rightarrow> node_heap \<Rightarrow> ptr \<Rightarrow> ptr result" where
  "rb_rightmost 0 h temp = Inl Out_Of_Fuel"
| "rb_rightmost (Suc fuel) h temp =
     sbind (node_has_child h temp RB_RIGHT) (\<lambda>more.
     if more then sbind (node_get_child h temp RB_RIGHT) (rb_rightmost fuel h) else Inr temp)"

text \<open>
  The branch of \<^verbatim>\<open>rb_delete_helper\<close> for a node with at most one child: the node is unlinked and freed and
  the child takes its place.
\<close>

definition rb_delete_leaf ::
    "rb_heap \<Rightarrow> RB_Tree \<Rightarrow> ptr \<Rightarrow> (ptr \<times> RB_Delete_Status \<times> RB_Tree \<times> rb_heap) result" where
  "rb_delete_leaf h tree node =
     (let temp = node_nil in
     sbind (node_has_child (heap_nodes h) node RB_LEFT) (\<lambda>left.
     sbind (if left then node_get_child (heap_nodes h) node RB_LEFT else Inr temp) (\<lambda>temp.
     sbind (node_has_child (heap_nodes h) node RB_RIGHT) (\<lambda>right.
     sbind (if right then node_get_child (heap_nodes h) node RB_RIGHT else Inr temp) (\<lambda>temp.
     sbind (node_red (heap_nodes h) node) (\<lambda>r.
     sbind (if r then Inr (RB_DELETE_OK, h)
            else sbind (node_red (heap_nodes h) temp) (\<lambda>rt.
              if rt then sbind (on_nodes h (node_set_color (heap_nodes h) temp RBC_BLACK)) (\<lambda>h.
                Inr (RB_DELETE_OK, h))
              else Inr (RB_DELETE_FAIL, h))) (\<lambda>(status, h).
     sbind (on_nodes h (node_remove_from_list (heap_nodes h) node)) (\<lambda>h.
     sbind (rb_tree_node_free 1 h tree node False) (\<lambda>(tree, h).
     sbind (c_assert (node_valid temp) ''node_valid(result.node)'') (\<lambda>_.
     Inr (temp, status, tree, h)))))))))))"

fun rb_delete_helper ::
    "nat \<Rightarrow> rb_heap \<Rightarrow> RB_Tree \<Rightarrow> ptr \<Rightarrow> Test_Range
       \<Rightarrow> (ptr \<times> RB_Delete_Status \<times> RB_Tree \<times> rb_heap) result" where
  "rb_delete_helper 0 h tree node rng = Inl Out_Of_Fuel"
| "rb_delete_helper (Suc fuel) h tree node rng =
     sbind (c_assert (rb_tree_valid tree) ''rb_tree_valid(tree)'') (\<lambda>_.
     sbind (c_assert (test_range_valid rng) ''test_range_valid(range)'') (\<lambda>_.
     sbind (node_is_nil node) (\<lambda>nil.
     if nil then
       sbind (c_assert (node_valid node) ''node_valid(result.node)'') (\<lambda>_.
       Inr (node, RB_DELETE_OK, tree, h))
     else
       sbind (assert_not_nil node) (\<lambda>_.
       sbind (node_load (heap_nodes h) node) (\<lambda>n.
       sbind (if test_range_compare (node_range n) rng = 0 then
                sbind (node_has_child (heap_nodes h) node RB_LEFT) (\<lambda>left.
                sbind (if \<not> left then Inr True
                       else sbind (node_has_child (heap_nodes h) node RB_RIGHT) (\<lambda>right. Inr (\<not> right))) (\<lambda>leaf.
                if leaf then Inr (True, rng, h)
                else
                  sbind (node_get_child (heap_nodes h) node RB_LEFT) (\<lambda>temp.
                  sbind (rb_rightmost fuel (heap_nodes h) temp) (\<lambda>temp.
                  sbind (node_load (heap_nodes h) temp) (\<lambda>m.
                  sbind (c_assert (node_list m RB_RIGHT = node) ''temp->list[RB_RIGHT] == node'') (\<lambda>_.
                  Inr (False, node_range m,
                       h\<lparr> heap_nodes := (heap_nodes h)(node \<mapsto> n\<lparr> node_range := node_range m \<rparr>) \<rparr>)))))))
              else Inr (False, rng, h)) (\<lambda>(leaf, rng, h).
       if leaf then rb_delete_leaf h tree node
       else
         sbind (node_load (heap_nodes h) node) (\<lambda>n.
         let direction = (if test_range_compare rng (node_range n) > 0 then RB_RIGHT else RB_LEFT) in
         sbind (node_get_child (heap_nodes h) node direction) (\<lambda>child.
         sbind (rb_delete_helper fuel h tree child rng) (\<lambda>(new, status, tree, h).
         sbind (on_nodes h (node_set_child (heap_nodes h) node direction new)) (\<lambda>h.
         sbind (if status = RB_DELETE_OK then Inr (node, RB_DELETE_OK, h)
                else sbind (rb_delete_fix_up (heap_nodes h) node direction) (\<lambda>(node, status, ns).
                  Inr (node, status, h\<lparr> heap_nodes := ns \<rparr>))) (\<lambda>(node, status, h).
         sbind (c_assert (node_valid node) ''node_valid(result.node)'') (\<lambda>_.
         Inr (node, status, tree, h)))))))))))))"

definition rb_delete :: "nat \<Rightarrow> rb_heap \<Rightarrow> RB_Tree \<Rightarrow> Test_Range \<Rightarrow> (RB_Tree \<times> rb_heap) result" where
  "rb_delete fuel h tree rng =
     sbind (c_assert (rb_tree_valid tree) ''rb_tree_valid(tree)'') (\<lambda>_.
     sbind (c_assert (test_range_valid rng) ''test_range_valid(range)'') (\<lambda>_.
     sbind (rb_delete_helper fuel h tree (tree_root tree) rng) (\<lambda>(new, status, tree, h).
     let tree = tree\<lparr> tree_root := new \<rparr> in
     sbind (node_is_nil (tree_root tree)) (\<lambda>nil.
     sbind (if \<not> nil then on_nodes h (node_set_color (heap_nodes h) (tree_root tree) RBC_BLACK)
            else Inr h) (\<lambda>h.
     Inr (tree, h))))))"

section \<open>Searches and validation\<close>

fun rb_find_prev_loop :: "nat \<Rightarrow> node_heap \<Rightarrow> U64 \<Rightarrow> ptr \<Rightarrow> ptr \<Rightarrow> ptr result" where
  "rb_find_prev_loop 0 h start node best = Inl Out_Of_Fuel"
| "rb_find_prev_loop (Suc fuel) h start node best =
     sbind (node_is_nil node) (\<lambda>nil.
     if nil then Inr best
     else sbind (node_load h node) (\<lambda>n.
       if rstart (node_range n) < start
       then sbind (node_get_child h node RB_RIGHT) (\<lambda>next. rb_find_prev_loop fuel h start next node)
       else sbind (node_get_child h node RB_LEFT) (\<lambda>next. rb_find_prev_loop fuel h start next best)))"

definition rb_find_prev_by_start :: "nat \<Rightarrow> rb_heap \<Rightarrow> RB_Tree \<Rightarrow> U64 \<Rightarrow> ptr result" where
  "rb_find_prev_by_start fuel h tree start =
     sbind (c_assert (rb_tree_valid tree) ''rb_tree_valid(tree)'') (\<lambda>_.
     sbind (rb_find_prev_loop fuel (heap_nodes h) start (tree_root tree) node_nil) (\<lambda>best.
     sbind (c_assert (node_valid best) ''node_valid(best)'') (\<lambda>_. Inr best)))"

fun rb_find_next_loop :: "nat \<Rightarrow> node_heap \<Rightarrow> U64 \<Rightarrow> ptr \<Rightarrow> ptr \<Rightarrow> ptr result" where
  "rb_find_next_loop 0 h start node best = Inl Out_Of_Fuel"
| "rb_find_next_loop (Suc fuel) h start node best =
     sbind (node_is_nil node) (\<lambda>nil.
     if nil then Inr best
     else sbind (node_load h node) (\<lambda>n.
       if rstart (node_range n) > start
       then sbind (node_get_child h node RB_LEFT) (\<lambda>next. rb_find_next_loop fuel h start next node)
       else sbind (node_get_child h node RB_RIGHT) (\<lambda>next. rb_find_next_loop fuel h start next best)))"

definition rb_find_next_by_start :: "nat \<Rightarrow> rb_heap \<Rightarrow> RB_Tree \<Rightarrow> U64 \<Rightarrow> ptr result" where
  "rb_find_next_by_start fuel h tree start =
     sbind (c_assert (rb_tree_valid tree) ''rb_tree_valid(tree)'') (\<lambda>_.
     sbind (rb_find_next_loop fuel (heap_nodes h) start (tree_root tree) node_nil) (\<lambda>best.
     sbind (c_assert (node_valid best) ''node_valid(best)'') (\<lambda>_. Inr best)))"

fun rb_list_validate_loop :: "nat \<Rightarrow> node_heap \<Rightarrow> ptr \<Rightarrow> ptr \<Rightarrow> ptr \<Rightarrow> ptr result" where
  "rb_list_validate_loop 0 h sentinel previous node = Inl Out_Of_Fuel"
| "rb_list_validate_loop (Suc fuel) h sentinel previous node =
     (if node = sentinel then Inr previous
      else
        sbind (c_assert (node_valid node) ''node_valid(node)'') (\<lambda>_.
        sbind (assert_not_nil node) (\<lambda>_.
        sbind (node_load h node) (\<lambda>n.
        sbind (c_assert (node_list n RB_LEFT = previous) ''node->list[RB_LEFT] == previous'') (\<lambda>_.
        sbind (c_assert (node_list n RB_RIGHT \<noteq> 0) ''node->list[RB_RIGHT] != NULL'') (\<lambda>_.
        sbind (if previous \<noteq> sentinel then
                 sbind (node_load h previous) (\<lambda>p.
                 c_assert (test_range_compare (node_range p) (node_range n) < 0)
                   ''test_range_compare(previous->range, node->range) < 0'')
               else Inr ()) (\<lambda>_.
        rb_list_validate_loop fuel h sentinel node (node_list n RB_RIGHT))))))))"

definition rb_list_validate :: "nat \<Rightarrow> rb_heap \<Rightarrow> RB_Tree \<Rightarrow> unit result" where
  "rb_list_validate fuel h tree =
     sbind (c_assert (rb_tree_valid tree) ''rb_tree_valid(tree)'') (\<lambda>_.
     let ns = heap_nodes h; sentinel = tree_list tree in
     sbind (c_assert (node_valid sentinel) ''node_valid(sentinel)'') (\<lambda>_.
     sbind (node_load ns sentinel) (\<lambda>s.
     sbind (c_assert (node_list s RB_LEFT \<noteq> 0) ''sentinel->list[RB_LEFT] != NULL'') (\<lambda>_.
     sbind (c_assert (node_list s RB_RIGHT \<noteq> 0) ''sentinel->list[RB_RIGHT] != NULL'') (\<lambda>_.
     sbind (node_load ns (node_list s RB_LEFT)) (\<lambda>l.
     sbind (c_assert (node_list l RB_RIGHT = sentinel) ''sentinel->list[RB_LEFT]->list[RB_RIGHT] == sentinel'') (\<lambda>_.
     sbind (node_load ns (node_list s RB_RIGHT)) (\<lambda>r.
     sbind (c_assert (node_list r RB_LEFT = sentinel) ''sentinel->list[RB_RIGHT]->list[RB_LEFT] == sentinel'') (\<lambda>_.
     sbind (rb_list_validate_loop fuel ns sentinel sentinel (node_list s RB_RIGHT)) (\<lambda>previous.
     c_assert (previous = node_list s RB_LEFT) ''previous == sentinel->list[RB_LEFT]''))))))))))"

end
