(* ===== verification/Rb_Refine.thy ===== *)
theory Rb_Refine
  imports Rb_Tree
begin

text \<open>
  The heap of nodes against the trees of \<open>Rb_Abstract\<close>: \<open>tree_at h t\<close> says that the nodes of \<open>t\<close> lie in
  the heap with their colours, ranges and children, and \<open>ring h s xs\<close> that the doubly linked list through
  the sentinel \<open>s\<close> runs over the addresses \<open>xs\<close>. The rotations, fix-ups and list operations of the code are
  shown to act on the abstract tree and list, with frames that say what they leave alone.
\<close>

section \<open>Trees in the heap\<close>

fun tree_at :: "node_heap \<Rightarrow> rbt \<Rightarrow> bool" where
  "tree_at h Tip = True"
| "tree_at h (Bin l a c r rt) =
     (ok_ptr a \<and> (\<exists>n. h a = Some n \<and> node_range n = r \<and> node_color n = c
        \<and> node_child n RB_LEFT = root l \<and> node_child n RB_RIGHT = root rt)
      \<and> tree_at h l \<and> tree_at h rt)"

text \<open>The part of a node that the tree reads, and the part that the list reads.\<close>

definition kids :: "node_heap \<Rightarrow> ptr \<Rightarrow> (Test_Range \<times> (RB_Direction \<Rightarrow> ptr)) option" where
  "kids h a = map_option (\<lambda>n. (node_range n, node_children n)) (h a)"

definition list_at :: "node_heap \<Rightarrow> RB_Direction \<Rightarrow> ptr \<Rightarrow> ptr option" where
  "list_at h d a = map_option (\<lambda>n. node_list n d) (h a)"

text \<open>A step that works inside the tree: it changes no node outside \<open>A\<close> and no list pointer at all.\<close>

definition tree_frame :: "ptr set \<Rightarrow> node_heap \<Rightarrow> node_heap \<Rightarrow> bool" where
  "tree_frame A h h' \<longleftrightarrow> (\<forall>a. a \<notin> A \<longrightarrow> h' a = h a) \<and> (\<forall>d a. list_at h' d a = list_at h d a)"

lemma tree_frame_refl [simp]: "tree_frame A h h"
  by (simp add: tree_frame_def)

lemma tree_frame_trans: "tree_frame A h h' \<Longrightarrow> tree_frame B h' h'' \<Longrightarrow> A \<subseteq> C \<Longrightarrow> B \<subseteq> C \<Longrightarrow> tree_frame C h h''"
  by (fastforce simp: tree_frame_def)

lemma tree_frame_list: "tree_frame A h h' \<Longrightarrow> list_at h' d a = list_at h d a"
  by (simp add: tree_frame_def)

lemma tree_frame_out: "tree_frame A h h' \<Longrightarrow> a \<notin> A \<Longrightarrow> h' a = h a"
  by (simp add: tree_frame_def)

lemma tree_frame_upd [simp]:
  "a \<in> A \<Longrightarrow> h a = Some n \<Longrightarrow> node_list n' = node_list n \<Longrightarrow> tree_frame A h (h(a \<mapsto> n'))"
  by (auto simp: tree_frame_def list_at_def)

lemma tree_frame_upd_trans:
  "tree_frame A h h' \<Longrightarrow> a \<in> A \<Longrightarrow> h' a = Some n \<Longrightarrow> node_list n' = node_list n \<Longrightarrow> tree_frame A h (h'(a \<mapsto> n'))"
  by (rule tree_frame_trans [OF _ tree_frame_upd]) auto

lemma tree_at_upd [simp]: "a \<notin> set (addrs t) \<Longrightarrow> tree_at (h(a \<mapsto> n)) t = tree_at h t"
  by (induction t) auto

lemma tree_at_kids: "(\<forall>a \<in> set (addrs t). kids h' a = kids h a) \<Longrightarrow> tree_at h' t = tree_at h t"
proof (induction t)
  case (Bin l a c r rt)
  have "kids h' a = kids h a" using Bin.prems by simp
  then have "(\<exists>n. h' a = Some n \<and> node_range n = r \<and> node_color n = c
        \<and> node_child n RB_LEFT = root l \<and> node_child n RB_RIGHT = root rt)
     = (\<exists>n. h a = Some n \<and> node_range n = r \<and> node_color n = c
        \<and> node_child n RB_LEFT = root l \<and> node_child n RB_RIGHT = root rt)"
    by (cases "h' a"; cases "h a") (auto simp: kids_def node_color_def node_child_def)
  then show ?case using Bin by simp
qed simp

lemma tree_at_frame: "tree_frame A h h' \<Longrightarrow> A \<inter> set (addrs t) = {} \<Longrightarrow> tree_at h' t = tree_at h t"
  by (rule tree_at_kids) (auto simp: kids_def tree_frame_def)

lemma tree_at_root [simp]: "tree_at h t \<Longrightarrow> node_valid (root t)"
  by (cases t) auto

lemma root_nil_iff: "tree_at h t \<Longrightarrow> root t = node_nil \<longleftrightarrow> t = Tip"
  by (cases t) auto

lemma tree_at_addrs: "tree_at h t \<Longrightarrow> a \<in> set (addrs t) \<Longrightarrow> ok_ptr a \<and> (\<exists>n. h a = Some n)"
  by (induction t) auto

lemma node_red_tree: "tree_at h t \<Longrightarrow> node_red h (root t) = Inr (red t)"
  by (cases t) (auto simp: node_ops)

lemma child_red_tree:
  "tree_at h t \<Longrightarrow> t \<noteq> Tip \<Longrightarrow> node_child_red h (root t) d = Inr (red (sub d t))"
  by (cases d; cases t) (auto simp: node_child_red_def node_ops node_red_tree)

lemma get_child_tree:
  "tree_at h t \<Longrightarrow> t \<noteq> Tip \<Longrightarrow> node_get_child h (root t) d = Inr (root (sub d t))"
  by (cases d; cases t) (auto simp: node_ops)

lemma has_child_tree:
  "tree_at h t \<Longrightarrow> t \<noteq> Tip \<Longrightarrow> node_has_child h (root t) d = Inr (sub d t \<noteq> Tip)"
  by (cases d; cases t) (auto simp: node_has_child_def node_ops root_nil_iff)

lemma not_nil_tree: "tree_at h t \<Longrightarrow> t \<noteq> Tip \<Longrightarrow> assert_not_nil (root t) = Inr ()"
  by (cases t) (auto simp: node_ops)

lemma is_nil_tree: "tree_at h t \<Longrightarrow> node_is_nil (root t) = Inr (t = Tip)"
  by (simp add: node_ops root_nil_iff)

lemma get_color_tree: "tree_at h t \<Longrightarrow> t \<noteq> Tip \<Longrightarrow> node_get_color h (root t) = Inr (color t)"
  by (cases t) (auto simp: node_ops)

lemma load_tree: "tree_at h (Bin l a c r rt) \<Longrightarrow> \<exists>n. node_load h a = Inr n \<and> h a = Some n \<and> node_range n = r"
  by (auto simp: node_ops)

lemma sub_tree [simp]: "tree_at h t \<Longrightarrow> tree_at h (sub d t)"
  by (cases d; cases t) auto

lemma sub_addrs: "set (addrs (sub d t)) \<subseteq> set (addrs t)"
  by (cases d; cases t) auto

lemma sub_distinct [simp]: "distinct (addrs t) \<Longrightarrow> distinct (addrs (sub d t))"
  by (cases d; cases t) auto

lemmas tree_reads = node_red_tree child_red_tree get_child_tree has_child_tree not_nil_tree is_nil_tree get_color_tree

section \<open>Steps on the tree\<close>

text \<open>What a step from \<open>t\<close> to \<open>t'\<close> in the heap means: the new root, the new tree, and the frame.\<close>

definition tree_step :: "node_heap \<Rightarrow> rbt \<Rightarrow> node_heap \<Rightarrow> rbt \<Rightarrow> bool" where
  "tree_step h t h' t' \<longleftrightarrow> tree_at h' t' \<and> addrs t' = addrs t \<and> tree_frame (set (addrs t)) h h'"

lemma tree_step_refl: "tree_at h t \<Longrightarrow> tree_step h t h t"
  by (simp add: tree_step_def)

lemma tree_step_trans: "tree_step h t h' t' \<Longrightarrow> tree_step h' t' h'' t'' \<Longrightarrow> tree_step h t h'' t''"
  unfolding tree_step_def by (metis subset_refl tree_frame_trans)

lemma set_color_tree:
  assumes "tree_at h t" "t \<noteq> Tip" "distinct (addrs t)"
  shows "\<exists>h'. node_set_color h (root t) c = Inr h' \<and> tree_step h t h' (paint c t)"
  using assms by (cases t) (auto simp: node_ops tree_step_def)

lemma set_child_tree:
  assumes "tree_at h t" "t \<noteq> Tip" "distinct (addrs t)" "tree_at h u" "root t \<notin> set (addrs u)"
  shows "\<exists>h'. node_set_child h (root t) d (root u) = Inr h' \<and> tree_at h' (set_sub d u t)
     \<and> tree_frame {root t} h h'"
  using assms by (cases d; cases t) (auto simp: node_ops)

lemma color_flip_tree:
  assumes "tree_at h t" "t \<noteq> Tip" "distinct (addrs t)"
  shows "\<exists>h'. node_color_flip h (root t) = Inr h' \<and> tree_step h t h' (flip_colors t)"
proof -
  obtain l a c r rt where t: "t = Bin l a c r rt" using assms by (cases t) auto
  show ?thesis
    using assms
    by (cases l; cases rt)
      (auto simp: t node_color_flip_def node_flip_if_node_def node_ops tree_step_def
         intro!: tree_frame_upd_trans)
qed

lemma rotate_tree:
  assumes "tree_at h t" "t \<noteq> Tip" "sub (rb_direction_flip d) t \<noteq> Tip" "distinct (addrs t)"
  shows "\<exists>h'. node_rotate h (root t) d = Inr (root (rot d t), h') \<and> tree_step h t h' (rot d t)"
proof -
  obtain l a c r rt where t: "t = Bin l a c r rt" using assms by (cases t) auto
  show ?thesis
  proof (cases d)
    case RB_LEFT
    then obtain u b c' r' v where "rt = Bin u b c' r' v" using assms t by (cases rt) auto
    then show ?thesis using assms RB_LEFT t
      by (auto simp: node_rotate_def node_ops tree_step_def intro!: tree_frame_upd_trans)
  next
    case RB_RIGHT
    then obtain u b c' r' v where "l = Bin u b c' r' v" using assms t by (cases l) auto
    then show ?thesis using assms RB_RIGHT t
      by (auto simp: node_rotate_def node_ops tree_step_def intro!: tree_frame_upd_trans)
  qed
qed

lemma sub_step:
  assumes "tree_at h t" "t \<noteq> Tip" "distinct (addrs t)" and u: "tree_step h (sub d t) h' u"
  shows "\<exists>h''. node_set_child h' (root t) d (root u) = Inr h'' \<and> tree_step h t h'' (set_sub d u t)"
proof -
  obtain l a c r rt where t: "t = Bin l a c r rt" using assms by (cases t) auto
  have fr: "tree_frame (set (addrs (sub d t))) h h'" and at: "tree_at h' u" "addrs u = addrs (sub d t)"
    using u by (simp_all add: tree_step_def)
  have same: "h' a = h a" using tree_frame_out [OF fr, of a] assms t by (cases d) auto
  have fr': "tree_frame (set (addrs t)) h h'"
    using fr tree_frame_trans [OF tree_frame_refl fr, of "{}"] sub_addrs by blast
  show ?thesis
  proof (cases d)
    case RB_LEFT
    then have "tree_at h' rt" using tree_at_frame [OF fr, of rt] assms t by auto
    then show ?thesis using assms same at fr' RB_LEFT t
      by (auto simp: node_ops tree_step_def intro!: tree_frame_upd_trans)
  next
    case RB_RIGHT
    then have "tree_at h' l" using tree_at_frame [OF fr, of l] assms t by auto
    then show ?thesis using assms same at fr' RB_RIGHT t
      by (auto simp: node_ops tree_step_def intro!: tree_frame_upd_trans)
  qed
qed

lemma root_set_sub [simp]: "root (set_sub d u t) = root t"
  by (cases d; cases t) auto

lemma set_sub_Tip [simp]: "set_sub d u t = Tip \<longleftrightarrow> t = Tip" "paint c t = Tip \<longleftrightarrow> t = Tip" "root (paint c t) = root t"
  by (cases d; cases t; simp)+

lemma sub_set_sub [simp]: "t \<noteq> Tip \<Longrightarrow> sub d (set_sub d u t) = u" "d' \<noteq> d \<Longrightarrow> sub d' (set_sub d u t) = sub d' t"
  by (cases d; cases d'; cases t; simp)+

lemma rot_Tip [simp]: "rot d t = Tip \<longleftrightarrow> t = Tip"
  by (cases "(d, t)" rule: rot.cases) auto

lemma tree_step_distinct: "tree_step h t h' t' \<Longrightarrow> distinct (addrs t') = distinct (addrs t)"
  by (simp add: tree_step_def)

lemma tree_step_at: "tree_step h t h' t' \<Longrightarrow> tree_at h' t'"
  by (simp add: tree_step_def)

lemma double_rotate_tree:
  assumes at: "tree_at h t" "t \<noteq> Tip" and f: "f = rb_direction_flip d"
    and s: "sub f t \<noteq> Tip" "sub d (sub f t) \<noteq> Tip" and dt: "distinct (addrs t)"
  shows "\<exists>h'. node_double_rotate h (root t) d = Inr (root (double_rot d t), h') \<and> tree_step h t h' (double_rot d t)"
proof -
  obtain h1 where h1: "node_rotate h (root (sub f t)) f = Inr (root (rot f (sub f t)), h1)"
    "tree_step h (sub f t) h1 (rot f (sub f t))"
    using rotate_tree [of h "sub f t" f] assms by auto
  obtain h2 where h2: "node_set_child h1 (root t) f (root (rot f (sub f t))) = Inr h2"
    "tree_step h t h2 (set_sub f (rot f (sub f t)) t)"
    using sub_step [OF at dt h1(2)] by auto
  let ?u = "set_sub f (rot f (sub f t)) t"
  obtain h3 where h3: "node_rotate h2 (root ?u) d = Inr (root (rot d ?u), h3)" "tree_step h2 ?u h3 (rot d ?u)"
    using rotate_tree [of h2 ?u d] tree_step_at [OF h2(2)] tree_step_distinct [OF h2(2)] assms by auto
  have "node_valid (root (rot d ?u))" using tree_step_at [OF h3(2)] by simp
  then have "node_double_rotate h (root t) d = Inr (root (rot d ?u), h3)"
    using at s h1(1) h2(1) h3(1)
    by (simp add: node_double_rotate_def tree_reads flip: f) (simp add: not_nil_tree [OF sub_tree])
  then show ?thesis
    using tree_step_trans [OF h2(2) h3(2)] by (simp add: double_rot_def f)
qed

lemma insert_fix_up_tree:
  assumes "tree_at h t" "t \<noteq> Tip" "distinct (addrs t)"
  shows "\<exists>h'. rb_insert_fix_up h (root t) d = Inr (root (insert_fix d t), h') \<and> tree_step h t h' (insert_fix d t)"
proof -
  let ?f = "rb_direction_flip d" and ?u = "sub d t"
  have nt: "red v \<Longrightarrow> v \<noteq> Tip" for v by auto
  have rd: "red ?u \<Longrightarrow> node_child_red h (root ?u) e = Inr (red (sub e ?u))" for e
    using child_red_tree [of h ?u e] assms nt by simp
  note ops = rb_insert_fix_up_def insert_fix_def Let_def tree_reads assms rd
    not_nil_tree [OF assms(1,2)] tree_at_root [OF assms(1)]
  consider (skip) "\<not> red ?u \<or> (\<not> red (sub d ?u) \<and> \<not> red (sub ?f ?u))"
    | (flip) "red ?u" "red (sub ?f t)" "red (sub d ?u) \<or> red (sub ?f ?u)"
    | (single) "red ?u" "\<not> red (sub ?f t)" "red (sub d ?u)"
    | (double) "red ?u" "\<not> red (sub ?f t)" "\<not> red (sub d ?u)" "red (sub ?f ?u)"
    by blast
  then show ?thesis
  proof cases
    case skip
    then have "rb_insert_fix_up h (root t) d = Inr (root t, h)" "insert_fix d t = t"
      by (auto simp: ops)
    then show ?thesis using assms by (simp add: tree_step_refl)
  next
    case flip
    then obtain h' where h': "node_color_flip h (root t) = Inr h'" "tree_step h t h' (flip_colors t)"
      using color_flip_tree assms by blast
    have "root (flip_colors t) = root t" by (cases t) auto
    then show ?thesis using flip h' by (auto simp: ops)
  next
    case single
    then obtain h' where h': "node_rotate h (root t) ?f = Inr (root (rot ?f t), h')" "tree_step h t h' (rot ?f t)"
      using rotate_tree [of h t ?f] assms nt by auto
    moreover have "node_valid (root (rot ?f t))" using tree_step_at [OF h'(2)] by simp
    ultimately show ?thesis using single by (auto simp: ops)
  next
    case double
    then obtain h' where h': "node_double_rotate h (root t) ?f = Inr (root (double_rot ?f t), h')"
      "tree_step h t h' (double_rot ?f t)"
      using double_rotate_tree [of h t d ?f] assms nt by auto
    moreover have "node_valid (root (double_rot ?f t))" using tree_step_at [OF h'(2)] by simp
    ultimately show ?thesis using double by (auto simp: ops)
  qed
qed

lemma sub_step_same_root:
  assumes "tree_at h t" "t \<noteq> Tip" "distinct (addrs t)" and u: "tree_step h (sub d t) h' u"
    and r: "root u = root (sub d t)"
  shows "tree_step h t h' (set_sub d u t)"
proof -
  obtain l a c r rt where t: "t = Bin l a c r rt" using assms by (cases t) auto
  have fr: "tree_frame (set (addrs (sub d t))) h h'" and at: "tree_at h' u" "addrs u = addrs (sub d t)"
    using u by (simp_all add: tree_step_def)
  have same: "h' a = h a" using tree_frame_out [OF fr, of a] assms t by (cases d) auto
  have fr': "tree_frame (set (addrs t)) h h'"
    using fr tree_frame_trans [OF tree_frame_refl fr, of "{}"] sub_addrs by blast
  have other: "tree_at h' (sub (rb_direction_flip d) t)"
    using tree_at_frame [OF fr, of "sub (rb_direction_flip d) t"] assms t by (cases d) auto
  show ?thesis
    using assms same at fr' t other by (cases d) (auto simp: tree_step_def)
qed

lemma sub_paint_tree:
  assumes "tree_at h t" "distinct (addrs t)" "sub d t \<noteq> Tip"
  shows "\<exists>h'. node_set_color h (root (sub d t)) c = Inr h' \<and> tree_step h t h' (set_sub d (paint c (sub d t)) t)"
proof -
  have "t \<noteq> Tip" using assms(3) by (cases d) auto
  moreover obtain h' where "node_set_color h (root (sub d t)) c = Inr h'" "tree_step h (sub d t) h' (paint c (sub d t))"
    using set_color_tree [of h "sub d t"] assms by auto
  ultimately show ?thesis using sub_step_same_root assms by auto
qed

lemma fix_black_recolor:
  assumes at: "tree_at h t" "distinct (addrs t)" and s: "sub f t \<noteq> Tip"
  shows "\<exists>h1 h2. node_set_color h (root t) RBC_BLACK = Inr h1 \<and> node_set_color h1 (root (sub f t)) RBC_RED = Inr h2
     \<and> tree_step h t h2 (paint RBC_BLACK (set_sub f (paint RBC_RED (sub f t)) t))"
proof -
  have "t \<noteq> Tip" using s by (cases f) auto
  then obtain h1 where h1: "node_set_color h (root t) RBC_BLACK = Inr h1" "tree_step h t h1 (paint RBC_BLACK t)"
    using set_color_tree at by blast
  have p: "sub f (paint c t) = sub f t" "set_sub f u (paint c t) = paint c (set_sub f u t)" for c u
    by (cases f; cases t; simp)+
  obtain h2 where "node_set_color h1 (root (sub f t)) RBC_RED = Inr h2"
    "tree_step h1 (paint RBC_BLACK t) h2 (paint RBC_BLACK (set_sub f (paint RBC_RED (sub f t)) t))"
    using sub_paint_tree [OF tree_step_at [OF h1(2)], of f RBC_RED] at s by (auto simp: p)
  then show ?thesis using h1 tree_step_trans by blast
qed

lemma double_rot_Tip [simp]: "double_rot d t = Tip \<longleftrightarrow> t = Tip"
  by (simp add: double_rot_def)

lemma rot_subs:
  assumes "sub f t \<noteq> Tip" "f = rb_direction_flip d"
  shows "sub f (sub f t) \<noteq> Tip \<Longrightarrow> sub e (rot d t) \<noteq> Tip"
    and "sub d (sub f t) \<noteq> Tip \<Longrightarrow> sub e (double_rot d t) \<noteq> Tip"
proof -
  obtain l a c r rt where t: "t = Bin l a c r rt" using assms by (cases t) auto
  show "sub e (rot d t) \<noteq> Tip" if "sub f (sub f t) \<noteq> Tip"
    using assms t that by (cases d; cases e; cases l; cases rt) auto
  show "sub e (double_rot d t) \<noteq> Tip" if "sub d (sub f t) \<noteq> Tip"
  proof (cases d)
    case RB_LEFT
    then obtain u b c' r' v where rt: "rt = Bin u b c' r' v" using assms t by (cases rt) auto
    then show ?thesis using RB_LEFT that t assms by (cases u; cases e) (auto simp: double_rot_def)
  next
    case RB_RIGHT
    then obtain u b c' r' v where l: "l = Bin u b c' r' v" using assms t by (cases l) auto
    then show ?thesis using RB_RIGHT that t assms by (cases v; cases e) (auto simp: double_rot_def)
  qed
qed

lemma fix_black_rotate:
  assumes at: "tree_at h t" "distinct (addrs t)" and f: "f = rb_direction_flip d" and s: "sub f t \<noteq> Tip"
    and red: "red (sub RB_LEFT (sub f t)) \<or> red (sub RB_RIGHT (sub f t))"
    and v: "v = fst (delete_fix_black d t)"
  shows "\<exists>h1 h2 h3 h4 l r. (if red (sub f (sub f t)) then node_rotate h (root t) d else node_double_rotate h (root t) d) = Inr (root v, h1)
     \<and> node_set_color h1 (root v) (color t) = Inr h2
     \<and> node_get_child h2 (root v) RB_LEFT = Inr l \<and> node_set_color h2 l RBC_BLACK = Inr h3
     \<and> node_get_child h3 (root v) RB_RIGHT = Inr r \<and> node_set_color h3 r RBC_BLACK = Inr h4
     \<and> tree_step h t h4 v"
proof -
  define u where "u = (if red (sub f (sub f t)) then rot d t else double_rot d t)"
  define w where "w = paint (color t) u"
  define w' where "w' = set_sub RB_LEFT (paint RBC_BLACK (sub RB_LEFT w)) w"
  have nt: "t \<noteq> Tip" using s by auto
  have inner: "\<not> red (sub f (sub f t)) \<Longrightarrow> sub d (sub f t) \<noteq> Tip"
    using red f by (cases d) auto
  obtain h1 where h1: "(if red (sub f (sub f t)) then node_rotate h (root t) d else node_double_rotate h (root t) d) = Inr (root u, h1)"
    "tree_step h t h1 u"
    using rotate_tree [of h t d] double_rotate_tree [of h t f d] inner at nt s f
    by (cases "red (sub f (sub f t))") (simp_all add: u_def, blast+)
  have nu: "u \<noteq> Tip" using nt by (simp add: u_def)
  have "red (sub f (sub f t)) \<Longrightarrow> sub f (sub f t) \<noteq> Tip" by auto
  then have kids: "sub e u \<noteq> Tip" for e
    using rot_subs [OF s f, of e] inner by (cases "red (sub f (sub f t))") (simp_all add: u_def)
  obtain h2 where h2: "node_set_color h1 (root u) (color t) = Inr h2" "tree_step h t h2 w"
    using set_color_tree [OF tree_step_at [OF h1(2)] nu, of "color t"] tree_step_distinct [OF h1(2)] at
      tree_step_trans [OF h1(2)] by (auto simp: w_def)
  have w: "w \<noteq> Tip" "root w = root u" "sub e w = sub e u" for e
    using nu by (cases e; cases u; simp add: w_def)+
  obtain h3 where h3: "node_set_color h2 (root (sub RB_LEFT w)) RBC_BLACK = Inr h3" "tree_step h t h3 w'"
    using sub_paint_tree [OF tree_step_at [OF h2(2)], of RB_LEFT RBC_BLACK] tree_step_distinct [OF h2(2)] at
      tree_step_trans [OF h2(2)] kids by (auto simp: w'_def w)
  have w': "w' \<noteq> Tip" "root w' = root u" "sub RB_RIGHT w' = sub RB_RIGHT u" using w by (simp_all add: w'_def)
  obtain h4 where h4: "node_set_color h3 (root (sub RB_RIGHT w')) RBC_BLACK = Inr h4"
    "tree_step h t h4 (set_sub RB_RIGHT (paint RBC_BLACK (sub RB_RIGHT w')) w')"
    using sub_paint_tree [OF tree_step_at [OF h3(2)], of RB_RIGHT RBC_BLACK] tree_step_distinct [OF h3(2)] at
      tree_step_trans [OF h3(2)] kids by (auto simp: w')
  have v: "v = set_sub RB_RIGHT (paint RBC_BLACK (sub RB_RIGHT w')) w'"
    using red s by (auto simp: v delete_fix_black_def Let_def u_def w_def w'_def f)
  have "node_get_child h2 (root w) RB_LEFT = Inr (root (sub RB_LEFT w))"
    "node_get_child h3 (root w') RB_RIGHT = Inr (root (sub RB_RIGHT w'))"
    using get_child_tree tree_step_at [OF h2(2)] tree_step_at [OF h3(2)] w(1) w'(1) by blast+
  then show ?thesis
    using h1(1) h2(1) h3(1) h4 w w' by (auto simp: v)
qed

lemma fix_sibling_here:
  assumes at: "tree_at h t" "t \<noteq> Tip" "distinct (addrs t)"
    and f: "f = rb_direction_flip d" and v: "delete_fix_black d t = (v, st)"
  shows "\<exists>h'. rb_delete_fix_sibling h (root t) (root t) (root (sub f t)) d = Inr (root v, st, h') \<and> tree_step h t h' v"
proof (cases "sub f t = Tip")
  case True
  then show ?thesis
    using at v tree_step_refl by (simp add: rb_delete_fix_sibling_def delete_fix_black_def node_ops f)
next
  case s: False
  let ?s = "sub f t"
  note reads = is_nil_tree [OF sub_tree [OF at(1)], of f] child_red_tree [OF sub_tree [OF at(1)] s]
    node_red_tree [OF at(1)] get_color_tree [OF at(1,2)]
  show ?thesis
  proof (cases "red (sub RB_LEFT ?s) \<or> red (sub RB_RIGHT ?s)")
    case False
    then show ?thesis
      using fix_black_recolor [OF at(1,3) s] v s
      by (auto simp: rb_delete_fix_sibling_def delete_fix_black_def Let_def reads simp flip: f)
  next
    case True
    then show ?thesis
      using fix_black_rotate [OF at(1,3) f s True refl] v s
      by (auto simp: rb_delete_fix_sibling_def delete_fix_black_def Let_def reads simp flip: f)
  qed
qed

lemma fix_sibling_below:
  assumes at: "tree_at h u" "u \<noteq> Tip" "sub d u \<noteq> Tip" "distinct (addrs u)"
    and f: "f = rb_direction_flip d" and v: "delete_fix_black d (sub d u) = (v, st)"
  shows "\<exists>h'. rb_delete_fix_sibling h (root u) (root (sub d u)) (root (sub f (sub d u))) d = Inr (root u, st, h')
     \<and> tree_step h u h' (set_sub d v u)"
proof (cases "sub f (sub d u) = Tip")
  case True
  have "set_sub d (sub d u) u = u" by (cases d; cases u) auto
  then show ?thesis
    using at True v tree_step_refl
    by (auto simp add: rb_delete_fix_sibling_def delete_fix_black_def node_ops f)
next
  case s: False
  let ?t = "sub d u"
  let ?s = "sub f ?t"
  have t: "tree_at h ?t" "distinct (addrs ?t)" using at by simp_all
  have neq: "root u \<noteq> root ?t" using at by (cases d; cases u; cases ?t) auto
  note reads = is_nil_tree [OF sub_tree [OF t(1)], of f] child_red_tree [OF sub_tree [OF t(1)] s]
    node_red_tree [OF t(1)] get_color_tree [OF t(1) at(3)]
  show ?thesis
  proof (cases "red (sub RB_LEFT ?s) \<or> red (sub RB_RIGHT ?s)")
    case False
    then obtain h1 h2 where h: "node_set_color h (root ?t) RBC_BLACK = Inr h1" "node_set_color h1 (root ?s) RBC_RED = Inr h2"
      "tree_step h ?t h2 v" "root v = root ?t"
      using fix_black_recolor [OF t s] v s by (auto simp: delete_fix_black_def Let_def f split: if_splits)
    then show ?thesis
      using False sub_step_same_root [OF at(1,2,4) h(3,4)] v s
      by (auto simp: rb_delete_fix_sibling_def delete_fix_black_def Let_def reads simp flip: f)
  next
    case True
    obtain h1 h2 h3 h4 l r where h: "(if red (sub f ?s) then node_rotate h (root ?t) d else node_double_rotate h (root ?t) d) = Inr (root v, h1)"
      "node_set_color h1 (root v) (color ?t) = Inr h2" "node_get_child h2 (root v) RB_LEFT = Inr l" "node_set_color h2 l RBC_BLACK = Inr h3"
      "node_get_child h3 (root v) RB_RIGHT = Inr r" "node_set_color h3 r RBC_BLACK = Inr h4" "tree_step h ?t h4 v"
      using fix_black_rotate [OF t f s True refl] v by auto
    obtain h5 where h5: "node_set_child h4 (root u) d (root v) = Inr h5" "tree_step h u h5 (set_sub d v u)"
      using sub_step [OF at(1,2,4) h(7)] by blast
    have st: "st = RB_DELETE_OK" using v True s by (auto simp: delete_fix_black_def Let_def f)
    then have "rb_delete_fix_sibling h (root u) (root ?t) (root ?s) d = Inr (root u, st, h5)"
      using True h(1-6) h5(1) s neq by (auto simp: rb_delete_fix_sibling_def Let_def reads simp flip: f)
    then show ?thesis using h5(2) by blast
  qed
qed

lemma delete_fix_up_tree:
  assumes at: "tree_at h t" "t \<noteq> Tip" "distinct (addrs t)" and v: "delete_fix d t = (v, st)"
  shows "\<exists>h'. rb_delete_fix_up h (root t) d = Inr (root v, st, h') \<and> tree_step h t h' v"
proof -
  define f where f: "f = rb_direction_flip d"
  note reads = tree_at_root [OF at(1)] not_nil_tree [OF at(1,2)] get_child_tree [OF at(1,2), of f]
    node_red_tree [OF sub_tree [OF at(1)]]
  show ?thesis
  proof (cases "red (sub f t)")
    case False
    then have "delete_fix_black d t = (v, st)" using v by (simp add: delete_fix_def f)
    then obtain h' where h': "rb_delete_fix_sibling h (root t) (root t) (root (sub f t)) d = Inr (root v, st, h')" "tree_step h t h' v"
      using fix_sibling_here [OF at f] by blast
    then show ?thesis
      using False tree_at_root [OF tree_step_at [OF h'(2)]] by (simp add: rb_delete_fix_up_def reads Let_def flip: f)
  next
    case True
    define u where "u = rot d t"
    have nt: "sub f t \<noteq> Tip" using True by auto
    obtain h1 where h1: "node_rotate h (root t) d = Inr (root u, h1)" "tree_step h t h1 u"
      using rotate_tree [of h t d] at nt f by (auto simp: u_def)
    have u: "u \<noteq> Tip" "root (sub d u) = root t" "sub d u \<noteq> Tip"
      using at nt f by (cases d; cases t; cases "sub f t"; auto simp: u_def)+
    obtain w where w: "delete_fix_black d (sub d u) = (w, st)" "v = set_sub d w u"
      using v True by (auto simp: delete_fix_def Let_def u_def f split: prod.splits)
    obtain h' where h': "rb_delete_fix_sibling h1 (root u) (root (sub d u)) (root (sub f (sub d u))) d = Inr (root u, st, h')"
      "tree_step h1 u h' v"
      using fix_sibling_below [OF tree_step_at [OF h1(2)] u(1,3) _ f w(1)] w(2) tree_step_distinct [OF h1(2)] at by auto
    have "node_get_child h1 (root t) f = Inr (root (sub f (sub d u)))"
      using get_child_tree [OF sub_tree [OF tree_step_at [OF h1(2)]] u(3), of f] u(2) by simp
    then have "rb_delete_fix_up h (root t) d = Inr (root u, st, h')"
      using True h1(1) h'(1) u(2) tree_at_root [OF tree_step_at [OF h1(2)]]
      by (simp add: rb_delete_fix_up_def reads Let_def flip: f)
    then show ?thesis using tree_step_trans [OF h1(2) h'(2)] w(2) by simp
  qed
qed

end
