(* ===== verification/Rb_Ring.thy ===== *)
theory Rb_Ring
  imports Rb_Refine
begin

text \<open>
  The doubly linked list through the nodes of the tree: \<open>ring h s xs\<close> says that the list pointers lead from
  the sentinel \<open>s\<close> over the addresses \<open>xs\<close> back to \<open>s\<close>, in both directions. \<^verbatim>\<open>node_insert\<close> and
  \<^verbatim>\<open>node_remove_from_list\<close> add and take out one address and leave ranges and children alone, and
  \<^verbatim>\<open>rb_list_validate\<close> accepts every ring whose ranges are sorted.
\<close>

section \<open>Rings\<close>

definition linked :: "node_heap \<Rightarrow> ptr \<Rightarrow> ptr \<Rightarrow> bool" where
  "linked h p q \<longleftrightarrow> list_at h RB_RIGHT p = Some q \<and> list_at h RB_LEFT q = Some p"

definition ring :: "node_heap \<Rightarrow> ptr \<Rightarrow> ptr list \<Rightarrow> bool" where
  "ring h s xs \<longleftrightarrow> successively (linked h) (s # xs @ [s])"

lemma chain_cong:
  "successively (linked h) xs \<Longrightarrow>
   (\<And>p. p \<in> set (butlast xs) \<Longrightarrow> list_at h' RB_RIGHT p = list_at h RB_RIGHT p) \<Longrightarrow>
   (\<And>p. p \<in> set (tl xs) \<Longrightarrow> list_at h' RB_LEFT p = list_at h RB_LEFT p) \<Longrightarrow>
   successively (linked h') xs"
proof (induction xs rule: induct_list012)
  case (3 x y zs)
  have "successively (linked h') (y # zs)"
    using 3 by (cases zs) auto
  then show ?case using 3 by (simp add: linked_def)
qed auto

lemma ring_frame: "ring h s xs \<Longrightarrow> (\<And>d p. p \<in> set (s # xs) \<Longrightarrow> list_at h' d p = list_at h d p) \<Longrightarrow> ring h' s xs"
  unfolding ring_def by (rule chain_cong) (auto simp: butlast_append split: if_splits)

lemma ring_split:
  "ring h s (pre @ post) \<longleftrightarrow> successively (linked h) (s # pre)
     \<and> linked h (last (s # pre)) (hd (post @ [s])) \<and> successively (linked h) (post @ [s])"
  unfolding ring_def using successively_append_iff [of "linked h" "s # pre" "post @ [s]"] by auto

lemma ring_split_node:
  "ring h s (pre @ a # post) \<longleftrightarrow> successively (linked h) (s # pre)
     \<and> linked h (last (s # pre)) a \<and> linked h a (hd (post @ [s])) \<and> successively (linked h) (post @ [s])"
  by (cases post) (auto simp: ring_split)

lemma last_notin_butlast: "distinct xs \<Longrightarrow> xs \<noteq> [] \<Longrightarrow> last xs \<notin> set (butlast xs)"
  by (induction xs rule: rev_induct) auto

lemma chain_keep:
  assumes "distinct (s # pre @ post)"
    and r: "\<And>p. p \<noteq> last (s # pre) \<Longrightarrow> p \<in> set (s # pre @ post) \<Longrightarrow> list_at h' RB_RIGHT p = list_at h RB_RIGHT p"
    and l: "\<And>q. q \<noteq> hd (post @ [s]) \<Longrightarrow> q \<in> set (s # pre @ post) \<Longrightarrow> list_at h' RB_LEFT q = list_at h RB_LEFT q"
  shows "successively (linked h) (s # pre) \<Longrightarrow> successively (linked h') (s # pre)"
    and "successively (linked h) (post @ [s]) \<Longrightarrow> successively (linked h') (post @ [s])"
proof -
  have last: "p \<in> set (butlast (s # pre)) \<Longrightarrow> p \<noteq> last (s # pre)" for p
    using last_notin_butlast [of "s # pre"] assms(1) by auto
  show "successively (linked h') (s # pre)" if "successively (linked h) (s # pre)"
    using that
  proof (rule chain_cong)
    show "list_at h' RB_RIGHT p = list_at h RB_RIGHT p" if "p \<in> set (butlast (s # pre))" for p
      using that last in_set_butlastD [of p "s # pre"] by (intro r) auto
    show "list_at h' RB_LEFT p = list_at h RB_LEFT p" if "p \<in> set (tl (s # pre))" for p
      using that assms(1) by (intro l) (cases post; auto)+
  qed
  show "successively (linked h') (post @ [s])" if "successively (linked h) (post @ [s])"
    using that
  proof (rule chain_cong)
    show "list_at h' RB_RIGHT p = list_at h RB_RIGHT p" if "p \<in> set (butlast (post @ [s]))" for p
    proof (rule r)
      have "last (s # pre) \<in> set (s # pre)" by (rule last_in_set) simp
      then show "p \<noteq> last (s # pre)" using that assms(1) by auto
      show "p \<in> set (s # pre @ post)" using that by (simp add: butlast_append)
    qed
    show "list_at h' RB_LEFT p = list_at h RB_LEFT p" if "p \<in> set (tl (post @ [s]))" for p
      using that assms(1) by (intro l) (cases post; auto)+
  qed
qed


text \<open>The effect of a list operation: new list pointers, the same ranges and children.\<close>

definition list_step :: "node_heap \<Rightarrow> node_heap \<Rightarrow> bool" where
  "list_step h h' \<longleftrightarrow> (\<forall>a. kids h' a = kids h a)"

lemma list_step_tree: "list_step h h' \<Longrightarrow> tree_at h' t = tree_at h t"
  by (rule tree_at_kids) (simp add: list_step_def)

section \<open>Insertion and removal\<close>

lemma list_at_Some: "list_at h d p = Some q \<longleftrightarrow> (\<exists>n. h p = Some n \<and> node_list n d = q)"
  by (auto simp: list_at_def)

lemma list_at_upd [simp]: "list_at (h(p \<mapsto> n)) d = (list_at h d)(p \<mapsto> node_list n d)"
  by (auto simp: list_at_def)

lemma list_step_upd:
  "list_step g h \<Longrightarrow> h p = Some n \<Longrightarrow> node_range n' = node_range n \<Longrightarrow> node_children n' = node_children n
   \<Longrightarrow> list_step g (h(p \<mapsto> n'))"
  by (cases "g p") (auto simp: list_step_def kids_def dest: spec [of _ p])

lemma list_step_refl [simp]: "list_step h h"
  by (simp add: list_step_def)

text \<open>The node that a new node beside \<open>p\<close> and \<open>q\<close> is attached to, by direction.\<close>

definition anker_of :: "RB_Direction \<Rightarrow> ptr \<Rightarrow> ptr \<Rightarrow> ptr" where
  "anker_of d p q = (case d of RB_RIGHT \<Rightarrow> p | RB_LEFT \<Rightarrow> q)"

lemma node_insert_heap:
  assumes "ok_ptr a" "ok_ptr p" "ok_ptr q" "h a = Some m" "linked h p q" "a \<noteq> p" "a \<noteq> q"
  shows "\<exists>h'. node_insert h a (anker_of d p q) d = Inr h' \<and> list_step h h'
     \<and> list_at h' RB_RIGHT = (list_at h RB_RIGHT)(a \<mapsto> q, p \<mapsto> a)
     \<and> list_at h' RB_LEFT = (list_at h RB_LEFT)(a \<mapsto> p, q \<mapsto> a)"
proof -
  obtain n n' where n: "h p = Some n" "node_list n RB_RIGHT = q" "h q = Some n'" "node_list n' RB_LEFT = p"
    using assms by (auto simp: linked_def list_at_Some)
  note ops = node_insert_def anker_of_def node_ops Let_def
  show ?thesis
    by (cases d; cases "p = q")
      (use assms n in \<open>auto simp: ops fun_upd_twist list_at_def intro!: list_step_upd ext\<close>)
qed

lemma node_insert_ring:
  assumes ok: "ok_ptr a" "\<And>b. b \<in> set (s # pre @ post) \<Longrightarrow> ok_ptr b" and a: "h a = Some m" "a \<notin> set (s # pre @ post)"
    and r: "ring h s (pre @ post)" and d: "distinct (s # pre @ post)"
    and k: "anker = anker_of d (last (s # pre)) (hd (post @ [s]))"
  shows "\<exists>h'. node_insert h a anker d = Inr h' \<and> list_step h h' \<and> ring h' s (pre @ a # post)"
proof -
  let ?p = "last (s # pre)" and ?q = "hd (post @ [s])"
  have mem: "?p \<in> set (s # pre @ post)" "?q \<in> set (s # pre @ post)" by (auto simp: hd_append)
  then have ne: "a \<noteq> ?p" "a \<noteq> ?q" using a(2) by metis+
  have l: "linked h ?p ?q" using r by (simp add: ring_split)
  obtain h' where h': "node_insert h a anker d = Inr h'" "list_step h h'"
     "list_at h' RB_RIGHT = (list_at h RB_RIGHT)(a \<mapsto> ?q, ?p \<mapsto> a)"
     "list_at h' RB_LEFT = (list_at h RB_LEFT)(a \<mapsto> ?p, ?q \<mapsto> a)"
    using node_insert_heap [OF ok(1) ok(2) [OF mem(1)] ok(2) [OF mem(2)] a(1) l ne, of d] k by blast
  have "p \<in> set (s # pre @ post) \<Longrightarrow> p \<noteq> a" for p using a(2) by blast
  then have "successively (linked h') (s # pre)" "successively (linked h') (post @ [s])"
    using chain_keep [OF d, where h = h and h' = h'] r by (simp_all add: h'(3,4) ring_split del: last.simps)
  moreover have "linked h' ?p a" "linked h' a ?q" using ne by (simp_all add: linked_def h'(3,4))
  ultimately show ?thesis using h'(1,2) by (auto simp: ring_split_node)
qed

lemma node_remove_ring:
  assumes ok: "ok_ptr a" and r: "ring h s (pre @ a # post)" and d: "distinct (s # pre @ a # post)"
  shows "\<exists>h'. node_remove_from_list h a = Inr h' \<and> list_step h h' \<and> ring h' s (pre @ post)"
proof -
  let ?p = "last (s # pre)" and ?q = "hd (post @ [s])"
  have mem: "?p \<in> set (s # pre @ post)" "?q \<in> set (s # pre @ post)" by (auto simp: hd_append)
  then have ne: "a \<noteq> ?p" "a \<noteq> ?q" using d by auto
  have l: "linked h ?p a" "linked h a ?q" using r by (simp_all add: ring_split_node)
  then have "\<exists>h'. node_remove_from_list h a = Inr h' \<and> list_step h h'
     \<and> list_at h' RB_RIGHT = (list_at h RB_RIGHT)(?p \<mapsto> ?q) \<and> list_at h' RB_LEFT = (list_at h RB_LEFT)(?q \<mapsto> ?p)"
    using ne ok
    by (cases "?p = ?q")
      (auto simp: linked_def list_at_Some node_remove_from_list_def node_ops list_at_def intro!: list_step_upd ext simp del: last.simps)
  then obtain h' where h': "node_remove_from_list h a = Inr h'" "list_step h h'"
     "list_at h' RB_RIGHT = (list_at h RB_RIGHT)(?p \<mapsto> ?q)" "list_at h' RB_LEFT = (list_at h RB_LEFT)(?q \<mapsto> ?p)"
    by blast
  have "successively (linked h') (s # pre)" "successively (linked h') (post @ [s])"
    using chain_keep [of s pre post h' h] d r by (simp_all add: h'(3,4) ring_split_node del: last.simps)
  moreover have "linked h' ?p ?q" by (simp add: linked_def h'(3,4))
  ultimately show ?thesis using h'(1,2) by (auto simp: ring_split)
qed

section \<open>Validation of the list\<close>

definition range_at :: "node_heap \<Rightarrow> ptr \<Rightarrow> Test_Range \<Rightarrow> bool" where
  "range_at h a r \<longleftrightarrow> ok_ptr a \<and> (\<exists>n. h a = Some n \<and> node_range n = r)"

lemma tree_ranges: "tree_at h t \<Longrightarrow> list_all2 (range_at h) (addrs t) (ranges t)"
  by (induction t) (auto simp: range_at_def intro!: list_all2_appendI)

lemma validate_loop:
  assumes "successively (linked h) (prev # xs @ [s])" "s \<notin> set xs" "list_all2 (range_at h) xs rs"
    and "sorted_wrt range_before rs" "\<forall>r \<in> set rs. test_range_valid r"
    and "prev \<noteq> s \<Longrightarrow> \<exists>r. range_at h prev r \<and> test_range_valid r \<and> (\<forall>r' \<in> set rs. range_before r r')"
    and "length xs < fuel" "s \<noteq> 0"
  shows "rb_list_validate_loop fuel h s prev (hd (xs @ [s])) = Inr (last (prev # xs))"
  using assms
proof (induction xs arbitrary: prev rs fuel)
  case Nil
  then show ?case by (cases fuel) auto
next
  case (Cons a xs)
  obtain r rs' where rs: "rs = r # rs'" "range_at h a r" "list_all2 (range_at h) xs rs'"
    using Cons.prems(3) by (auto simp: list_all2_Cons1)
  obtain n where n: "ok_ptr a" "h a = Some n" "node_range n = r" using rs(2) by (auto simp: range_at_def)
  obtain k where k: "fuel = Suc k" "length xs < k" using Cons.prems(7) by (cases fuel) auto
  have l: "linked h prev a" "linked h a (hd (xs @ [s]))" "successively (linked h) (a # xs @ [s])"
    using Cons.prems(1) by (cases xs; simp)+
  have list: "node_list n RB_LEFT = prev" "node_list n RB_RIGHT = hd (xs @ [s])"
    using l n by (auto simp: linked_def list_at_Some)
  have nz: "hd (xs @ [s]) \<noteq> 0"
  proof (cases xs)
    case Nil
    then show ?thesis using Cons.prems(8) by simp
  next
    case (Cons b ys)
    then show ?thesis using rs(3) by (auto simp: list_all2_Cons1 range_at_def ok_ptr_def node_valid_def)
  qed
  have cmp: "(if prev \<noteq> s then sbind (node_load h prev) (\<lambda>p.
       c_assert (test_range_compare (node_range p) (node_range n) < 0)
         ''test_range_compare(previous->range, node->range) < 0'') else Inr ()) = Inr ()"
    using Cons.prems(6) rs n by (auto simp: range_at_def node_ops compare_before)
  have "rb_list_validate_loop k h s a (hd (xs @ [s])) = Inr (last (a # xs))"
    using Cons.IH [OF l(3) _ rs(3) _ _ _ k(2)] Cons.prems rs by (auto simp: range_at_def)
  then show ?case
    using Cons.prems(2) n list nz cmp by (auto simp: k node_ops)
qed

lemma ring_ends: "ring h s xs \<Longrightarrow> linked h s (hd (xs @ [s])) \<and> linked h (last (s # xs)) s"
  using ring_split [of h s "[]" xs] ring_split [of h s xs "[]"] by simp

lemma list_validate_ok:
  assumes v: "rb_tree_valid tree" "tree_list tree = s" "ok_ptr s" and r: "ring (heap_nodes h) s xs"
    and rs: "list_all2 (range_at (heap_nodes h)) xs rs" "sorted_wrt range_before rs" "\<forall>r \<in> set rs. test_range_valid r"
    and s: "s \<notin> set xs" and fuel: "length xs < fuel"
  shows "rb_list_validate fuel h tree = Inr ()"
proof -
  let ?ns = "heap_nodes h"
  obtain n where n: "?ns s = Some n" "node_list n RB_RIGHT = hd (xs @ [s])" "node_list n RB_LEFT = last (s # xs)"
    using ring_ends [OF r] by (auto simp: linked_def list_at_Some)
  obtain m where m: "?ns (hd (xs @ [s])) = Some m" "node_list m RB_LEFT = s"
    using ring_ends [OF r] by (auto simp: linked_def list_at_Some)
  obtain m' where m': "?ns (last (s # xs)) = Some m'" "node_list m' RB_RIGHT = s"
    using ring_ends [OF r] by (auto simp: linked_def list_at_Some simp del: last.simps)
  have ok: "a \<in> set (s # xs) \<Longrightarrow> a \<noteq> 0" for a
    using v(3) rs(1) by (auto simp: ok_ptr_def node_valid_def range_at_def list_all2_conv_all_nth in_set_conv_nth)
  have mem: "hd (xs @ [s]) \<in> set (s # xs)" "last (s # xs) \<in> set (s # xs)" by (cases xs; auto)+
  have nz: "hd (xs @ [s]) \<noteq> 0" "last (s # xs) \<noteq> 0" "s \<noteq> 0" using ok mem by auto
  have "rb_list_validate_loop fuel ?ns s s (hd (xs @ [s])) = Inr (last (s # xs))"
    using validate_loop [of ?ns s xs s rs fuel] r s rs fuel nz by (simp add: ring_def)
  then show ?thesis
    using v n m m' nz by (simp add: rb_list_validate_def node_ops Let_def del: last.simps)
qed

end
