(* ===== verification/Rb_Pool.thy ===== *)
theory Rb_Pool
  imports Rb_Ring
begin

text \<open>
  The memory of the tree: pages of 84 nodes each, chained from \<^verbatim>\<open>tree->nodes\<close> to \<^verbatim>\<open>tree->current_node\<close>,
  and the free list of recycled nodes. The invariant says that the slots handed out so far are exactly
  the live nodes and the nodes of the free list, without overlap. It makes \<^verbatim>\<open>rb_tree_node_make\<close> return a
  fresh node and \<^verbatim>\<open>rb_tree_node_free\<close> give nodes back, so that nothing is lost or handed out twice.
\<close>

section \<open>Slots\<close>

definition page_region :: "ptr \<Rightarrow> nat set" where
  "page_region p = {unat p..<unat p + 4096}"

text \<open>
  What the code relies on about a block of \<^verbatim>\<open>calloc\<close>: not NULL, aligned for a pointer, inside the address
  space and apart from the global \<^verbatim>\<open>node_nil\<close>.
\<close>

definition page_ok :: "ptr \<Rightarrow> bool" where
  "page_ok p \<longleftrightarrow> p \<noteq> 0 \<and> 8 dvd unat p \<and> unat p + 4096 \<le> 2 ^ 64 \<and> unat node_nil \<notin> page_region p"

lemma nodes_max [simp]: "RB_NODES_MAX = 84"
  by (simp add: RB_NODES_MAX_def size_of_RB_Nodes_def size_of_Node_def)

lemma slot_unat: "page_ok p \<Longrightarrow> i < 84 \<Longrightarrow> unat (node_slot p i) = unat p + (32 + 48 * i)"
proof -
  assume p: "page_ok p" "i < 84"
  have "unat (of_nat (32 + 48 * i) :: U64) = 32 + 48 * i"
    using p(2) by (simp only: unsigned_of_nat) (simp add: take_bit_nat_eq_self_iff)
  then show ?thesis
    using p by (simp add: node_slot_def size_of_RB_Nodes_def size_of_Node_def page_ok_def unat_word_ariths)
qed

lemma slot_region: "page_ok p \<Longrightarrow> i < 84 \<Longrightarrow> unat (node_slot p i) \<in> page_region p"
  by (simp add: slot_unat page_region_def)

lemma slot_inj: "page_ok p \<Longrightarrow> i < 84 \<Longrightarrow> j < 84 \<Longrightarrow> node_slot p i = node_slot p j \<Longrightarrow> i = j"
  by (drule arg_cong [where f = unat]) (simp add: slot_unat)

lemma dvd_and_mask: "8 dvd unat p \<Longrightarrow> p AND 7 = (0::U64)"
proof -
  assume "8 dvd unat p"
  then have "unat (take_bit 3 p) = 0" 
    by (simp only: unsigned_take_bit_eq) (simp add: take_bit_eq_mod mod_eq_0_iff_dvd)
  then have "take_bit 3 p = 0" by (simp only: unat_eq_0)
  then show ?thesis by (simp add: take_bit_eq_mask mask_eq_exp_minus_1)
qed

lemma and_mask_even: "p AND 7 = 0 \<Longrightarrow> node_get p = (p::U64)"
proof -
  assume p: "p AND 7 = 0"
  have "\<not> bit p 0"
  proof
    assume "bit p 0"
    then have "bit (p AND 7) 0" by (simp add: bit_simps)
    then show False by (simp add: p)
  qed
  then show ?thesis
    by (intro bit_word_eqI) (auto simp: node_get_def bit_simps intro: gr0I)
qed

lemma slot_ok:
  assumes "page_ok p" "i < 84"
  shows "ok_ptr (node_slot p i)" and "node_slot p i AND 7 = 0"
proof -
  have u: "unat (node_slot p i) = unat p + (32 + 48 * i)" by (rule slot_unat [OF assms])
  have "8 dvd unat p + (32 + 48 * i)"
    using assms by (intro dvd_add) (auto simp: page_ok_def)
  then show mask: "node_slot p i AND 7 = 0" using dvd_and_mask u by metis
  have "node_slot p i \<noteq> 0" using u by (auto simp: unat_eq_0)
  moreover have "node_slot p i \<noteq> node_nil" using slot_region [OF assms] assms by (auto simp: page_ok_def)
  ultimately show "ok_ptr (node_slot p i)" using and_mask_even [OF mask] by (simp add: ok_ptr_def node_valid_def)
qed

lemma slots_apart:
  "page_ok p \<Longrightarrow> page_ok q \<Longrightarrow> page_region p \<inter> page_region q = {} \<Longrightarrow> i < 84 \<Longrightarrow> j < 84 \<Longrightarrow> node_slot p i \<noteq> node_slot q j"
  using slot_region [of p i] slot_region [of q j] by auto

lemma set_page_slots: "set (page_slots p) = {node_slot p i | i. i < 84}"
  by (auto simp: page_slots_def)

section \<open>The invariant\<close>

definition pages_ok :: "ptr \<Rightarrow> ptr list \<Rightarrow> bool" where
  "pages_ok s ps \<longleftrightarrow> sorted_wrt (\<lambda>p q. page_region p \<inter> page_region q = {}) ps
     \<and> (\<forall>p \<in> set ps. page_ok p \<and> unat s \<notin> page_region p)"

fun page_chain :: "(ptr \<rightharpoonup> RB_Nodes) \<Rightarrow> ptr \<Rightarrow> ptr list \<Rightarrow> bool" where
  "page_chain m p [] = (p = 0)"
| "page_chain m p (a # as) = (p = a \<and> (\<exists>n. m a = Some n \<and> page_chain m (nodes_next n) as))"

fun free_chain :: "node_heap \<Rightarrow> ptr \<Rightarrow> ptr list \<Rightarrow> bool" where
  "free_chain h p [] = (p = 0)"
| "free_chain h p (a # as) = (p = a \<and> ok_ptr a \<and> (\<exists>n. h a = Some n \<and> free_chain h (node_children n RB_RIGHT) as))"

definition page_used :: "(ptr \<rightharpoonup> RB_Nodes) \<Rightarrow> ptr \<Rightarrow> nat" where
  "page_used m p = (case m p of None \<Rightarrow> 0 | Some n \<Rightarrow> unat (node_count n))"

definition handed :: "(ptr \<rightharpoonup> RB_Nodes) \<Rightarrow> ptr list \<Rightarrow> ptr set" where
  "handed m pages = (\<Union>p \<in> set pages. node_slot p ` {..<page_used m p})"

definition pool_inv :: "rb_heap \<Rightarrow> RB_Tree \<Rightarrow> ptr set \<Rightarrow> ptr list \<Rightarrow> ptr list \<Rightarrow> bool" where
  "pool_inv h tree live frees pages \<longleftrightarrow>
     pages \<noteq> [] \<and> page_chain (heap_pages h) (tree_nodes tree) pages \<and> current_node tree = last pages
     \<and> pages_ok (tree_list tree) (pages @ filter (\<lambda>p. p \<noteq> 0) (page_supply h))
     \<and> (\<forall>p \<in> set pages. \<exists>n. heap_pages h p = Some n \<and> unat (node_count n) \<le> 84)
     \<and> (\<forall>p \<in> set pages. \<forall>i < 84. node_slot p i \<in> dom (heap_nodes h))
     \<and> free_chain (heap_nodes h) (free_list tree) frees \<and> distinct frees \<and> live \<inter> set frees = {}
     \<and> live \<union> set frees = handed (heap_pages h) pages"

text \<open>The next node needs a new page and the library has none.\<close>

definition out_of_nodes :: "rb_heap \<Rightarrow> RB_Tree \<Rightarrow> bool" where
  "out_of_nodes h tree \<longleftrightarrow> free_list tree = 0
     \<and> (\<exists>n. heap_pages h (current_node tree) = Some n \<and> \<not> unat (node_count n) < 84)
     \<and> fst (page_alloc h) = 0"

lemma pages_ok_append:
  "pages_ok s (ps @ qs) \<longleftrightarrow> pages_ok s ps \<and> pages_ok s qs
     \<and> (\<forall>p \<in> set ps. \<forall>q \<in> set qs. page_region p \<inter> page_region q = {})"
  by (auto simp: pages_ok_def sorted_wrt_append)

lemma pages_ok_distinct: "pages_ok s ps \<Longrightarrow> distinct ps"
proof (induction ps)
  case (Cons p ps)
  have "page_region p \<noteq> {}" by (simp add: page_region_def)
  then show ?case using Cons by (auto simp: pages_ok_def)
qed simp

lemma pages_ok_apart: "pages_ok s ps \<Longrightarrow> p \<in> set ps \<Longrightarrow> q \<in> set ps \<Longrightarrow> p \<noteq> q \<Longrightarrow> page_region p \<inter> page_region q = {}"
  by (induction ps) (auto simp: pages_ok_def)

lemma slot_eq:
  assumes "pages_ok s ps" "p \<in> set ps" "q \<in> set ps" "i < 84" "j < 84" "node_slot p i = node_slot q j"
  shows "p = q \<and> i = j"
proof -
  have ok: "page_ok p" "page_ok q" using assms by (auto simp: pages_ok_def)
  have "p = q" using slots_apart [OF ok _ assms(4,5)] pages_ok_apart [OF assms(1-3)] assms(6) by blast
  then show ?thesis using slot_inj [OF ok(1) assms(4,5)] assms(6) by simp
qed

lemma pool_inv_cong:
  assumes inv: "pool_inv h tree live frees pages"
    and "heap_pages h' = heap_pages h" "page_supply h' = page_supply h"
    and k: "\<And>a. a \<in> set frees \<Longrightarrow> kids (heap_nodes h') a = kids (heap_nodes h) a"
    and "dom (heap_nodes h) \<subseteq> dom (heap_nodes h')"
    and "tree_list tree' = tree_list tree" "free_list tree' = free_list tree" "tree_nodes tree' = tree_nodes tree"
      "current_node tree' = current_node tree"
  shows "pool_inv h' tree' live frees pages"
proof -
  have "free_chain (heap_nodes h) p fs \<Longrightarrow> set fs \<subseteq> set frees \<Longrightarrow> free_chain (heap_nodes h') p fs" for p fs
  proof (induction fs arbitrary: p)
    case (Cons a fs)
    then obtain n where n: "heap_nodes h a = Some n" "free_chain (heap_nodes h') (node_children n RB_RIGHT) fs" by auto
    then obtain n' where "heap_nodes h' a = Some n'" "node_children n' = node_children n"
      using k [of a] Cons.prems by (auto simp: kids_def)
    then show ?case using Cons.prems n by auto
  qed simp
  moreover have "\<forall>p \<in> set pages. \<forall>i < 84. node_slot p i \<in> dom (heap_nodes h')"
    using inv assms(5) unfolding pool_inv_def by blast
  ultimately show ?thesis using assms by (simp add: pool_inv_def)
qed

text \<open>Every live or free node is a slot of a page, so it is no sentinel and no slot of another page.\<close>

lemma handed_slot:
  assumes "pool_inv h tree live frees pages" "a \<in> live \<union> set frees"
  shows "\<exists>p i n. p \<in> set pages \<and> i < 84 \<and> a = node_slot p i \<and> heap_pages h p = Some n \<and> i < unat (node_count n)"
proof -
  have "a \<in> handed (heap_pages h) pages" using assms by (simp add: pool_inv_def)
  then obtain p i n where p: "a = node_slot p i" "p \<in> set pages" "heap_pages h p = Some n" "i < unat (node_count n)"
    by (auto simp: handed_def page_used_def split: option.splits)
  moreover have "i < 84" using assms(1) p by (fastforce simp: pool_inv_def)
  ultimately show ?thesis by blast
qed

lemma pool_page_ok: "pool_inv h tree live frees pages \<Longrightarrow> p \<in> set pages \<Longrightarrow> page_ok p \<and> unat (tree_list tree) \<notin> page_region p"
  by (auto simp: pool_inv_def pages_ok_def)

lemma pool_dom: "pool_inv h tree live frees pages \<Longrightarrow> p \<in> set pages \<Longrightarrow> i < 84 \<Longrightarrow> \<exists>n. heap_nodes h (node_slot p i) = Some n"
  unfolding pool_inv_def by blast

lemma slot_not_sentinel:
  "pool_inv h tree live frees pages \<Longrightarrow> p \<in> set pages \<Longrightarrow> i < 84 \<Longrightarrow> node_slot p i \<noteq> tree_list tree"
  using pool_page_ok slot_region by metis

section \<open>Getting a node\<close>

lemma page_chain_cong:
  "(\<forall>a \<in> set ps. map_option nodes_next (m' a) = map_option nodes_next (m a)) \<Longrightarrow> page_chain m p ps \<Longrightarrow> page_chain m' p ps"
proof (induction ps arbitrary: p)
  case (Cons a ps)
  then obtain n where n: "m a = Some n" "page_chain m (nodes_next n) ps" by auto
  then obtain n' where "m' a = Some n'" "nodes_next n' = nodes_next n" using Cons.prems by auto
  then show ?case using Cons n by auto
qed simp

lemma page_chain_snoc:
  "page_chain m p ps \<Longrightarrow> ps \<noteq> [] \<Longrightarrow> \<forall>a \<in> set (butlast ps). m' a = m a \<Longrightarrow>
   m' (last ps) = Some n \<Longrightarrow> nodes_next n = q \<Longrightarrow> m' q = Some k \<Longrightarrow> nodes_next k = 0 \<Longrightarrow> page_chain m' p (ps @ [q])"
proof (induction ps arbitrary: p)
  case (Cons a ps)
  then show ?case by (cases "ps = []") auto
qed simp

lemma handed_upd:
  assumes "p \<in> set pages" "page_used m' p = Suc (page_used m p)" "\<And>q. q \<in> set pages \<Longrightarrow> q \<noteq> p \<Longrightarrow> page_used m' q = page_used m q"
  shows "handed m' pages = insert (node_slot p (page_used m p)) (handed m pages)"
proof -
  have "node_slot q ` {..<page_used m' q} = (if q = p then {node_slot p (page_used m p)} else {}) \<union> node_slot q ` {..<page_used m q}"
    if "q \<in> set pages" for q
    using assms(2,3) that by (auto simp: lessThan_Suc)
  then have "handed m' pages = (\<Union>q \<in> set pages. (if q = p then {node_slot p (page_used m p)} else {}) \<union> node_slot q ` {..<page_used m q})"
    by (simp add: handed_def)
  then show ?thesis using assms(1) by (auto simp: handed_def split: if_splits)
qed

text \<open>What a successful request for a node gives back.\<close>

definition new_node :: "rb_heap \<Rightarrow> RB_Tree \<Rightarrow> ptr set \<Rightarrow> ptr \<Rightarrow> RB_Tree \<Rightarrow> rb_heap \<Rightarrow> bool" where
  "new_node h tree live a tree' h' \<longleftrightarrow>
     ok_ptr a \<and> a AND 7 = 0 \<and> a \<notin> live \<and> a \<noteq> tree_list tree \<and> a \<in> dom (heap_nodes h')
     \<and> (\<forall>b \<in> insert (tree_list tree) live. heap_nodes h' b = heap_nodes h b)
     \<and> tree_root tree' = tree_root tree \<and> tree_list tree' = tree_list tree \<and> rb_tree_valid tree'
     \<and> (\<exists>frees' pages'. pool_inv h' tree' (insert a live) frees' pages')"

lemma memory_free:
  assumes inv: "pool_inv h tree live frees pages" and v: "rb_tree_valid tree" and f: "free_list tree \<noteq> 0"
  shows "\<exists>a tree' h'. rb_tree_node_memory h tree = Inr (a, tree', h') \<and> new_node h tree live a tree' h'"
proof -
  obtain a fs n where fs: "frees = a # fs" "free_list tree = a" "heap_nodes h a = Some n" "ok_ptr a"
      "free_chain (heap_nodes h) (node_children n RB_RIGHT) fs"
    using inv f by (cases frees) (auto simp: pool_inv_def)
  have a: "a \<notin> set fs" "a \<notin> live" using inv fs by (auto simp: pool_inv_def)
  obtain p i where p: "p \<in> set pages" "i < 84" "a = node_slot p i"
    using handed_slot [OF inv, of a] fs by auto
  let ?h = "h\<lparr> heap_nodes := (heap_nodes h)(a \<mapsto> node_zero) \<rparr>"
  let ?t = "tree\<lparr> free_list := node_children n RB_COLOR_NEXT_FREE \<rparr>"
  have "pool_inv h ?t (insert a live) fs pages"
    using inv fs a by (auto simp: pool_inv_def RB_COLOR_NEXT_FREE_def)
  then have "pool_inv ?h ?t (insert a live) fs pages"
    by (rule pool_inv_cong) (use a in \<open>auto simp: kids_def\<close>)
  moreover have "rb_tree_node_memory h tree = Inr (a, ?t, ?h)"
    using f fs by (simp add: rb_tree_node_memory_def node_ops Let_def)
  ultimately show ?thesis
    using fs a v p slot_ok [of p i] slot_not_sentinel [OF inv p(1,2)] pool_page_ok [OF inv p(1)]
    by (auto simp: new_node_def rb_tree_valid_def)
qed

lemma memory_page:
  assumes inv: "pool_inv h tree live frees pages" and v: "rb_tree_valid tree" and f: "free_list tree = 0"
    and n: "heap_pages h (current_node tree) = Some n" "unat (node_count n) < 84"
  shows "\<exists>a tree' h'. rb_tree_node_memory h tree = Inr (a, tree', h') \<and> new_node h tree live a tree' h'"
proof -
  let ?p = "current_node tree" and ?c = "unat (node_count n)"
  let ?a = "node_slot ?p ?c"
  let ?h = "h\<lparr> heap_pages := (heap_pages h)(?p \<mapsto> n\<lparr> node_count := node_count n + 1 \<rparr>) \<rparr>"
  have p: "?p \<in> set pages" and ok: "pages_ok (tree_list tree) pages" using inv by (auto simp: pool_inv_def pages_ok_append)
  have c: "unat (node_count n + 1) = Suc ?c" "node_count n < of_nat 84"
    using n(2) by (auto simp: word_less_nat_alt unat_word_ariths)
  have mem: "rb_tree_node_memory h tree = Inr (?a, tree, ?h)"
    using f n c by (simp add: rb_tree_node_memory_def page_load_def Let_def)
  have fresh: "?a \<notin> live \<union> set frees"
  proof
    assume "?a \<in> live \<union> set frees"
    then obtain q i m where q: "q \<in> set pages" "i < 84" "?a = node_slot q i" "heap_pages h q = Some m" "i < unat (node_count m)"
      using handed_slot [OF inv] by blast
    then have "?p = q \<and> ?c = i" using slot_eq [OF ok p q(1) n(2) q(2,3)] by simp
    then show False using q n by auto
  qed
  have "handed (heap_pages ?h) pages = insert ?a (handed (heap_pages h) pages)"
    using handed_upd [of ?p pages "heap_pages ?h" "heap_pages h"] p n c by (simp add: page_used_def)
  moreover have "page_chain (heap_pages ?h) (tree_nodes tree) pages"
    by (rule page_chain_cong [where m = "heap_pages h"]) (use inv n in \<open>simp_all add: pool_inv_def\<close>)
  moreover have "\<forall>q \<in> set pages. \<exists>m. heap_pages h q = Some m \<and> unat (node_count m) \<le> 84"
    using inv by (simp add: pool_inv_def)
  then have "\<forall>q \<in> set pages. \<exists>m. heap_pages ?h q = Some m \<and> unat (node_count m) \<le> 84"
    using n(2) c(1) by simp
  moreover have "?a \<notin> set frees" using fresh by simp
  ultimately have "pool_inv ?h tree (insert ?a live) frees pages"
    using inv by (simp add: pool_inv_def)
  moreover have "?a \<in> dom (heap_nodes h)" using inv p n(2) by (auto simp: pool_inv_def)
  ultimately show ?thesis
    using mem v fresh slot_ok [of ?p ?c] n(2) slot_not_sentinel [OF inv p n(2)] pool_page_ok [OF inv p]
    by (auto simp: new_node_def)
qed


lemma memory_new_page:
  assumes inv: "pool_inv h tree live frees pages" and v: "rb_tree_valid tree" and f: "free_list tree = 0"
    and n: "heap_pages h (current_node tree) = Some n" "\<not> unat (node_count n) < 84"
    and s: "page_supply h = q # qs" "q \<noteq> 0"
  shows "\<exists>a tree' h'. rb_tree_node_memory h tree = Inr (a, tree', h') \<and> new_node h tree live a tree' h'"
proof -
  let ?p = "current_node tree" and ?a = "node_slot q 0"
  let ?ns = "\<lambda>a. if a \<in> set (page_slots q) then Some node_zero else heap_nodes h a"
  let ?ps = "(heap_pages h)(?p \<mapsto> n\<lparr> nodes_next := q \<rparr>, q \<mapsto> \<lparr> nodes_next = 0, node_count = 1 \<rparr>)"
  let ?h = "h\<lparr> page_supply := qs, heap_nodes := ?ns, heap_pages := ?ps \<rparr>"
  let ?t = "tree\<lparr> current_node := q \<rparr>"
  have p: "?p \<in> set pages" "?p = last pages" "pages \<noteq> []" using inv by (auto simp: pool_inv_def)
  have ok: "pages_ok (tree_list tree) ((pages @ [q]) @ filter (\<lambda>p. p \<noteq> 0) qs)" using inv s by (simp add: pool_inv_def)
  then have ok': "pages_ok (tree_list tree) (pages @ [q])" using pages_ok_append by blast
  have q: "q \<notin> set pages" "page_ok q" using pages_ok_distinct [OF ok'] ok' by (auto simp: pages_ok_def)
  have old: "\<not> node_count n < (of_nat 84 :: U64)" using n(2) by (simp add: word_less_nat_alt)
  have mem: "rb_tree_node_memory h tree = Inr (?a, ?t, ?h)"
    using f n(1) old s q(1) p
    by (auto simp: rb_tree_node_memory_def page_load_def Let_def rb_nodes_create_def page_alloc_def)
  have slot: "node_slot r i \<notin> set (page_slots q)" if "r \<in> set pages" "i < 84" for r i
    using slot_eq [OF ok', of r q i] that q(1) by (auto simp: set_page_slots)
  have old_slot: "b \<notin> set (page_slots q)" if "b \<in> live \<union> set frees" for b
    using handed_slot [OF inv that] slot by blast
  moreover have a: "?a \<in> set (page_slots q)" by (auto simp: set_page_slots)
  ultimately have frees: "?a \<notin> live \<union> set frees" by blast
  have "page_used ?ps r = page_used (heap_pages h) r" if "r \<in> set pages" for r
    using that q(1) n(1) by (auto simp: page_used_def)
  then have "handed ?ps pages = handed (heap_pages h) pages" by (simp add: handed_def)
  moreover have "handed ?ps [q] = {?a}" by (simp add: handed_def page_used_def lessThan_Suc)
  ultimately have "handed ?ps (pages @ [q]) = insert ?a (handed (heap_pages h) pages)"
    by (auto simp: handed_def)
  moreover have "page_chain ?ps (tree_nodes tree) (pages @ [q])"
  proof (rule page_chain_snoc [where m = "heap_pages h"])
    show "\<forall>a \<in> set (butlast pages). ?ps a = heap_pages h a"
      using last_notin_butlast [of pages] pages_ok_distinct [OF ok'] p q by (auto dest: in_set_butlastD)
    show "?ps (last pages) = Some (n\<lparr> nodes_next := q \<rparr>)" using p q n by auto
    show "?ps q = Some \<lparr> nodes_next = 0, node_count = 1 \<rparr>" by simp
    show "nodes_next \<lparr> nodes_next = 0, node_count = 1 \<rparr> = 0" by simp
  qed (use inv in \<open>simp_all add: pool_inv_def\<close>)
  moreover have cnt: "\<forall>q \<in> set pages. \<exists>m. heap_pages h q = Some m \<and> unat (node_count m) \<le> 84"
    using inv by (simp add: pool_inv_def)
  then have "\<forall>r \<in> set (pages @ [q]). \<exists>m. ?ps r = Some m \<and> unat (node_count m) \<le> 84"
    using bspec [OF cnt p(1)] n(1) by auto
  moreover have "\<forall>r \<in> set (pages @ [q]). \<forall>i < 84. node_slot r i \<in> dom ?ns"
    using pool_dom [OF inv] by (auto simp: set_page_slots)
  moreover have "pool_inv (h\<lparr> heap_nodes := ?ns \<rparr>) tree live frees pages"
    by (rule pool_inv_cong [OF inv]) (use old_slot in \<open>auto simp: kids_def\<close>)
  then have "free_chain ?ns (free_list tree) frees" by (simp add: pool_inv_def)
  moreover have "?a \<notin> set frees" "unat (node_count n) \<le> 84" using frees bspec [OF cnt p(1)] n(1) by auto
  ultimately have "pool_inv ?h ?t (insert ?a live) frees (pages @ [q])"
    using inv ok s by (simp add: pool_inv_def)
  moreover have st: "tree_list tree \<notin> set (page_slots q)"
    using ok' slot_region [OF q(2)] by (auto simp: pages_ok_def set_page_slots)
  moreover have "?a \<noteq> tree_list tree" "?a \<in> dom ?ns" using st a by auto
  ultimately show ?thesis
    using mem v frees slot_ok [of q 0] q s(2) old_slot by (auto simp: new_node_def rb_tree_valid_def)
qed


lemma node_memory_oom:
  assumes inv: "pool_inv h tree live frees pages" and oom: "out_of_nodes h tree"
  shows "\<exists>h'. rb_tree_node_memory h tree = Inr (0, tree, h') \<and> heap_nodes h' = heap_nodes h
     \<and> pool_inv h' tree live frees pages"
proof -
  have m: "rb_tree_node_memory h tree = Inr (0, tree, snd (page_alloc h))"
    using oom by (auto simp: out_of_nodes_def rb_tree_node_memory_def page_load_def rb_nodes_create_def
        word_less_nat_alt Let_def split_beta)
  have "heap_nodes (snd (page_alloc h)) = heap_nodes h \<and> heap_pages (snd (page_alloc h)) = heap_pages h
     \<and> filter (\<lambda>p. p \<noteq> 0) (page_supply (snd (page_alloc h))) = filter (\<lambda>p. p \<noteq> 0) (page_supply h)"
    using oom by (auto simp: out_of_nodes_def page_alloc_def split: list.splits if_splits)
  then show ?thesis using m inv by (simp add: pool_inv_def)
qed

lemma node_memory_ok:
  assumes inv: "pool_inv h tree live frees pages" and v: "rb_tree_valid tree" and oom: "\<not> out_of_nodes h tree"
  shows "\<exists>a tree' h'. rb_tree_node_memory h tree = Inr (a, tree', h') \<and> new_node h tree live a tree' h'"
proof (cases "free_list tree = 0")
  case False
  then show ?thesis by (rule memory_free [OF inv v])
next
  case f: True
  have "current_node tree \<in> set pages" using inv by (auto simp: pool_inv_def)
  then obtain n where n: "heap_pages h (current_node tree) = Some n" using inv unfolding pool_inv_def by blast
  show ?thesis
  proof (cases "unat (node_count n) < 84")
    case True
    then show ?thesis by (rule memory_page [OF inv v f n])
  next
    case False
    then obtain q qs where "page_supply h = q # qs" "q \<noteq> 0"
      using oom f n by (auto simp: out_of_nodes_def page_alloc_def split: list.splits if_splits)
    then show ?thesis by (rule memory_new_page [OF inv v f n False])
  qed
qed

text \<open>The node that \<^verbatim>\<open>rb_tree_node_make\<close> returns.\<close>

lemma node_make_ok:
  assumes inv: "pool_inv h tree live frees pages" and v: "rb_tree_valid tree" "test_range_valid x"
    and oom: "\<not> out_of_nodes h tree"
  shows "\<exists>a tree' h' n. rb_tree_node_make h tree x c = Inr (a, tree', h') \<and> new_node h tree live a tree' h' \<and> a \<noteq> 0
     \<and> heap_nodes h' a = Some n \<and> node_range n = x \<and> node_color n = c \<and> (\<forall>d. node_child n d = node_nil)"
proof -
  obtain a tree' h1 where m: "rb_tree_node_memory h tree = Inr (a, tree', h1)" "new_node h tree live a tree' h1"
    using node_memory_ok [OF inv v(1) oom] by blast
  then obtain n fs ps where a: "ok_ptr a" "a AND 7 = 0" "heap_nodes h1 a = Some n" "pool_inv h1 tree' (insert a live) fs ps"
    by (auto simp: new_node_def)
  let ?n = "paint_node (n\<lparr> node_range := x, node_children := (node_children n)(RB_LEFT := node_nil, RB_RIGHT := node_nil) \<rparr>) c"
  let ?h = "h1\<lparr> heap_nodes := (heap_nodes h1)(a \<mapsto> ?n) \<rparr>"
  have nz: "a \<noteq> 0" using a(1) by (auto simp: ok_ptr_def node_valid_def)
  have make: "rb_tree_node_make h tree x c = Inr (a, tree', ?h)"
    using m(1) a nz v by (simp add: rb_tree_node_make_def node_ops Let_def on_nodes_def)
  have "a \<notin> set fs" using a(4) by (auto simp: pool_inv_def)
  then have "pool_inv ?h tree' (insert a live) fs ps"
    by (intro pool_inv_cong [OF a(4)]) (auto simp: kids_def)
  then have "new_node h tree live a tree' ?h"
    using m(2) by (auto simp: new_node_def)
  moreover have "node_range ?n = x" "node_color ?n = c" "\<forall>d. node_child ?n d = node_nil"
    by (simp_all, simp add: node_child_def node_get_def node_nil_def split: RB_Direction.splits)
  ultimately show ?thesis using make nz by fastforce
qed

lemma node_make_oom:
  assumes "pool_inv h tree live frees pages" "rb_tree_valid tree" "test_range_valid x" "out_of_nodes h tree"
  shows "\<exists>h'. rb_tree_node_make h tree x c = Inr (0, tree, h') \<and> heap_nodes h' = heap_nodes h \<and> pool_inv h' tree live frees pages"
  using node_memory_oom [OF assms(1,4)] assms(2,3) by (auto simp: rb_tree_node_make_def)

section \<open>Giving nodes back\<close>

lemma node_free_one:
  assumes inv: "pool_inv h tree live frees pages" and v: "rb_tree_valid tree"
    and a: "a \<in> live" "ok_ptr a" "heap_nodes h a = Some n"
  shows "\<exists>h'. rb_tree_node_free (Suc fuel) h tree a False = Inr (tree\<lparr> free_list := a \<rparr>, h')
     \<and> (\<forall>b. b \<noteq> a \<longrightarrow> heap_nodes h' b = heap_nodes h b) \<and> (\<forall>d b. list_at (heap_nodes h') d b = list_at (heap_nodes h) d b)
     \<and> pool_inv h' (tree\<lparr> free_list := a \<rparr>) (live - {a}) (a # frees) pages"
proof -
  let ?n = "n\<lparr> node_children := (node_children n)(RB_RIGHT := free_list tree) \<rparr>"
  let ?h = "h\<lparr> heap_nodes := (heap_nodes h)(a \<mapsto> ?n) \<rparr>"
  have a': "a \<notin> set frees" using inv a by (auto simp: pool_inv_def)
  have "pool_inv ?h tree live frees pages"
    by (rule pool_inv_cong [OF inv]) (use a' in \<open>auto simp: kids_def\<close>)
  then have "pool_inv ?h (tree\<lparr> free_list := a \<rparr>) (live - {a}) (a # frees) pages"
    using a a' by (auto simp: pool_inv_def)
  moreover have "rb_tree_node_free (Suc fuel) h tree a False = Inr (tree\<lparr> free_list := a \<rparr>, ?h)"
    using v a by (simp add: node_ops RB_COLOR_NEXT_FREE_def)
  moreover have "list_at (heap_nodes ?h) d b = list_at (heap_nodes h) d b" for d b
    using a by (simp add: list_at_def)
  ultimately show ?thesis by auto
qed

end
