(* ===== verification/Rb_Insert.thy ===== *)
theory Rb_Insert
  imports Rb_Pool
begin

text \<open>
  \<^verbatim>\<open>rb_insert_helper\<close> implements the insertion \<open>ins\<close> of \<open>Rb_Abstract\<close> on the heap, in each of its three
  outcomes: an overlap or a failed allocation leaves tree and list as they are, otherwise the new node is in
  the tree and in the list at the place its range has in the order.
\<close>

lemma overlaps_self: "test_range_valid x \<Longrightarrow> overlaps x x"
  by (simp add: overlaps_def)

text \<open>One level of the recursion, up to the recursive call.\<close>

lemma insert_helper_node:
  assumes v: "rb_tree_valid tree" "test_range_valid x" "node_valid anker"
    and at: "tree_at (heap_nodes h) (Bin l b c y rt)" and y: "test_range_valid y"
    and ov: "\<not> overlaps x y" and d: "e = (if test_range_compare x y > 0 then RB_RIGHT else RB_LEFT)"
    and r: "rb_insert_helper fuel h tree (root (sub e (Bin l b c y rt))) x b e = Inr (new, st, tree', h')"
  shows "rb_insert_helper (Suc fuel) h tree b x anker d =
     sbind (if st = RB_INSERT_OK then
              sbind (on_nodes h' (node_set_child (heap_nodes h') b e new)) (\<lambda>h'.
              sbind (rb_insert_fix_up (heap_nodes h') b e) (\<lambda>(node, ns). Inr (node, h'\<lparr> heap_nodes := ns \<rparr>)))
            else Inr (b, h')) (\<lambda>(node, h'').
     sbind (c_assert (node_valid node) ''node_valid(result.node)'') (\<lambda>_. Inr (node, st, tree', h'')))"
proof -
  obtain n where n: "ok_ptr b" "heap_nodes h b = Some n" "node_range n = y" using at by auto
  have cmp: "test_range_compare x y \<noteq> 0" using ov overlaps_self [OF v(2)] by auto
  have child: "node_get_child (heap_nodes h) b e = Inr (root (sub e (Bin l b c y rt)))"
    using get_child_tree [OF at, of e] by simp
  show ?thesis
    using v n cmp child r overlap_ok [OF v(2) y] ov by (simp add: node_ops Let_def flip: d)
qed

lemma insert_helper_overlap:
  assumes v: "rb_tree_valid tree" "test_range_valid x"
  shows "tree_at (heap_nodes h) t \<Longrightarrow> rb_sorted t \<Longrightarrow> overlapping x t \<Longrightarrow> node_valid anker \<Longrightarrow> height t < fuel \<Longrightarrow>
     rb_insert_helper fuel h tree (root t) x anker d = Inr (root t, RB_INSERT_OVERLAP, tree, h)"
proof (induction t arbitrary: anker fuel d)
  case (Bin l b c y rt)
  obtain k where k: "fuel = Suc k" using Bin.prems(5) by (cases fuel) auto
  have y: "test_range_valid y" "rb_sorted l" "rb_sorted rt" "ok_ptr b" using Bin.prems by (auto simp: rb_sorted_Bin)
  show ?case
  proof (cases "overlaps x y")
    case True
    obtain n where "heap_nodes h b = Some n" "node_range n = y" using Bin.prems by auto
    then show ?thesis using v True y Bin.prems(4) overlap_ok [OF v(2) y(1)] by (simp add: k node_ops)
  next
    case False
    define e where "e = (if test_range_compare x y > 0 then RB_RIGHT else RB_LEFT)"
    have "rb_insert_helper k h tree (root (sub e (Bin l b c y rt))) x b e
        = Inr (root (sub e (Bin l b c y rt)), RB_INSERT_OVERLAP, tree, h)"
      using Bin.IH Bin.prems False y by (auto simp: e_def k)
    from insert_helper_node [OF v Bin.prems(4,1) y(1) False e_def this, where d = d] show ?thesis
      using y by (simp add: k)
  qed
qed simp

lemma insert_helper_oom:
  assumes v: "rb_tree_valid tree" "test_range_valid x"
    and oom: "rb_tree_node_make h tree x RBC_RED = Inr (0, tree', h')"
  shows "tree_at (heap_nodes h) t \<Longrightarrow> rb_sorted t \<Longrightarrow> \<not> overlapping x t \<Longrightarrow> node_valid anker \<Longrightarrow> height t < fuel \<Longrightarrow>
     rb_insert_helper fuel h tree (root t) x anker d = Inr (root t, RB_INSERT_OOM, tree', h')"
proof (induction t arbitrary: anker fuel d)
  case Tip
  then obtain k where k: "fuel = Suc k" by (cases fuel) auto
  then show ?case using v oom Tip by (simp add: node_ops)
next
  case (Bin l b c y rt)
  obtain k where k: "fuel = Suc k" using Bin.prems(5) by (cases fuel) auto
  have y: "test_range_valid y" "rb_sorted l" "rb_sorted rt" "ok_ptr b" using Bin.prems by (auto simp: rb_sorted_Bin)
  define e where "e = (if test_range_compare x y > 0 then RB_RIGHT else RB_LEFT)"
  have "rb_insert_helper k h tree (root (sub e (Bin l b c y rt))) x b e
      = Inr (root (sub e (Bin l b c y rt)), RB_INSERT_OOM, tree', h')"
    using Bin.IH Bin.prems y by (auto simp: e_def k)
  from insert_helper_node [OF v Bin.prems(4,1) y(1) _ e_def this, where d = d] show ?case
    using y Bin.prems by (simp add: k)
qed

section \<open>The new node in the tree\<close>

lemma tree_frame_dom: "tree_frame A h h' \<Longrightarrow> dom h' = dom h"
proof -
  assume "tree_frame A h h'"
  then have "list_at h' RB_LEFT a = list_at h RB_LEFT a" for a by (rule tree_frame_list)
  then have "h' a = None \<longleftrightarrow> h a = None" for a
    unfolding list_at_def by (metis option.map_disc_iff)
  then show ?thesis by (simp add: dom_def)
qed

lemma kids_same:
  assumes "kids h' a = kids h a" "h a = Some n"
  shows "\<exists>n'. h' a = Some n' \<and> node_range n' = node_range n \<and> node_color n' = node_color n \<and> node_child n' = node_child n"
proof -
  obtain n' where "h' a = Some n'" "node_range n' = node_range n" "node_children n' = node_children n"
    using assms by (auto simp: kids_def)
  then show ?thesis by (simp add: node_color_def node_child_def [abs_def])
qed

lemma list_step_dom: "list_step h h' \<Longrightarrow> dom h' = dom h"
proof -
  assume "list_step h h'"
  then have "kids h' a = kids h a" for a by (simp add: list_step_def)
  then have "kids h' a = None \<longleftrightarrow> kids h a = None" for a by simp
  then have "h' a = None \<longleftrightarrow> h a = None" for a by (simp add: kids_def)
  then show ?thesis by (simp add: dom_def)
qed

lemma tree_frame_kids: "tree_frame A h h' \<Longrightarrow> a \<notin> A \<Longrightarrow> kids h' a = kids h a"
  by (simp add: tree_frame_def kids_def)

text \<open>After the recursive call has rebuilt one subtree as \<open>u\<close>, the parent is linked to it.\<close>

lemma relink:
  assumes at: "tree_at h t" "t \<noteq> Tip" "distinct (addrs t)" and k: "kids ns (root t) = kids h (root t)"
    and other: "tree_at ns (sub (rb_direction_flip e) t)" and u: "tree_at ns u" "root t \<notin> set (addrs u)"
  shows "\<exists>ns'. node_set_child ns (root t) e (root u) = Inr ns' \<and> tree_at ns' (set_sub e u t)
     \<and> tree_frame {root t} ns ns'"
proof -
  obtain l b c y rt where t: "t = Bin l b c y rt" using at by (cases t) auto
  obtain n where n: "h b = Some n" "node_range n = y" "node_color n = c" "node_child n RB_LEFT = root l"
      "node_child n RB_RIGHT = root rt" "ok_ptr b"
    using at t by auto
  obtain n' where n': "ns b = Some n'" "node_range n' = node_range n" "node_color n' = node_color n"
      "node_child n' = node_child n"
    using kids_same [OF k] t n by auto
  have "b \<notin> set (addrs l)" "b \<notin> set (addrs rt)" using at t by auto
  then show ?thesis
    using n n' u other t by (cases e) (auto simp: node_ops)
qed

text \<open>The addresses to the left and to the right of one subtree of \<open>t\<close>, when \<open>t\<close> stands between \<open>pre\<close> and \<open>post\<close>.\<close>

fun before :: "RB_Direction \<Rightarrow> ptr list \<Rightarrow> rbt \<Rightarrow> ptr list" where
  "before RB_RIGHT pre (Bin l b c y rt) = pre @ addrs l @ [b]"
| "before _ pre _ = pre"

fun after :: "RB_Direction \<Rightarrow> rbt \<Rightarrow> ptr list \<Rightarrow> ptr list" where
  "after RB_LEFT (Bin l b c y rt) post = b # addrs rt @ post"
| "after _ _ post = post"

lemma before_after:
  "t \<noteq> Tip \<Longrightarrow> before e pre t @ addrs (sub e t) @ after e t post = pre @ addrs t @ post"
  "t \<noteq> Tip \<Longrightarrow> before e pre t @ addrs u @ after e t post = pre @ addrs (set_sub e u t) @ post"
  "t \<noteq> Tip \<Longrightarrow> anker_of e (last (s # before e pre t)) (hd (after e t post @ [s])) = root t"
  by (cases e; cases t; simp add: anker_of_def)+

lemma before_after_set: "t \<noteq> Tip \<Longrightarrow> set (addrs t) = insert (root t) (set (addrs (sub e t)) \<union> set (addrs (sub (rb_direction_flip e) t)))"
  by (cases e; cases t) auto

lemma sub_apart:
  "t \<noteq> Tip \<Longrightarrow> distinct (addrs t) \<Longrightarrow> root t \<notin> set (addrs (sub e t)) \<and> set (addrs (sub e t)) \<inter> set (addrs (sub (rb_direction_flip e) t)) = {}"
  by (cases e; cases t) auto

lemma root_set_sub_mem: "t \<noteq> Tip \<Longrightarrow> root t \<in> set (addrs (set_sub e u t))"
  by (cases e; cases t) auto

lemma set_addrs_ins: "set (addrs (ins a x t)) = insert a (set (addrs t))"
  by (induction t) auto

lemma distinct_ins: "distinct (addrs t) \<Longrightarrow> a \<notin> set (addrs t) \<Longrightarrow> distinct (addrs (ins a x t))"
  by (induction t) (auto simp: set_addrs_ins)

text \<open>
  The successful case, inside the ring: the tree's addresses stand between \<open>pre\<close> and \<open>post\<close>, and \<open>a\<close> is
  the node that the memory pool will hand out.
\<close>

lemma insert_helper_ok:
  assumes v: "rb_tree_valid tree" "test_range_valid x"
    and make: "rb_tree_node_make h tree x RBC_RED = Inr (a, tree', h1)" "a \<noteq> 0" "ok_ptr a"
    and n: "heap_nodes h1 a = Some n" "node_range n = x" "node_color n = RBC_RED" "\<And>d. node_child n d = node_nil"
  shows "tree_at (heap_nodes h) t \<Longrightarrow> rb_sorted t \<Longrightarrow> \<not> overlapping x t \<Longrightarrow> height t < fuel \<Longrightarrow>
     distinct (s # pre @ addrs t @ post) \<Longrightarrow> a \<notin> set (s # pre @ addrs t @ post) \<Longrightarrow>
     (\<And>b. b \<in> set (s # pre @ addrs t @ post) \<Longrightarrow> ok_ptr b \<and> heap_nodes h1 b = heap_nodes h b) \<Longrightarrow>
     ring (heap_nodes h) s (pre @ addrs t @ post) \<Longrightarrow> node_valid anker \<Longrightarrow>
     (t = Tip \<Longrightarrow> anker = anker_of d (last (s # pre)) (hd (post @ [s]))) \<Longrightarrow>
     \<exists>ns. rb_insert_helper fuel h tree (root t) x anker d
            = Inr (root (ins a x t), RB_INSERT_OK, tree', h1\<lparr> heap_nodes := ns \<rparr>)
        \<and> tree_at ns (ins a x t) \<and> ring ns s (pre @ addrs (ins a x t) @ post)
        \<and> (\<forall>b. b \<notin> insert a (set (addrs t)) \<longrightarrow> kids ns b = kids (heap_nodes h1) b) \<and> dom ns = dom (heap_nodes h1)"
proof (induction fuel arbitrary: t anker d pre post)
  case (Suc k)
  show ?case
  proof (cases t)
    case Tip
    have r: "ring (heap_nodes h1) s (pre @ post)"
      by (rule ring_frame [where h = "heap_nodes h"]) (use Suc.prems(7,8) Tip in \<open>auto simp: list_at_def\<close>)
    obtain ns where ns: "node_insert (heap_nodes h1) a anker d = Inr ns" "list_step (heap_nodes h1) ns" "ring ns s (pre @ a # post)"
      using node_insert_ring [OF make(3) _ n(1) _ r, of anker d] Suc.prems Tip by auto
    obtain n' where "ns a = Some n'" "node_range n' = x" "node_color n' = RBC_RED" "\<And>d. node_child n' d = node_nil"
      using kids_same [OF spec [OF ns(2) [unfolded list_step_def], of a] n(1)] n by auto
    then show ?thesis
      using list_step_dom [OF ns(2)] v make ns Suc.prems(9) by (auto simp: Tip node_ops on_nodes_def list_step_def)
  next
    case (Bin l b c y rt)
    define e where "e = (if test_range_compare x y > 0 then RB_RIGHT else RB_LEFT)"
    define u where "u = ins a x (sub e t)"
    let ?pre = "before e pre t" and ?post = "after e t post"
    have t: "t \<noteq> Tip" "root t = b" using Bin by auto
    have ov: "\<not> overlaps x y" "\<not> overlapping x (sub e t)" using Suc.prems(3) Bin by (auto simp: e_def)
    have y: "test_range_valid y" "rb_sorted (sub e t)" "ok_ptr b" using Suc.prems(1,2) Bin by (auto simp: rb_sorted_Bin e_def)
    have ba: "?pre @ addrs (sub e t) @ ?post = pre @ addrs t @ post" using before_after(1) t by simp
    have hs: "height (sub e t) < k" using Suc.prems(4) Bin by (auto simp: e_def)
    obtain ns where ns: "rb_insert_helper k h tree (root (sub e t)) x b e = Inr (root u, RB_INSERT_OK, tree', h1\<lparr> heap_nodes := ns \<rparr>)"
        "tree_at ns u" "ring ns s (?pre @ addrs u @ ?post)"
        "\<And>b. b \<notin> insert a (set (addrs (sub e t))) \<Longrightarrow> kids ns b = kids (heap_nodes h1) b" "dom ns = dom (heap_nodes h1)"
      using Suc.IH [OF _ y(2) ov(2) hs, of ?pre ?post b e] Suc.prems(1,5-8) y(3) before_after(3) [OF t(1), of e s pre post] t
      unfolding ba u_def by auto
    have dt: "distinct (addrs t)" "a \<notin> set (addrs t)" using Suc.prems(5,6) by auto
    have old: "kids (heap_nodes h1) q = kids (heap_nodes h) q" if "q \<in> set (addrs t)" for q
      using Suc.prems(7) [of q] that by (simp add: kids_def)
    have same: "kids ns q = kids (heap_nodes h) q" if "q \<in> set (addrs t)" "q \<notin> set (addrs (sub e t))" for q
      using ns(4) [of q] old that dt(2) by auto
    have ins: "ins a x t = insert_fix e (set_sub e u t)" by (simp add: Bin u_def e_def)
    have u: "root t \<notin> set (addrs u)" "distinct (addrs (set_sub e u t))"
      using dt sub_apart [OF t(1) dt(1), of e] distinct_ins [OF dt, of x] before_after_set [OF t(1), of e]
      by (auto simp: u_def set_addrs_ins ins [unfolded u_def])
    have "kids ns (root t) = kids (heap_nodes h) (root t)" "tree_at ns (sub (rb_direction_flip e) t)"
      using same sub_apart [OF t(1) dt(1), of e] before_after_set [OF t(1), of e]
        tree_at_kids [of "sub (rb_direction_flip e) t" ns "heap_nodes h"] Suc.prems(1) by auto
    then obtain ns1 where ns1: "node_set_child ns b e (root u) = Inr ns1" "tree_at ns1 (set_sub e u t)" "tree_frame {b} ns ns1"
      using relink [OF Suc.prems(1) t(1) dt(1) _ _ ns(2) u(1)] t(2) by auto
    obtain ns2 where ns2: "rb_insert_fix_up ns1 b e = Inr (root (ins a x t), ns2)" "tree_step ns1 (set_sub e u t) ns2 (ins a x t)"
      using insert_fix_up_tree [OF ns1(2) _ u(2), of e] t ins by auto
    have fr: "tree_frame (set (addrs (ins a x t))) ns ns2"
      using ns1(3) ns2(2) tree_frame_trans [of "{b}" ns ns1] t root_set_sub_mem [OF t(1), of e u]
      by (auto simp: tree_step_def)
    have "rb_insert_helper (Suc k) h tree b x anker d = Inr (root (ins a x t), RB_INSERT_OK, tree', h1\<lparr> heap_nodes := ns2 \<rparr>)"
      using insert_helper_node [OF v Suc.prems(9,1) [unfolded Bin] y(1) ov(1) e_def ns(1) [unfolded Bin], where d = d]
        ns1(1) ns2(1) tree_at_root [OF tree_step_at [OF ns2(2)]]
      by (simp add: on_nodes_def)
    moreover have "ring ns2 s (pre @ addrs (ins a x t) @ post)"
      using ns(3) ns2(2) before_after(2) [OF t(1), of e pre u post] ring_frame [of ns] tree_frame_list [OF fr]
      by (auto simp: tree_step_def)
    moreover have "kids ns2 q = kids (heap_nodes h1) q" if "q \<notin> insert a (set (addrs t))" for q
      using tree_frame_kids [OF fr, of q] ns(4) [of q] that sub_addrs [of e t] by (auto simp: set_addrs_ins)
    ultimately show ?thesis
      using tree_step_at [OF ns2(2)] tree_frame_dom [OF fr] ns(5) t(2) by auto
  qed
qed simp

end
