(* ===== verification/Rb_Delete.thy ===== *)
theory Rb_Delete
  imports Rb_Insert
begin

text \<open>
  \<^verbatim>\<open>rb_delete_helper\<close> implements the deletion \<open>del\<close> of \<open>Rb_Abstract\<close> on the heap: the node that \<open>del\<close> takes
  out leaves the list and goes to the free list, and nodes outside the tree keep their ranges and children.
\<close>

section \<open>The rightmost node\<close>

lemma rightmost_tree:
  "tree_at h t \<Longrightarrow> t \<noteq> Tip \<Longrightarrow> height t \<le> fuel \<Longrightarrow>
   rb_rightmost fuel h (root t) = Inr (last (addrs t)) \<and> range_at h (last (addrs t)) (max_range t)"
proof (induction fuel arbitrary: t)
  case (Suc k)
  then obtain l a c r rt where t: "t = Bin l a c r rt" by (cases t) auto
  show ?case
  proof (cases rt)
    case Tip
    then show ?thesis using Suc.prems has_child_tree [OF Suc.prems(1,2), of RB_RIGHT] by (auto simp: t range_at_def)
  next
    case (Bin l' a' c' r' rt')
    have "rb_rightmost k h (root rt) = Inr (last (addrs rt)) \<and> range_at h (last (addrs rt)) (max_range rt)"
      using Suc.IH [of rt] Suc.prems t Bin by simp
    then show ?thesis
      using has_child_tree [OF Suc.prems(1,2), of RB_RIGHT] get_child_tree [OF Suc.prems(1,2), of RB_RIGHT] Bin
      by (simp add: t)
  qed
qed (auto split: rbt.splits elim: height.elims)

section \<open>Results\<close>

text \<open>What a deletion in the subtree \<open>t\<close>, which stands between \<open>pre\<close> and \<open>post\<close> in the list, has to give.\<close>

definition delete_result ::
    "rb_heap \<Rightarrow> RB_Tree \<Rightarrow> ptr set \<Rightarrow> ptr list \<Rightarrow> ptr \<Rightarrow> ptr list \<Rightarrow> ptr list \<Rightarrow> rbt \<Rightarrow> rbt \<Rightarrow> ptr option
       \<Rightarrow> RB_Tree \<Rightarrow> rb_heap \<Rightarrow> bool" where
  "delete_result h tree live pages s pre post t t' b tree' h' \<longleftrightarrow>
     tree_at (heap_nodes h') t' \<and> ring (heap_nodes h') s (pre @ addrs t' @ post)
     \<and> (\<exists>frees. pool_inv h' tree' (live - set_option b) frees pages)
     \<and> (\<forall>q. q \<notin> set (addrs t) \<longrightarrow> kids (heap_nodes h') q = kids (heap_nodes h) q)
     \<and> (\<exists>f. tree' = tree\<lparr> free_list := f \<rparr>)"

lemma pool_inv_frame:
  assumes "pool_inv h tree live frees pages" "tree_frame A (heap_nodes h) ns" "A \<inter> set frees = {}"
  shows "pool_inv (h\<lparr> heap_nodes := ns \<rparr>) tree live frees pages"
proof -
  have "kids ns a = kids (heap_nodes h) a" if "a \<in> set frees" for a
    using tree_frame_kids [OF assms(2), of a] assms(3) that by blast
  then show ?thesis
    using tree_frame_dom [OF assms(2)] by (intro pool_inv_cong [OF assms(1)]) simp_all
qed

text \<open>A later step on the tree keeps the result.\<close>

lemma delete_result_step:
  assumes r: "delete_result h tree live pages s pre post t t1 b tree' h'"
    and st: "tree_at ns t2" "addrs t2 = addrs t1" "tree_frame (set (addrs t1)) (heap_nodes h') ns"
    and sub: "set (addrs t1) \<subseteq> set (addrs t) \<inter> (live - set_option b)"
  shows "delete_result h tree live pages s pre post t t2 b tree' (h'\<lparr> heap_nodes := ns \<rparr>)"
proof -
  obtain frees where inv: "pool_inv h' tree' (live - set_option b) frees pages" using r by (auto simp: delete_result_def)
  then have "set (addrs t1) \<inter> set frees = {}" using sub by (auto simp: pool_inv_def)
  then have "pool_inv (h'\<lparr> heap_nodes := ns \<rparr>) tree' (live - set_option b) frees pages"
    by (rule pool_inv_frame [OF inv st(3)])
  moreover have "ring ns s (pre @ addrs t2 @ post)"
    using r st(2) by (auto simp: delete_result_def intro: ring_frame [where h = "heap_nodes h'"] tree_frame_list [OF st(3)])
  moreover have "kids ns q = kids (heap_nodes h) q" if "q \<notin> set (addrs t)" for q
    using r tree_frame_kids [OF st(3), of q] sub that by (auto simp: delete_result_def)
  ultimately show ?thesis using r st(1) by (auto simp: delete_result_def)
qed

section \<open>A node with at most one child\<close>

lemma delete_leaf_tree:
  assumes v: "rb_tree_valid tree" and at: "tree_at (heap_nodes h) t" and t: "t = Bin l a c r rt" "l = Tip \<or> rt = Tip"
    and d: "distinct (s # pre @ addrs t @ post)" and ring: "ring (heap_nodes h) s (pre @ addrs t @ post)"
    and inv: "pool_inv h tree live frees pages" and live: "set (addrs t) \<subseteq> live"
    and del: "del r t = (t', st)"
  shows "\<exists>tree' h'. rb_delete_leaf h tree a = Inr (root t', st, tree', h')
     \<and> delete_result h tree live pages s pre post t t' (Some a) tree' h'"
proof -
  define temp where "temp = (if rt \<noteq> Tip then rt else l)"
  have adr: "addrs t = addrs l @ a # addrs rt" "addrs temp = addrs l @ addrs rt" using t by (auto simp: temp_def)
  have tmp: "tree_at (heap_nodes h) temp" "distinct (addrs temp)" "ok_ptr a" using at d t adr by (auto simp: temp_def)
  have t': "addrs t' = addrs temp" "root t' = root temp" "c = RBC_BLACK \<and> red temp \<longrightarrow> t' = paint RBC_BLACK temp"
    "\<not> (c = RBC_BLACK \<and> red temp) \<longrightarrow> t' = temp"
    using del t by (auto simp: temp_def Let_def split: if_splits)
  have "\<exists>ns. (if c = RBC_RED then Inr (RB_DELETE_OK, h)
        else if red temp then sbind (on_nodes h (node_set_color (heap_nodes h) (root temp) RBC_BLACK)) (\<lambda>h. Inr (RB_DELETE_OK, h))
        else Inr (RB_DELETE_FAIL, h)) = Inr (st, h\<lparr> heap_nodes := ns \<rparr>)
     \<and> tree_at ns t' \<and> tree_frame (set (addrs temp)) (heap_nodes h) ns"
  proof (cases "c = RBC_BLACK \<and> red temp")
    case True
    then have "temp \<noteq> Tip" by auto
    then obtain ns where "node_set_color (heap_nodes h) (root temp) RBC_BLACK = Inr ns" "tree_step (heap_nodes h) temp ns t'"
      using set_color_tree [OF tmp(1) _ tmp(2), of RBC_BLACK] t'(3) True by auto
    moreover have "st = RB_DELETE_OK" using del t True by (auto simp: temp_def Let_def split: if_splits)
    ultimately show ?thesis using True by (auto simp: on_nodes_def tree_step_def)
  next
    case False
    then have "(st = RB_DELETE_OK) = (c = RBC_RED)" using del t by (auto simp: temp_def Let_def split: if_splits)
    then show ?thesis using False t'(4) tmp(1) by (intro exI [of _ "heap_nodes h"]) (cases st; auto)
  qed
  then obtain ns where ns: "(if c = RBC_RED then Inr (RB_DELETE_OK, h)
        else if red temp then sbind (on_nodes h (node_set_color (heap_nodes h) (root temp) RBC_BLACK)) (\<lambda>h. Inr (RB_DELETE_OK, h))
        else Inr (RB_DELETE_FAIL, h)) = Inr (st, h\<lparr> heap_nodes := ns \<rparr>)"
      "tree_at ns t'" "tree_frame (set (addrs temp)) (heap_nodes h) ns" by blast
  have r: "ring ns s ((pre @ addrs l) @ a # addrs rt @ post)"
    using ring adr(1) by (auto intro: ring_frame [where h = "heap_nodes h"] tree_frame_list [OF ns(3)])
  obtain ns2 where ns2: "node_remove_from_list ns a = Inr ns2" "list_step ns ns2" "ring ns2 s (pre @ addrs t' @ post)"
    using node_remove_ring [OF tmp(3) r] d adr t'(1) by auto
  have live': "a \<in> live" "set (addrs temp) \<inter> set frees = {}" using live inv adr by (auto simp: pool_inv_def)
  have k: "kids ns2 q = kids (heap_nodes h) q" if "q \<notin> set (addrs temp)" for q
    using ns2(2) tree_frame_kids [OF ns(3) that] by (simp add: list_step_def)
  have "pool_inv (h\<lparr> heap_nodes := ns2 \<rparr>) tree live frees pages"
    by (rule pool_inv_cong [OF inv]) (use live'(2) k list_step_dom [OF ns2(2)] tree_frame_dom [OF ns(3)] in auto)
  moreover have "a \<in> dom ns2"
    using tree_at_addrs [OF at, of a] adr unfolding list_step_dom [OF ns2(2)] tree_frame_dom [OF ns(3)] by auto
  then obtain n2 where "ns2 a = Some n2" by blast
  ultimately obtain h3 where h3: "rb_tree_node_free 1 (h\<lparr> heap_nodes := ns2 \<rparr>) tree a False = Inr (tree\<lparr> free_list := a \<rparr>, h3)"
      "\<And>b. b \<noteq> a \<Longrightarrow> heap_nodes h3 b = ns2 b" "\<And>d b. list_at (heap_nodes h3) d b = list_at ns2 d b"
      "pool_inv h3 (tree\<lparr> free_list := a \<rparr>) (live - {a}) (a # frees) pages"
    using node_free_one [of "h\<lparr> heap_nodes := ns2 \<rparr>" tree live frees pages a n2 0] v live'(1) tmp(3) by auto
  have tp: "a \<notin> set (addrs t')" using d adr t'(1) by auto
  have "tree_at ns2 t'" using ns(2) list_step_tree [OF ns2(2)] by simp
  moreover have "tree_at (heap_nodes h3) t' = tree_at ns2 t'"
    by (rule tree_at_kids) (metis h3(2) tp kids_def)
  ultimately have at3: "tree_at (heap_nodes h3) t'" by simp
  have "ring (heap_nodes h3) s (pre @ addrs t' @ post)"
    using ns2(3) h3(3) ring_frame by blast
  moreover have "kids (heap_nodes h3) q = kids (heap_nodes h) q" if "q \<notin> set (addrs t)" for q
    using k [of q] h3(2) [of q] that adr by (auto simp: kids_def)
  ultimately have res: "delete_result h tree live pages s pre post t t' (Some a) (tree\<lparr> free_list := a \<rparr>) h3"
    using at3 h3(4) by (auto simp: delete_result_def)
  have reads: "node_has_child (heap_nodes h) a RB_LEFT = Inr (l \<noteq> Tip)" "node_has_child (heap_nodes h) a RB_RIGHT = Inr (rt \<noteq> Tip)"
      "node_get_child (heap_nodes h) a RB_LEFT = Inr (root l)" "node_get_child (heap_nodes h) a RB_RIGHT = Inr (root rt)"
      "node_red (heap_nodes h) a = Inr (c = RBC_RED)"
    using has_child_tree [OF at] get_child_tree [OF at] node_red_tree [OF at] t by fastforce+
  have pick: "(if rt \<noteq> Tip then Inr (root rt) else if l \<noteq> Tip then Inr (root l) else Inr node_nil) = (Inr (root temp) :: ptr result)"
    by (auto simp: temp_def)
  define h1 where "h1 = h\<lparr> heap_nodes := ns \<rparr>"
  have h1: "node_remove_from_list (heap_nodes h1) a = Inr ns2" "h1\<lparr> heap_nodes := ns2 \<rparr> = h\<lparr> heap_nodes := ns2 \<rparr>"
    using ns2(1) by (simp_all add: h1_def)
  have "rb_delete_leaf h tree a = Inr (root temp, st, tree\<lparr> free_list := a \<rparr>, h3)"
    using reads ns(1) [folded h1_def] h1(1) h3(1) [folded h1(2)] tree_at_root [OF tmp(1)] node_red_tree [OF tmp(1)] t(2) pick
    by (cases "l = Tip"; cases "rt = Tip"; cases c; cases "red temp")
      (auto simp: rb_delete_leaf_def Let_def on_nodes_def simp del: rb_tree_node_free.simps split: sum.splits)
  then show ?thesis using res t'(2) by metis
qed

section \<open>The way back up\<close>

lemma delete_tail:
  assumes at: "tree_at (heap_nodes h) t" "t \<noteq> Tip" "distinct (addrs t)" and live: "set (addrs t) \<subseteq> live"
    and res: "delete_result h tree live pages s (before e pre t) (after e t post) (sub e t) u b tree' h1"
    and u: "set (addrs u) = set (addrs (sub e t)) - set_option b" "distinct (addrs u)" "set_option b \<subseteq> set (addrs (sub e t))"
    and st: "(if st1 = RB_DELETE_OK then (set_sub e u t, RB_DELETE_OK) else delete_fix e (set_sub e u t)) = (t', st)"
  shows "\<exists>h'. sbind (on_nodes h1 (node_set_child (heap_nodes h1) (root t) e (root u))) (\<lambda>h.
         sbind (if st1 = RB_DELETE_OK then Inr (root t, RB_DELETE_OK, h)
                else sbind (rb_delete_fix_up (heap_nodes h) (root t) e) (\<lambda>(node, status, ns).
                  Inr (node, status, h\<lparr> heap_nodes := ns \<rparr>))) (\<lambda>(node, status, h).
         sbind (c_assert (node_valid node) ''node_valid(result.node)'') (\<lambda>_.
         Inr (node, status, tree', h)))) = Inr (root t', st, tree', h')
     \<and> delete_result h tree live pages s pre post t t' b tree' h'"
proof -
  have ap: "root t \<notin> set (addrs (sub e t))" "set (addrs (sub e t)) \<inter> set (addrs (sub (rb_direction_flip e) t)) = {}"
    using sub_apart [OF at(2,3)] by auto
  note parts = before_after_set [OF at(2), of e]
  have same: "kids (heap_nodes h1) q = kids (heap_nodes h) q" if "q \<notin> set (addrs (sub e t))" for q
    using res that by (simp add: delete_result_def)
  have other: "tree_at (heap_nodes h1) (sub (rb_direction_flip e) t)"
    using tree_at_kids [of "sub (rb_direction_flip e) t" "heap_nodes h1" "heap_nodes h"] same ap(2) sub_tree [OF at(1)] by auto
  have "tree_at (heap_nodes h1) u" using res by (simp add: delete_result_def)
  then obtain ns1 where ns1: "node_set_child (heap_nodes h1) (root t) e (root u) = Inr ns1" "tree_at ns1 (set_sub e u t)"
      "tree_frame {root t} (heap_nodes h1) ns1"
    using relink [OF at same [OF ap(1)] other _, of u] ap u by auto
  obtain frees where inv: "pool_inv h1 tree' (live - set_option b) frees pages" using res by (auto simp: delete_result_def)
  have "root t \<notin> set_option b" using ap(1) u(3) by auto
  then have "root t \<notin> set frees" using inv live parts by (auto simp: pool_inv_def)
  then have "pool_inv (h1\<lparr> heap_nodes := ns1 \<rparr>) tree' (live - set_option b) frees pages"
    using pool_inv_frame [OF inv ns1(3)] by simp
  moreover have "ring ns1 s (pre @ addrs (set_sub e u t) @ post)"
    using res before_after(2) [OF at(2), of e pre u post] tree_frame_list [OF ns1(3)]
    by (auto simp: delete_result_def intro: ring_frame [where h = "heap_nodes h1"])
  moreover have "kids ns1 q = kids (heap_nodes h) q" if "q \<notin> set (addrs t)" for q
    using tree_frame_kids [OF ns1(3), of q] same [of q] that parts by auto
  ultimately have res1: "delete_result h tree live pages s pre post t (set_sub e u t) b tree' (h1\<lparr> heap_nodes := ns1 \<rparr>)"
    using ns1(2) res by (auto simp: delete_result_def)
  show ?thesis
  proof (cases st1)
    case RB_DELETE_OK
    then show ?thesis using st res1 ns1(1) tree_at_root [OF at(1)] by (auto simp: on_nodes_def)
  next
    case RB_DELETE_FAIL
    have set: "set (addrs (set_sub e u t)) = insert (root t) (set (addrs u) \<union> set (addrs (sub (rb_direction_flip e) t)))"
      using at(2) by (cases e; cases t) auto
    have d: "distinct (addrs (set_sub e u t))" using at(2,3) u(1,2) ap by (cases e; cases t) auto
    obtain ns2 where ns2: "rb_delete_fix_up ns1 (root t) e = Inr (root t', st, ns2)" "tree_step ns1 (set_sub e u t) ns2 t'"
      using delete_fix_up_tree [OF ns1(2) _ d, of e t' st] at(2) st RB_DELETE_FAIL by auto
    have "delete_result h tree live pages s pre post t t' b tree' (h1\<lparr> heap_nodes := ns1, heap_nodes := ns2 \<rparr>)"
      by (rule delete_result_step [OF res1])
        (use ns2(2) set u ap live parts in \<open>auto simp: tree_step_def\<close>)
    then show ?thesis
      using ns1(1) ns2 RB_DELETE_FAIL tree_at_root [OF tree_step_at [OF ns2(2)]] by (auto simp: on_nodes_def)
  qed
qed

section \<open>The recursion\<close>

lemma del_set:
  assumes "rb_sorted t" "distinct (addrs t)"
  shows "set (addrs (fst (del x t))) = set (addrs t) - set_option (del_addr x t)"
    and "distinct (addrs (fst (del x t)))" and "set_option (del_addr x t) \<subseteq> set (addrs t)"
proof -
  show "set_option (del_addr x t) \<subseteq> set (addrs t)"
    using del_addr_mem [OF assms(1), of x] del_addr_None [OF assms(1), of x] by (cases "x \<in> set (ranges t)") auto
  show "set (addrs (fst (del x t))) = set (addrs t) - set_option (del_addr x t)"
    and "distinct (addrs (fst (del x t)))"
    using del_addrs [OF assms, of x] assms(2) by (auto split: option.splits)
qed

text \<open>The recursive step of \<open>del\<close> into the subtree \<open>e\<close>, when the node itself stays.\<close>

lemma del_sub:
  assumes "t = Bin l a c r rt" and "e = (if test_range_compare x r > 0 then RB_RIGHT else RB_LEFT)" "r \<noteq> x"
  shows "del x t = (let (u, st) = del x (sub e t) in if st = RB_DELETE_OK then (set_sub e u t, RB_DELETE_OK) else delete_fix e (set_sub e u t))"
    and "del_addr x t = del_addr x (sub e t)"
  using assms by (auto simp: Let_def split: prod.splits)

lemma delete_helper_tree:
  assumes "rb_tree_valid tree" "test_range_valid x" "tree_at (heap_nodes h) t" "rb_sorted t" "height t < fuel"
    "distinct (s # pre @ addrs t @ post)" "ring (heap_nodes h) s (pre @ addrs t @ post)"
    "pool_inv h tree live frees pages" "set (addrs t) \<subseteq> live" "del x t = (t', st)"
  shows "\<exists>tree' h'. rb_delete_helper fuel h tree (root t) x = Inr (root t', st, tree', h')
     \<and> delete_result h tree live pages s pre post t t' (del_addr x t) tree' h'"
  using assms
proof (induction fuel arbitrary: x h t pre post t' st)
  case (Suc k)
  note v = Suc.prems(1,2) and at = Suc.prems(3) and sorted = Suc.prems(4) and ring = Suc.prems(7) and inv = Suc.prems(8)
  show ?case
  proof (cases t)
    case Tip
    then show ?thesis using v ring inv Suc.prems(10) by (auto simp: node_ops delete_result_def intro!: exI [of _ "free_list tree"])
  next
    case (Bin l a c r rt)
    have nt: "t \<noteq> Tip" "root t = a" using Bin by auto
    obtain n where n: "heap_nodes h a = Some n" "node_range n = r" "ok_ptr a" using at Bin by auto
    have dt: "distinct (addrs t)" using Suc.prems(6) by simp
    note reads = has_child_tree [OF at nt(1), unfolded nt(2)] get_child_tree [OF at nt(1), unfolded nt(2)]
    consider (leaf) "r = x" "l = Tip \<or> rt = Tip" | (both) "r = x" "l \<noteq> Tip" "rt \<noteq> Tip" | (down) "r \<noteq> x" by blast
    then show ?thesis
    proof cases
      case leaf
      then have "rb_delete_helper (Suc k) h tree a x = rb_delete_leaf h tree a"
        using v n reads Bin by (auto simp: node_ops)
      then show ?thesis
        using delete_leaf_tree [OF v(1) at Bin leaf(2) Suc.prems(6-9), of t' st] Suc.prems(10) leaf Bin by auto
    next
      case down
      define e where "e = (if test_range_compare x r > 0 then RB_RIGHT else RB_LEFT)"
      obtain u st1 where u: "del x (sub e t) = (u, st1)" by fastforce
      have so: "rb_sorted (sub e t)" "height (sub e t) < k" using sorted Suc.prems(5) Bin by (cases e; auto simp: rb_sorted_Bin)+
      have lv: "set (addrs (sub e t)) \<subseteq> live" using sub_addrs [of e t] Suc.prems(9) by blast
      obtain tree' h1 where h1: "rb_delete_helper k h tree (root (sub e t)) x = Inr (root u, st1, tree', h1)"
          "delete_result h tree live pages s (before e pre t) (after e t post) (sub e t) u (del_addr x t) tree' h1"
        using Suc.IH [OF v sub_tree [OF at] so _ _ inv lv u, of "before e pre t" "after e t post"] Suc.prems(6) ring
          before_after(1) [OF nt(1)] del_sub(2) [OF Bin e_def down] by auto
      have st: "(if st1 = RB_DELETE_OK then (set_sub e u t, RB_DELETE_OK) else delete_fix e (set_sub e u t)) = (t', st)"
        using Suc.prems(10) del_sub(1) [OF Bin e_def down] u by simp
      note us = del_set [OF so(1) sub_distinct [OF dt], of x, unfolded u fst_conv, folded del_sub(2) [OF Bin e_def down]]
      have cmp: "test_range_compare r x \<noteq> 0" using down by simp
      from delete_tail [OF at nt(1) dt Suc.prems(9) h1(2) us st] obtain h' where tl: "sbind (on_nodes h1 (node_set_child (heap_nodes h1) a e (root u))) (\<lambda>h.
         sbind (if st1 = RB_DELETE_OK then Inr (a, RB_DELETE_OK, h)
                else sbind (rb_delete_fix_up (heap_nodes h) a e) (\<lambda>(node, status, ns).
                  Inr (node, status, h\<lparr> heap_nodes := ns \<rparr>))) (\<lambda>(node, status, h).
         sbind (c_assert (node_valid node) ''node_valid(result.node)'') (\<lambda>_.
         Inr (node, status, tree', h)))) = Inr (root t', st, tree', h')"
        "delete_result h tree live pages s pre post t t' (del_addr x t) tree' h'"
        unfolding nt(2) by blast
      have dir: "0 < test_range_compare x r \<longleftrightarrow> e = RB_RIGHT" by (simp add: e_def)
      have "rb_delete_helper (Suc k) h tree a x = Inr (root t', st, tree', h')"
        using v n reads(2) [of e] cmp h1(1) tl(1) dir
        by (cases e; hypsubst) (simp_all add: node_ops Let_def)
      then show ?thesis using tl(2) nt(2) by auto
    next
      case both
      define y where "y = max_range l"
      define h0 where "h0 = h\<lparr> heap_nodes := (heap_nodes h)(a \<mapsto> n\<lparr> node_range := y \<rparr>) \<rparr>"
      define t0 where "t0 = Bin l a c y rt"
      obtain u st1 where u: "del y l = (u, st1)" by fastforce
      have so: "rb_sorted l" "height l < k" "tree_at (heap_nodes h) l" using sorted Suc.prems(5) at Bin by (auto simp: rb_sorted_Bin)
      have dl: "distinct (addrs t0)" "addrs t0 = addrs t" "t0 \<noteq> Tip" "root t0 = a" using dt Bin by (auto simp: t0_def)
      have at0: "tree_at (heap_nodes h0) t0" using at n Bin dt
        by (auto simp: t0_def h0_def node_color_def node_child_def)
      have ring0: "ring (heap_nodes h0) s (pre @ addrs t @ post)"
        by (rule ring_frame [OF ring]) (use n(1) in \<open>simp add: h0_def list_at_def\<close>)
      have "a \<in> live" using Suc.prems(9) Bin by auto
      then have "a \<notin> set frees" using inv by (auto simp: pool_inv_def)
      then have inv0: "pool_inv h0 tree live frees pages"
        by (intro pool_inv_cong [OF inv]) (auto simp: h0_def kids_def)
      have yv: "test_range_valid y"
        using max_range_last [OF both(2)] so(1) by (auto simp: y_def intro: sorted_valid)
      obtain tree' h1 where h1: "rb_delete_helper k h0 tree (root l) y = Inr (root u, st1, tree', h1)"
          "delete_result h0 tree live pages s (before RB_LEFT pre t0) (after RB_LEFT t0 post) (sub RB_LEFT t0) u (del_addr y l) tree' h1"
        using Suc.IH [OF v(1) yv _ so(1,2) _ _ inv0 _ u, of pre "a # addrs rt @ post"] at0 ring0 Suc.prems(6,9) Bin
        by (auto simp: t0_def)
      have st: "(if st1 = RB_DELETE_OK then (set_sub RB_LEFT u t0, RB_DELETE_OK) else delete_fix RB_LEFT (set_sub RB_LEFT u t0)) = (t', st)"
        using Suc.prems(10) both u Bin by (simp add: t0_def y_def Let_def split: if_splits)
      have us: "set (addrs u) = set (addrs (sub RB_LEFT t0)) - set_option (del_addr y l)" "distinct (addrs u)"
          "set_option (del_addr y l) \<subseteq> set (addrs (sub RB_LEFT t0))"
        using del_set [OF so(1), of y] dl(1) u by (auto simp: t0_def)
      from delete_tail [OF at0 dl(3,1) _ h1(2) us st] obtain h' where tl: "sbind (on_nodes h1 (node_set_child (heap_nodes h1) a RB_LEFT (root u))) (\<lambda>h.
         sbind (if st1 = RB_DELETE_OK then Inr (a, RB_DELETE_OK, h)
                else sbind (rb_delete_fix_up (heap_nodes h) a RB_LEFT) (\<lambda>(node, status, ns).
                  Inr (node, status, h\<lparr> heap_nodes := ns \<rparr>))) (\<lambda>(node, status, h).
         sbind (c_assert (node_valid node) ''node_valid(result.node)'') (\<lambda>_.
         Inr (node, status, tree', h)))) = Inr (root t', st, tree', h')"
        "delete_result h0 tree live pages s pre post t0 t' (del_addr y l) tree' h'"
        unfolding dl(2,4) using Suc.prems(9) by blast
      have rm: "rb_rightmost k (heap_nodes h) (root l) = Inr (last (addrs l))" "range_at (heap_nodes h) (last (addrs l)) y"
        using rightmost_tree [OF so(3) both(2), of k] so(2) by (simp_all add: y_def)
      then obtain m where m: "heap_nodes h (last (addrs l)) = Some m" "node_range m = y" by (auto simp: range_at_def)
      have "addrs l \<noteq> []" using both(2) by (cases l) auto
      then have "linked (heap_nodes h) (last (addrs l)) a"
        using ring_split_node [of "heap_nodes h" s "pre @ addrs l" a "addrs rt @ post"] ring Bin by simp
      then have "node_list m RB_RIGHT = a" using m by (simp add: linked_def list_at_Some)
      then have "rb_delete_helper (Suc k) h tree a x = Inr (root t', st, tree', h')"
        using v n reads both Bin rm(1) m h1(1) tl(1) get_child_tree [OF at0 dl(3), of RB_LEFT]
        by (simp add: node_ops Let_def t0_def flip: h0_def) (simp add: node_ops h0_def)
      moreover have "delete_result h tree live pages s pre post t t' (del_addr x t) tree' h'"
        using tl(2) both Bin dl(2) by (auto simp: delete_result_def h0_def kids_def y_def)
      ultimately show ?thesis using nt(2) by auto
    qed
  qed
qed simp

end
