(* ===== verification/Rb_Spec.thy ===== *)
theory Rb_Spec
  imports Rb_Delete
begin

text \<open>
  What the operations of \<^verbatim>\<open>experiments/rbtree.c\<close> promise to their caller. \<open>rb_rep h tree t\<close> is the representation
  invariant: the heap holds the balanced, sorted tree \<open>t\<close>, the list runs over its nodes in order and the memory pool
  accounts for every node. Every operation keeps it, returns, and acts on the sorted list of ranges like the
  obvious list function. All addresses of the tree are distinct 64-bit words, so the height is at most 128 and a fuel
  of 129 is enough for the recursions and loops that go down the tree.
\<close>

section \<open>The representation\<close>

definition rb_rep :: "rb_heap \<Rightarrow> RB_Tree \<Rightarrow> rbt \<Rightarrow> bool" where
  "rb_rep h tree t \<longleftrightarrow>
     rb_tree_valid tree \<and> tree_root tree = root t \<and> ok_ptr (tree_list tree)
     \<and> tree_at (heap_nodes h) t \<and> rb_sorted t \<and> rb_balanced t
     \<and> distinct (tree_list tree # addrs t) \<and> ring (heap_nodes h) (tree_list tree) (addrs t)
     \<and> (\<exists>frees pages. pool_inv h tree (set (addrs t)) frees pages)"

definition rb_fuel :: nat where
  "rb_fuel = 129"

lemma height_bound:
  assumes "rb_balanced t" "distinct (s # addrs t)"
  shows "height t < rb_fuel"
proof -
  have "length (s # addrs t) = card (set (s # addrs t))" using assms(2) by (simp only: distinct_card)
  also have "\<dots> \<le> CARD(64 word)" by (rule card_mono) simp_all
  finally have "Suc (length (ranges t)) \<le> 2 ^ 64" by (simp only: card_word) simp
  moreover have "2 ^ bheight t \<le> Suc (length (ranges t))" using assms(1) bheight_size by (simp add: rb_balanced_def)
  ultimately have "(2::nat) ^ bheight t \<le> 2 ^ 64" by (rule order_trans [rotated])
  then have "bheight t \<le> 64" by (simp only: power_increasing_iff)
  then show ?thesis using height_bheight [of t] assms(1) by (simp add: rb_balanced_def rb_fuel_def)
qed

lemma rep_height: "rb_rep h tree t \<Longrightarrow> rb_fuel \<le> fuel \<Longrightarrow> height t < fuel"
  using height_bound [of t "tree_list tree"] by (auto simp: rb_rep_def)

lemma overlapping_addrs:
  "rb_sorted t \<Longrightarrow> test_range_valid x \<Longrightarrow> overlapping x t \<longleftrightarrow> (\<exists>r \<in> set (ranges t). range_addrs x \<inter> range_addrs r \<noteq> {})"
  using overlapping_iff [of t x] by (metis overlaps_iff sorted_valid)

section \<open>Insertion\<close>

lemma rb_insert_overlap:
  assumes rep: "rb_rep h tree t" and x: "test_range_valid x" "overlapping x t" and fuel: "height t < fuel"
  shows "rb_insert fuel h tree x = Inr (RB_INSERT_OVERLAP, tree, h)"
  using insert_helper_overlap [of tree x h t "tree_list tree" fuel RB_RIGHT] assms fuel
  by (simp add: rb_rep_def rb_insert_def)

lemma rb_insert_oom:
  assumes rep: "rb_rep h tree t" and x: "test_range_valid x" "\<not> overlapping x t" "out_of_nodes h tree"
    and fuel: "height t < fuel"
  shows "\<exists>h'. rb_insert fuel h tree x = Inr (RB_INSERT_OOM, tree, h') \<and> rb_rep h' tree t"
proof -
  obtain frees pages where inv: "pool_inv h tree (set (addrs t)) frees pages" using rep by (auto simp: rb_rep_def)
  then obtain h' where h': "rb_tree_node_make h tree x RBC_RED = Inr (0, tree, h')" "heap_nodes h' = heap_nodes h"
      "pool_inv h' tree (set (addrs t)) frees pages"
    using node_make_oom [OF inv _ x(1,3), of RBC_RED] rep by (auto simp: rb_rep_def)
  have "rb_insert fuel h tree x = Inr (RB_INSERT_OOM, tree, h')"
    using insert_helper_oom [OF _ x(1) h'(1), of t "tree_list tree" fuel RB_RIGHT] rep x fuel
    by (simp add: rb_rep_def rb_insert_def)
  then show ?thesis using rep h'(2,3) by (auto simp: rb_rep_def)
qed

lemma rb_insert_ok:
  assumes rep: "rb_rep h tree t" and x: "test_range_valid x" "\<not> overlapping x t" "\<not> out_of_nodes h tree"
    and fuel: "height t < fuel"
  shows "\<exists>a tree' h'. rb_insert fuel h tree x = Inr (RB_INSERT_OK, tree', h') \<and> rb_rep h' tree' (paint RBC_BLACK (ins a x t))"
proof -
  let ?s = "tree_list tree"
  obtain frees pages where inv: "pool_inv h tree (set (addrs t)) frees pages" using rep by (auto simp: rb_rep_def)
  have v: "rb_tree_valid tree" "tree_root tree = root t" "ok_ptr ?s" and at: "tree_at (heap_nodes h) t"
    and so: "rb_sorted t" and d: "distinct (?s # addrs t)" and ring: "ring (heap_nodes h) ?s (addrs t)"
    and bal: "rb_balanced t"
    using rep by (auto simp: rb_rep_def)
  obtain a tree' h1 n where m: "rb_tree_node_make h tree x RBC_RED = Inr (a, tree', h1)"
      "new_node h tree (set (addrs t)) a tree' h1" "a \<noteq> 0"
      and n: "heap_nodes h1 a = Some n" "node_range n = x" "node_color n = RBC_RED" "\<And>d. node_child n d = node_nil"
    using node_make_ok [OF inv v(1) x(1,3), of RBC_RED] by blast
  have nn: "ok_ptr a" "a \<notin> set (?s # addrs t)" "rb_tree_valid tree'" "tree_list tree' = ?s"
      "\<And>b. b \<in> set (?s # addrs t) \<Longrightarrow> ok_ptr b \<and> heap_nodes h1 b = heap_nodes h b"
    using m(2) v(3) tree_at_addrs [OF at] by (auto simp: new_node_def)
  let ?t = "ins a x t"
  obtain ns where ns: "rb_insert_helper fuel h tree (root t) x ?s RB_RIGHT = Inr (root ?t, RB_INSERT_OK, tree', h1\<lparr> heap_nodes := ns \<rparr>)"
      "tree_at ns ?t" "ring ns ?s (addrs ?t)" "\<And>b. b \<notin> insert a (set (addrs t)) \<Longrightarrow> kids ns b = kids (heap_nodes h1) b"
      "dom ns = dom (heap_nodes h1)"
    using insert_helper_ok [OF v(1) x(1) m(1,3) nn(1) n at so x(2) fuel, of ?s "[]" "[]" ?s RB_RIGHT]
      d nn ring v(3) by (auto simp: anker_of_def)
  have t: "?t \<noteq> Tip" "distinct (addrs ?t)" using set_addrs_ins [of a x t] distinct_ins [of t a x] d nn(2) by auto
  obtain ns2 where ns2: "node_set_color ns (root ?t) RBC_BLACK = Inr ns2" "tree_step ns ?t ns2 (paint RBC_BLACK ?t)"
    using set_color_tree [OF ns(2) t] by blast
  then have fr: "tree_frame (set (addrs ?t)) ns ns2" by (simp add: tree_step_def)
  let ?tree = "tree'\<lparr> tree_root := root ?t \<rparr>" and ?h = "h1\<lparr> heap_nodes := ns2 \<rparr>"
  obtain frees' pages' where inv': "pool_inv h1 tree' (insert a (set (addrs t))) frees' pages'"
    using m(2) by (auto simp: new_node_def)
  then have fs: "insert a (set (addrs t)) \<inter> set frees' = {}" by (simp add: pool_inv_def)
  have "pool_inv ?h ?tree (insert a (set (addrs t))) frees' pages'"
  proof (rule pool_inv_cong [OF inv'])
    show "kids (heap_nodes ?h) b = kids (heap_nodes h1) b" if "b \<in> set frees'" for b
      using that fs ns(4) [of b] tree_frame_kids [OF fr, of b] by (auto simp: set_addrs_ins)
  qed (use ns(5) tree_frame_dom [OF fr] in simp_all)
  moreover have "ring ns2 ?s (addrs ?t)" by (rule ring_frame [OF ns(3)]) (rule tree_frame_list [OF fr])
  moreover have "rb_balanced (paint RBC_BLACK ?t)"
    using ins_balance [of t a x] bal by (cases ?t) (auto simp: rb_balanced_def)
  moreover have "rb_tree_valid ?tree" using nn(3) tree_at_root [OF ns(2)] by (simp add: rb_tree_valid_def)
  moreover have "distinct (?s # addrs ?t)" using t(2) d nn(2) by (auto simp: set_addrs_ins)
  ultimately have "rb_rep ?h ?tree (paint RBC_BLACK ?t)"
    using nn(4) v(3) tree_step_at [OF ns2(2)] ins_sorted [OF so x(1,2), of a] set_addrs_ins [of a x t]
    by (auto simp: rb_rep_def)
  moreover have "rb_insert fuel h tree x = Inr (RB_INSERT_OK, ?tree, ?h)"
    using v x(1) ns(1) ns2(1) by (simp add: rb_insert_def on_nodes_def)
  ultimately show ?thesis by blast
qed


section \<open>Deletion\<close>

lemma sorted_wrt_remove1: "sorted_wrt P xs \<Longrightarrow> sorted_wrt P (remove1 x xs)"
  by (induction xs) (auto dest: set_mp [OF set_remove1_subset])

lemma rb_delete_ok:
  assumes rep: "rb_rep h tree t" and x: "test_range_valid x" and fuel: "height t < fuel"
  shows "\<exists>tree' h'. rb_delete fuel h tree x = Inr (tree', h') \<and> rb_rep h' tree' (paint RBC_BLACK (fst (del x t)))"
proof -
  let ?s = "tree_list tree"
  obtain frees pages where inv: "pool_inv h tree (set (addrs t)) frees pages" using rep by (auto simp: rb_rep_def)
  have v: "rb_tree_valid tree" "tree_root tree = root t" "ok_ptr ?s" and at: "tree_at (heap_nodes h) t"
    and so: "rb_sorted t" and d: "distinct (?s # addrs t)" and ring: "ring (heap_nodes h) ?s (addrs t)"
    and bal: "rb_balanced t"
    using rep by (auto simp: rb_rep_def)
  obtain u st where u: "del x t = (u, st)" by fastforce
  have du: "set (addrs u) = set (addrs t) - set_option (del_addr x t)" "distinct (addrs u)"
    using del_set [OF so, of x] d u by auto
  obtain tree1 h1 where h1: "rb_delete_helper fuel h tree (root t) x = Inr (root u, st, tree1, h1)"
      "delete_result h tree (set (addrs t)) pages ?s [] [] t u (del_addr x t) tree1 h1"
    using delete_helper_tree [OF v(1) x at so fuel, of ?s "[]" "[]" "set (addrs t)" frees pages u st]
      d ring inv u by auto
  obtain f frees1 where r: "tree_at (heap_nodes h1) u" "ring (heap_nodes h1) ?s (addrs u)" "tree1 = tree\<lparr> free_list := f \<rparr>"
      "pool_inv h1 tree1 (set (addrs u)) frees1 pages"
    using h1(2) du(1) by (auto simp: delete_result_def)
  have "\<exists>ns. (if u \<noteq> Tip then on_nodes h1 (node_set_color (heap_nodes h1) (root u) RBC_BLACK) else Inr h1) = Inr (h1\<lparr> heap_nodes := ns \<rparr>)
     \<and> tree_step (heap_nodes h1) u ns (paint RBC_BLACK u)"
  proof (cases "u = Tip")
    case False
    then show ?thesis using set_color_tree [OF r(1) False du(2), of RBC_BLACK] by (auto simp: on_nodes_def)
  qed (auto simp: tree_step_def intro: exI [of _ "heap_nodes h1"])
  then obtain ns where ns: "(if u \<noteq> Tip then on_nodes h1 (node_set_color (heap_nodes h1) (root u) RBC_BLACK) else Inr h1) = Inr (h1\<lparr> heap_nodes := ns \<rparr>)"
      "tree_step (heap_nodes h1) u ns (paint RBC_BLACK u)" by blast
  then have fr: "tree_frame (set (addrs u)) (heap_nodes h1) ns" by (simp add: tree_step_def)
  let ?tree = "tree1\<lparr> tree_root := root u \<rparr>" and ?h = "h1\<lparr> heap_nodes := ns \<rparr>"
  have "pool_inv ?h tree1 (set (addrs u)) frees1 pages"
    by (rule pool_inv_frame [OF r(4) fr]) (use r(4) in \<open>simp add: pool_inv_def\<close>)
  then have "pool_inv ?h ?tree (set (addrs u)) frees1 pages" by (rule pool_inv_cong) simp_all
  moreover have "ring ns ?s (addrs u)" by (rule ring_frame [OF r(2)]) (rule tree_frame_list [OF fr])
  moreover have "rb_balanced (paint RBC_BLACK u)"
    using del_balance [of t x] bal u by (cases u) (auto simp: rb_balanced_def del_post_def)
  moreover have "rb_sorted u"
    using del_ranges [OF so, of x] so u sorted_wrt_remove1 [of range_before "ranges t" x] set_remove1_subset [of x "ranges t"]
    by (auto simp: rb_sorted_def)
  moreover have "rb_tree_valid ?tree" using v(1) r(3) tree_at_root [OF r(1)] by (simp add: rb_tree_valid_def)
  ultimately have "rb_rep ?h ?tree (paint RBC_BLACK u)"
    using r(3) v(3) tree_step_at [OF ns(2)] du d by (auto simp: rb_rep_def)
  moreover have "rb_delete fuel h tree x = Inr (?tree, ?h)"
    using v x h1(1) ns(1) is_nil_tree [OF r(1)] by (simp add: rb_delete_def Let_def split: if_splits)
  ultimately show ?thesis using u by auto
qed

section \<open>Searches\<close>

fun entries :: "rbt \<Rightarrow> (ptr \<times> Test_Range) list" where
  "entries Tip = []"
| "entries (Bin l a c r rt) = entries l @ (a, r) # entries rt"

lemma entries_zip: "entries t = zip (addrs t) (ranges t)"
  by (induction t) (auto simp: zip_append)

lemma snd_entries: "map snd (entries t) = ranges t" "map fst (entries t) = addrs t"
  by (induction t) auto

lemma snd_entries_mem: "e \<in> set (entries t) \<Longrightarrow> snd e \<in> set (ranges t)"
  using snd_entries(1) [of t] by (metis image_eqI list.set_map)

lemma entries_at: "tree_at h t \<Longrightarrow> e \<in> set (entries t) \<Longrightarrow> range_at h (fst e) (snd e)"
  by (induction t) (auto simp: range_at_def)

lemma before_start: "range_before a b \<Longrightarrow> test_range_valid a \<Longrightarrow> rstart a < rstart b"
  by (auto simp: range_before_def valid_iff word_less_nat_alt)

definition last_or :: "'a \<Rightarrow> 'a list \<Rightarrow> 'a" where
  "last_or d xs = (if xs = [] then d else last xs)"

definition hd_or :: "'a \<Rightarrow> 'a list \<Rightarrow> 'a" where
  "hd_or d xs = (if xs = [] then d else hd xs)"

lemma find_prev_tree:
  "tree_at h t \<Longrightarrow> rb_sorted t \<Longrightarrow> height t < fuel \<Longrightarrow>
   rb_find_prev_loop fuel h start (root t) best
     = Inr (last_or best (map fst (filter (\<lambda>e. rstart (snd e) < start) (entries t))))"
proof (induction fuel arbitrary: t best)
  case (Suc k)
  show ?case
  proof (cases t)
    case Tip
    then show ?thesis by (simp add: node_ops last_or_def)
  next
    case (Bin l a c r rt)
    obtain n where n: "ok_ptr a" "h a = Some n" "node_range n = r" using Suc.prems Bin by auto
    have so: "rb_sorted l" "rb_sorted rt" "height l < k" "height rt < k" "tree_at h l" "tree_at h rt"
      using Suc.prems Bin by (auto simp: rb_sorted_Bin)
    have child: "node_get_child h a d = Inr (root (sub d t))" for d using get_child_tree [OF Suc.prems(1)] Bin by fastforce
    have right: "rstart r < rstart (snd e)" if "e \<in> set (entries rt)" for e
      using snd_entries_mem [OF that] Suc.prems(2) Bin by (auto simp: rb_sorted_Bin intro: before_start)
    show ?thesis
    proof (cases "rstart r < start")
      case True
      then show ?thesis using Suc.IH [OF so(6,2,4), of a] n child Bin by (simp add: node_ops last_or_def)
    next
      case False
      then have "filter (\<lambda>e. rstart (snd e) < start) (entries rt) = []"
        using right by (auto simp: filter_empty_conv) (metis not_less_iff_gr_or_eq order_less_trans)
      then show ?thesis using Suc.IH [OF so(5,1,3), of best] n child Bin False by (simp add: node_ops last_or_def)
    qed
  qed
qed simp

lemma find_next_tree:
  "tree_at h t \<Longrightarrow> rb_sorted t \<Longrightarrow> height t < fuel \<Longrightarrow>
   rb_find_next_loop fuel h start (root t) best
     = Inr (hd_or best (map fst (filter (\<lambda>e. rstart (snd e) > start) (entries t))))"
proof (induction fuel arbitrary: t best)
  case (Suc k)
  show ?case
  proof (cases t)
    case Tip
    then show ?thesis by (simp add: node_ops hd_or_def)
  next
    case (Bin l a c r rt)
    obtain n where n: "ok_ptr a" "h a = Some n" "node_range n = r" using Suc.prems Bin by auto
    have so: "rb_sorted l" "rb_sorted rt" "height l < k" "height rt < k" "tree_at h l" "tree_at h rt"
      using Suc.prems Bin by (auto simp: rb_sorted_Bin)
    have child: "node_get_child h a d = Inr (root (sub d t))" for d using get_child_tree [OF Suc.prems(1)] Bin by fastforce
    have left: "rstart (snd e) < rstart r" if "e \<in> set (entries l)" for e
      using snd_entries_mem [OF that] Suc.prems(2) Bin sorted_valid [OF so(1)]
      by (auto simp: rb_sorted_Bin intro: before_start)
    show ?thesis
    proof (cases "rstart r > start")
      case True
      then show ?thesis using Suc.IH [OF so(5,1,3), of a] n child Bin by (simp add: node_ops hd_or_def)
    next
      case False
      then have "filter (\<lambda>e. rstart (snd e) > start) (entries l) = []"
        using left by (auto simp: filter_empty_conv) (metis not_less_iff_gr_or_eq order_less_trans)
      then show ?thesis using Suc.IH [OF so(6,2,4), of best] n child Bin False by (simp add: node_ops hd_or_def)
    qed
  qed
qed simp

section \<open>Clearing\<close>

lemma node_free_tree:
  "pool_inv h tree live frees pages \<Longrightarrow> rb_tree_valid tree \<Longrightarrow> tree_at (heap_nodes h) t \<Longrightarrow> distinct (addrs t) \<Longrightarrow>
   set (addrs t) \<subseteq> live \<Longrightarrow> height t < fuel \<Longrightarrow>
   \<exists>h' f frees'. rb_tree_node_free fuel h tree (root t) True = Inr (tree\<lparr> free_list := f \<rparr>, h')
     \<and> pool_inv h' (tree\<lparr> free_list := f \<rparr>) (live - set (addrs t)) frees' pages
     \<and> (\<forall>b. b \<notin> set (addrs t) \<longrightarrow> heap_nodes h' b = heap_nodes h b)
     \<and> (\<forall>d b. list_at (heap_nodes h') d b = list_at (heap_nodes h) d b)"
proof (induction fuel arbitrary: h tree live frees t)
  case (Suc k)
  note inv = Suc.prems(1) and v = Suc.prems(2) and at = Suc.prems(3)
  show ?case
  proof (cases t)
    case Tip
    have "tree = tree\<lparr> free_list := free_list tree \<rparr>" by simp
    then show ?thesis using v inv Tip by (auto simp: node_ops intro!: exI [of _ "free_list tree"])
  next
    case (Bin l a c r rt)
    have d: "distinct (addrs l)" "distinct (addrs rt)" "a \<notin> set (addrs l)" "a \<notin> set (addrs rt)"
      "set (addrs l) \<inter> set (addrs rt) = {}" using Suc.prems(4) Bin by auto
    obtain h1 f1 frees1 where h1: "rb_tree_node_free k h tree (root l) True = Inr (tree\<lparr> free_list := f1 \<rparr>, h1)"
        "pool_inv h1 (tree\<lparr> free_list := f1 \<rparr>) (live - set (addrs l)) frees1 pages"
        "\<And>b. b \<notin> set (addrs l) \<Longrightarrow> heap_nodes h1 b = heap_nodes h b"
        "\<And>d b. list_at (heap_nodes h1) d b = list_at (heap_nodes h) d b"
      using Suc.IH [OF inv v, of l] Suc.prems Bin d by auto
    have t1: "rb_tree_valid (tree\<lparr> free_list := f1 \<rparr>)" using v by (simp add: rb_tree_valid_def)
    have "heap_nodes h1 b = heap_nodes h b" if "b \<in> set (addrs rt)" for b
      using h1(3) [of b] that d(5) by blast
    then have "kids (heap_nodes h1) b = kids (heap_nodes h) b" if "b \<in> set (addrs rt)" for b
      using that by (simp add: kids_def)
    then have at1: "tree_at (heap_nodes h1) rt" using tree_at_kids [of rt "heap_nodes h1"] at Bin by auto
    have lv: "set (addrs rt) \<subseteq> live - set (addrs l)" and hk: "height rt < k"
      using Suc.prems(5,6) d(5) Bin by auto
    obtain h2 f2 frees2 where h2: "rb_tree_node_free k h1 (tree\<lparr> free_list := f1 \<rparr>) (root rt) True = Inr (tree\<lparr> free_list := f2 \<rparr>, h2)"
        "pool_inv h2 (tree\<lparr> free_list := f2 \<rparr>) (live - set (addrs l) - set (addrs rt)) frees2 pages"
        "\<And>b. b \<notin> set (addrs rt) \<Longrightarrow> heap_nodes h2 b = heap_nodes h1 b"
        "\<And>d b. list_at (heap_nodes h2) d b = list_at (heap_nodes h1) d b"
      using Suc.IH [OF h1(2) t1 at1 d(2) lv hk] by auto
    obtain n where n: "heap_nodes h a = Some n" "ok_ptr a" using at Bin by auto
    have n2: "heap_nodes h2 a = Some n" using n h2(3) h1(3) d by auto
    have t2: "rb_tree_valid (tree\<lparr> free_list := f2 \<rparr>)" using v by (simp add: rb_tree_valid_def)
    obtain h3 where h3: "rb_tree_node_free (Suc k) h2 (tree\<lparr> free_list := f2 \<rparr>) a False = Inr (tree\<lparr> free_list := a \<rparr>, h3)"
        "\<And>b. b \<noteq> a \<Longrightarrow> heap_nodes h3 b = heap_nodes h2 b" "\<And>d b. list_at (heap_nodes h3) d b = list_at (heap_nodes h2) d b"
        "pool_inv h3 (tree\<lparr> free_list := a \<rparr>) (live - set (addrs l) - set (addrs rt) - {a}) (a # frees2) pages"
      using node_free_one [OF h2(2) t2 _ n(2) n2, of k] Suc.prems(5) d Bin by auto
    have "node_get_child (heap_nodes h) a RB_LEFT = Inr (root l)"
      using get_child_tree [OF at, of RB_LEFT] Bin by simp
    moreover have "node_get_child (heap_nodes h1) a RB_RIGHT = Inr (root rt)"
      using get_child_tree [OF at, of RB_RIGHT] Bin h1(3) [OF d(3)] by (simp add: node_get_child_def node_load_def)
    ultimately have "rb_tree_node_free (Suc k) h tree a True = Inr (tree\<lparr> free_list := a \<rparr>, h3)"
      using h1(1) h2(1) h3(1) v t2 n by (simp add: node_ops)
    moreover have "live - set (addrs l) - set (addrs rt) - {a} = live - set (addrs t)" using Bin by auto
    ultimately show ?thesis
      using h3 h2(3,4) h1(3,4) Bin by (intro exI [of _ h3] exI [of _ a] exI [of _ "a # frees2"]) auto
  qed
qed simp

end
