(* ===== verification/Rb_Client.thy ===== *)
theory Rb_Client
  imports Rb_Spec
begin

text \<open>
  The tree as its callers see it: a set of disjoint address ranges in order. The first section states what each
  operation does to the sorted list of ranges on every branch; the locale \<open>range_set\<close> is the contract that follows,
  with the facts a caller can derive from it, and it is interpreted on the model of the code. The last section runs
  the program's own \<^verbatim>\<open>main\<close>.
\<close>

section \<open>Starting, clearing and ending\<close>

lemma distinct_words: "distinct (xs :: ptr list) \<Longrightarrow> length xs \<le> 2 ^ 64"
proof -
  assume "distinct xs"
  then have "length xs = card (set xs)" by (simp only: distinct_card)
  also have "\<dots> \<le> CARD(64 word)" by (rule card_mono) simp_all
  finally show ?thesis by (simp only: card_word) simp
qed

lemma ring_reset:
  assumes "heap_nodes h s = Some n" "tree_list tree = s"
  shows "\<exists>h'. rb_list_reset h tree = Inr h' \<and> ring (heap_nodes h') s []
     \<and> (\<forall>a. kids (heap_nodes h') a = kids (heap_nodes h) a) \<and> dom (heap_nodes h') = dom (heap_nodes h)
     \<and> heap_pages h' = heap_pages h \<and> page_supply h' = page_supply h"
  using assms
  by (auto simp: rb_list_reset_def on_nodes_def node_ops ring_def linked_def list_at_def kids_def)

lemma rb_tree_init_ok:
  assumes s: "ok_ptr (tree_list tree)" "tree_list tree \<in> dom (heap_nodes h)" and f: "free_list tree = 0"
    and p: "page_supply h = p # ps" "p \<noteq> 0" "pages_ok (tree_list tree) (p # filter (\<lambda>q. q \<noteq> 0) ps)"
  shows "\<exists>tree' h'. rb_tree_init h tree = Inr (True, tree', h') \<and> rb_rep h' tree' Tip \<and> tree_list tree' = tree_list tree"
proof -
  let ?s = "tree_list tree" and ?page = "\<lparr> nodes_next = 0, node_count = 0 \<rparr>"
  let ?h = "h\<lparr> page_supply := ps, heap_pages := (heap_pages h)(p \<mapsto> ?page),
      heap_nodes := (\<lambda>a. if a \<in> set (page_slots p) then Some node_zero else heap_nodes h a) \<rparr>"
  let ?t = "tree\<lparr> tree_root := node_nil, tree_nodes := p, current_node := p \<rparr>"
  have ok: "page_ok p" "unat ?s \<notin> page_region p" using p(3) by (auto simp: pages_ok_def)
  then have "?s \<notin> set (page_slots p)" using slot_region [of p] by (auto simp: set_page_slots)
  then obtain n where n: "heap_nodes ?h ?s = Some n" using s(2) by auto
  obtain h' where h': "rb_list_reset ?h ?t = Inr h'" "ring (heap_nodes h') ?s []" "heap_pages h' = heap_pages ?h"
      "page_supply h' = ps" "dom (heap_nodes h') = dom (heap_nodes ?h)"
    using ring_reset [OF n, of ?t] by auto
  have "pool_inv h' ?t {} [] [p]"
    using p f h' by (auto simp: pool_inv_def handed_def page_used_def set_page_slots)
  then have "rb_rep h' ?t Tip"
    using s p(2) h'(2) by (auto simp: rb_rep_def rb_tree_valid_def rb_balanced_def)
  moreover have "rb_tree_init h tree = Inr (True, ?t, h')"
    using p h'(1) by (simp add: rb_tree_init_def rb_nodes_create_def page_alloc_def)
  ultimately show ?thesis by auto
qed

lemma rb_clear_ok:
  assumes rep: "rb_rep h tree t" and fuel: "height t < fuel"
  shows "\<exists>tree' h'. rb_clear fuel h tree = Inr (tree', h') \<and> rb_rep h' tree' Tip"
proof -
  let ?s = "tree_list tree"
  obtain frees pages where inv: "pool_inv h tree (set (addrs t)) frees pages" using rep by (auto simp: rb_rep_def)
  obtain h1 f frees1 where h1: "rb_tree_node_free fuel h tree (root t) True = Inr (tree\<lparr> free_list := f \<rparr>, h1)"
      "pool_inv h1 (tree\<lparr> free_list := f \<rparr>) {} frees1 pages"
      "\<And>d b. list_at (heap_nodes h1) d b = list_at (heap_nodes h) d b"
    using node_free_tree [OF inv, of t fuel] rep fuel by (auto simp: rb_rep_def)
  let ?t = "tree\<lparr> free_list := f, tree_root := node_nil \<rparr>"
  have "ring (heap_nodes h) ?s (addrs t)" using rep by (simp add: rb_rep_def)
  then have "list_at (heap_nodes h1) RB_RIGHT ?s \<noteq> None"
    using ring_ends [of "heap_nodes h" ?s "addrs t"] h1(3) by (auto simp: linked_def)
  then obtain n where "heap_nodes h1 ?s = Some n" by (auto simp: list_at_def)
  then obtain h2 where h2: "rb_list_reset h1 ?t = Inr h2" "ring (heap_nodes h2) ?s []"
      "\<And>a. kids (heap_nodes h2) a = kids (heap_nodes h1) a" "dom (heap_nodes h2) = dom (heap_nodes h1)"
      "heap_pages h2 = heap_pages h1" "page_supply h2 = page_supply h1"
    using ring_reset [of h1 ?s n ?t] by auto
  have "pool_inv h2 ?t {} frees1 pages"
    by (rule pool_inv_cong [OF h1(2)]) (use h2 in simp_all)
  then have "rb_rep h2 ?t Tip"
    using rep h2(2) by (auto simp: rb_rep_def rb_tree_valid_def rb_balanced_def)
  moreover have "rb_clear fuel h tree = Inr (?t, h2)"
    using rep h1(1) h2(1) by (simp add: rb_clear_def rb_rep_def Let_def)
  ultimately show ?thesis by blast
qed

lemma destroy_pages_ok:
  "page_chain (heap_pages h) p pages \<Longrightarrow> distinct pages \<Longrightarrow> 0 \<notin> set pages \<Longrightarrow> length pages < fuel \<Longrightarrow>
   \<exists>h'. rb_destroy_pages fuel h p = Inr h' \<and> heap_pages h' = (heap_pages h) |` (- set pages)
     \<and> heap_nodes h' = (heap_nodes h) |` (- (\<Union>p \<in> set pages. set (page_slots p))) \<and> page_supply h' = page_supply h"
proof (induction pages arbitrary: h p fuel)
  case Nil
  then show ?case by (cases fuel) auto
next
  case (Cons a ps)
  obtain k where k: "fuel = Suc k" using Cons.prems(4) by (cases fuel) auto
  obtain n where n: "heap_pages h a = Some n" "page_chain (heap_pages h) (nodes_next n) ps" "p = a" using Cons.prems(1) by auto
  have pc: "page_chain (heap_pages (page_free h a)) (nodes_next n) ps"
    by (rule page_chain_cong [OF _ n(2)]) (use Cons.prems(2) in \<open>auto simp: page_free_def\<close>)
  have "page_supply (page_free h a) = page_supply h" by (simp add: page_free_def)
  then obtain h' where h': "rb_destroy_pages k (page_free h a) (nodes_next n) = Inr h'"
      "heap_pages h' = (heap_pages (page_free h a)) |` (- set ps)"
      "heap_nodes h' = (heap_nodes (page_free h a)) |` (- (\<Union>p \<in> set ps. set (page_slots p)))" "page_supply h' = page_supply h"
    using Cons.IH [OF pc, of k] Cons.prems(2-4) k by auto
  have "heap_pages h' = (heap_pages h) |` (- set (a # ps))"
    by (auto simp: h'(2) page_free_def restrict_map_def fun_eq_iff)
  moreover have "heap_nodes h' = (heap_nodes h) |` (- (\<Union>p \<in> set (a # ps). set (page_slots p)))"
    by (auto simp: h'(3) page_free_def restrict_map_def fun_eq_iff)
  ultimately show ?case using h'(1,4) n Cons.prems(3) by (auto simp: k page_load_def)
qed


lemma destroy_rep_pages:
  assumes "rb_rep h tree t"
  shows "\<exists>pages. page_chain (heap_pages h) (tree_nodes tree) pages \<and> distinct pages
     \<and> (\<forall>fuel > length pages. \<exists>tree' h'. rb_destroy fuel h tree = Inr (tree', h') \<and> \<not> rb_tree_valid tree'
          \<and> heap_pages h' = (heap_pages h) |` (- set pages)
          \<and> (\<forall>a \<in> set (addrs t). heap_nodes h' a = None))"
proof -
  obtain frees pages where inv: "pool_inv h tree (set (addrs t)) frees pages" using assms by (auto simp: rb_rep_def)
  have pg: "page_chain (heap_pages h) (tree_nodes tree) pages" "distinct pages" "0 \<notin> set pages"
    using inv pages_ok_distinct [of "tree_list tree"] pool_page_ok [OF inv, of 0]
    by (auto simp: pool_inv_def pages_ok_append page_ok_def)
  have gone: "a \<in> (\<Union>p \<in> set pages. set (page_slots p))" "a \<noteq> tree_list tree" if "a \<in> set (addrs t)" for a
    using handed_slot [OF inv, of a] that assms by (auto simp: set_page_slots rb_rep_def)
  have "\<exists>tree' h'. rb_destroy fuel h tree = Inr (tree', h') \<and> \<not> rb_tree_valid tree'
          \<and> heap_pages h' = (heap_pages h) |` (- set pages) \<and> (\<forall>a \<in> set (addrs t). heap_nodes h' a = None)"
    if fuel: "length pages < fuel" for fuel
  proof -
    obtain h' where h': "rb_destroy_pages fuel h (tree_nodes tree) = Inr h'" "heap_pages h' = (heap_pages h) |` (- set pages)"
        "heap_nodes h' = (heap_nodes h) |` (- (\<Union>p \<in> set pages. set (page_slots p)))"
      using destroy_pages_ok [OF pg fuel] by blast
    have "rb_tree_valid tree" using assms by (simp add: rb_rep_def)
    then show ?thesis
      using h' gone by (auto simp: rb_destroy_def rb_tree_zero_def rb_tree_valid_def node_valid_def restrict_map_def)
  qed
  then show ?thesis using pg by blast
qed

lemma destroy_rep:
  assumes "rb_rep h tree t" "2 ^ 64 < fuel"
  shows "\<exists>tree' h'. rb_destroy fuel h tree = Inr (tree', h')"
proof -
  from destroy_rep_pages [OF assms(1)] obtain pages where "distinct pages" and
    all: "\<And>fuel. length pages < fuel \<Longrightarrow> \<exists>tree' h'. rb_destroy fuel h tree = Inr (tree', h') \<and> \<not> rb_tree_valid tree'
       \<and> heap_pages h' = (heap_pages h) |` (- set pages) \<and> (\<forall>a \<in> set (addrs t). heap_nodes h' a = None)"
    by blast
  then have "length pages < fuel" using distinct_words [of pages] assms(2) by simp
  then show ?thesis using all by blast
qed

section \<open>The contract\<close>

text \<open>
  The state of a caller is the heap and the tree struct; \<open>rb_contents\<close> relates it to the sorted list of ranges.
  The operations are the code's, with the fuel that is always enough.
\<close>

type_synonym rb_state = "rb_heap \<times> RB_Tree"

definition rb_contents :: "rb_state \<Rightarrow> Test_Range list \<Rightarrow> bool" where
  "rb_contents s rs \<longleftrightarrow> (\<exists>t. rb_rep (fst s) (snd s) t \<and> ranges t = rs)"

definition rb_insert_op :: "rb_state \<Rightarrow> Test_Range \<Rightarrow> (RB_Insert_Status \<times> rb_state) result" where
  "rb_insert_op s x = sbind (rb_insert rb_fuel (fst s) (snd s) x) (\<lambda>(st, tree, h). Inr (st, h, tree))"

definition rb_delete_op :: "rb_state \<Rightarrow> Test_Range \<Rightarrow> rb_state result" where
  "rb_delete_op s x = sbind (rb_delete rb_fuel (fst s) (snd s) x) (\<lambda>(tree, h). Inr (h, tree))"

definition overlap_any :: "Test_Range \<Rightarrow> Test_Range list \<Rightarrow> bool" where
  "overlap_any x rs \<longleftrightarrow> (\<exists>r \<in> set rs. overlaps x r)"

datatype range_op = Insert Test_Range | Delete Test_Range

text \<open>The abstract effect of an operation, given whether there was memory for a node.\<close>

fun op_range :: "range_op \<Rightarrow> Test_Range" where
  "op_range (Insert x) = x"
| "op_range (Delete x) = x"

fun spec_step :: "range_op \<Rightarrow> bool \<Rightarrow> Test_Range list \<Rightarrow> Test_Range list" where
  "spec_step (Insert x) mem rs = (if overlap_any x rs \<or> \<not> mem then rs else insert_range x rs)"
| "spec_step (Delete x) mem rs = remove1 x rs"

fun insert_status :: "Test_Range \<Rightarrow> bool \<Rightarrow> Test_Range list \<Rightarrow> RB_Insert_Status" where
  "insert_status x mem rs = (if overlap_any x rs then RB_INSERT_OVERLAP else if mem then RB_INSERT_OK else RB_INSERT_OOM)"

text \<open>A sequence of operations, for any implementation of the two: the statuses of the insertions in order, and the state at the end.\<close>

fun run_ops :: "('s \<Rightarrow> Test_Range \<Rightarrow> (RB_Insert_Status \<times> 's) result) \<Rightarrow> ('s \<Rightarrow> Test_Range \<Rightarrow> 's result)
    \<Rightarrow> 's \<Rightarrow> range_op list \<Rightarrow> (RB_Insert_Status list \<times> 's) result" where
  "run_ops ins_op del_op s [] = Inr ([], s)"
| "run_ops ins_op del_op s (Insert x # ops) =
     sbind (ins_op s x) (\<lambda>(st, s'). sbind (run_ops ins_op del_op s' ops) (\<lambda>(sts, s''). Inr (st # sts, s'')))"
| "run_ops ins_op del_op s (Delete x # ops) = sbind (del_op s x) (\<lambda>s'. run_ops ins_op del_op s' ops)"

text \<open>For each operation of the sequence, whether the state it starts from has memory for one more node.\<close>

fun memory_run :: "('s \<Rightarrow> bool) \<Rightarrow> ('s \<Rightarrow> Test_Range \<Rightarrow> (RB_Insert_Status \<times> 's) result) \<Rightarrow> ('s \<Rightarrow> Test_Range \<Rightarrow> 's result)
    \<Rightarrow> 's \<Rightarrow> range_op list \<Rightarrow> bool list" where
  "memory_run has_memory ins_op del_op s [] = []"
| "memory_run has_memory ins_op del_op s (Insert x # ops) =
     has_memory s # (case ins_op s x of Inl e \<Rightarrow> [] | Inr (st, s') \<Rightarrow> memory_run has_memory ins_op del_op s' ops)"
| "memory_run has_memory ins_op del_op s (Delete x # ops) =
     has_memory s # (case del_op s x of Inl e \<Rightarrow> [] | Inr s' \<Rightarrow> memory_run has_memory ins_op del_op s' ops)"

text \<open>The statuses and the sorted list of the same sequence on a list; \<open>mems\<close> says for each operation whether a node is to be had.\<close>

fun spec_run :: "range_op list \<Rightarrow> bool list \<Rightarrow> Test_Range list \<Rightarrow> RB_Insert_Status list \<times> Test_Range list" where
  "spec_run (Insert x # ops) (mem # mems) rs =
     (let (sts, rs') = spec_run ops mems (spec_step (Insert x) mem rs) in (insert_status x mem rs # sts, rs'))"
| "spec_run (Delete x # ops) (mem # mems) rs = spec_run ops mems (spec_step (Delete x) mem rs)"
| "spec_run _ _ rs = ([], rs)"

locale range_set =
  fixes contents :: "'s \<Rightarrow> Test_Range list \<Rightarrow> bool"
    and insert_op :: "'s \<Rightarrow> Test_Range \<Rightarrow> (RB_Insert_Status \<times> 's) result"
    and delete_op :: "'s \<Rightarrow> Test_Range \<Rightarrow> 's result"
    and has_memory :: "'s \<Rightarrow> bool"
  assumes contents_sorted: "contents s rs \<Longrightarrow> sorted_wrt range_before rs \<and> (\<forall>r \<in> set rs. test_range_valid r)"
    and insert_law: "contents s rs \<Longrightarrow> test_range_valid x \<Longrightarrow>
      \<exists>s'. insert_op s x = Inr (insert_status x (has_memory s) rs, s') \<and> contents s' (spec_step (Insert x) (has_memory s) rs)"
    and delete_law: "contents s rs \<Longrightarrow> test_range_valid x \<Longrightarrow>
      \<exists>s'. delete_op s x = Inr s' \<and> contents s' (remove1 x rs)"
begin

lemma run_ops_total:
  "contents s rs \<Longrightarrow> \<forall>p \<in> set ops. test_range_valid (op_range p) \<Longrightarrow>
   \<exists>s'. run_ops insert_op delete_op s ops = Inr (fst (spec_run ops (memory_run has_memory insert_op delete_op s ops) rs), s')
      \<and> contents s' (snd (spec_run ops (memory_run has_memory insert_op delete_op s ops) rs))"
proof (induction ops arbitrary: s rs)
  case (Cons p ops)
  show ?case
  proof (cases p)
    case (Insert x)
    obtain s1 where s1: "insert_op s x = Inr (insert_status x (has_memory s) rs, s1)" "contents s1 (spec_step p (has_memory s) rs)"
      using insert_law [OF Cons.prems(1), of x] Cons.prems(2) Insert by auto
    let ?r = "spec_run ops (memory_run has_memory insert_op delete_op s1 ops) (spec_step p (has_memory s) rs)"
    obtain s' where s': "run_ops insert_op delete_op s1 ops = Inr (fst ?r, s')" "contents s' (snd ?r)"
      using Cons.IH [OF s1(2)] Cons.prems(2) by auto
    have "spec_run (p # ops) (memory_run has_memory insert_op delete_op s (p # ops)) rs = (insert_status x (has_memory s) rs # fst ?r, snd ?r)"
      using s1(1) Insert by (simp add: case_prod_beta del: insert_status.simps spec_step.simps)
    then show ?thesis using s1(1) s' Insert by (simp del: insert_status.simps spec_step.simps)
  next
    case (Delete x)
    obtain s1 where s1: "delete_op s x = Inr s1" "contents s1 (remove1 x rs)"
      using delete_law [OF Cons.prems(1), of x] Cons.prems(2) Delete by auto
    then show ?thesis using Cons.IH [OF s1(2)] Cons.prems(2) Delete by auto
  qed
qed simp

lemma contents_disjoint:
  assumes "contents s rs" "i < j" "j < length rs"
  shows "range_addrs (rs ! i) \<inter> range_addrs (rs ! j) = {}"
proof -
  have "range_before (rs ! i) (rs ! j)" using contents_sorted [OF assms(1)] assms(2,3) by (simp add: sorted_wrt_iff_nth_less)
  then show ?thesis by (auto simp: range_before_def range_addrs_def)
qed

lemma insert_delete_roundtrip:
  assumes "contents s rs" "test_range_valid x" "insert_op s x = Inr (RB_INSERT_OK, s')"
  shows "\<exists>s''. delete_op s' x = Inr s'' \<and> contents s'' rs"
proof -
  have "\<not> overlap_any x rs" "has_memory s" and c: "contents s' (spec_step (Insert x) (has_memory s) rs)"
    using insert_law [OF assms(1,2)] assms(3) by (auto split: if_splits)
  then have c': "contents s' (insert_range x rs)" "x \<notin> set rs"
    using overlaps_self [OF assms(2)] by (auto simp: overlap_any_def)
  have "x \<notin> set (takeWhile (\<lambda>r. range_before r x) rs)" using c'(2) by (auto dest: set_takeWhileD)
  then have "remove1 x (insert_range x rs) = rs" by (simp add: insert_range_def remove1_append)
  then show ?thesis using delete_law [OF c'(1) assms(2)] by simp
qed

lemma insert_twice:
  assumes "contents s rs" "test_range_valid x" "insert_op s x = Inr (RB_INSERT_OK, s')"
  shows "\<exists>s''. insert_op s' x = Inr (RB_INSERT_OVERLAP, s'')"
proof -
  have "contents s' (insert_range x rs)"
    using insert_law [OF assms(1,2)] assms(3) by (auto split: if_splits)
  then show ?thesis
    using insert_law [OF _ assms(2), of s' "insert_range x rs"] overlaps_self [OF assms(2)] by (auto simp: overlap_any_def)
qed

end

definition rb_has_memory :: "rb_state \<Rightarrow> bool" where
  "rb_has_memory s \<longleftrightarrow> \<not> out_of_nodes (fst s) (snd s)"

lemma rb_insert_law:
  assumes "rb_contents s rs" "test_range_valid x"
  shows "\<exists>s'. rb_insert_op s x = Inr (insert_status x (rb_has_memory s) rs, s')
     \<and> rb_contents s' (spec_step (Insert x) (rb_has_memory s) rs)"
proof -
  obtain t where t: "rb_rep (fst s) (snd s) t" "ranges t = rs" using assms(1) by (auto simp: rb_contents_def)
  have so: "rb_sorted t" using t(1) by (simp add: rb_rep_def)
  note fuel = rep_height [OF t(1) order_refl]
  have ov: "overlapping x t \<longleftrightarrow> overlap_any x rs"
    using overlapping_iff [OF so assms(2)] t(2) by (simp add: overlap_any_def)
  consider "overlapping x t" | "\<not> overlapping x t" "out_of_nodes (fst s) (snd s)"
    | "\<not> overlapping x t" "\<not> out_of_nodes (fst s) (snd s)" by blast
  then show ?thesis
  proof cases
    case 1
    then show ?thesis
      using rb_insert_overlap [OF t(1) assms(2) 1 fuel] assms(1) ov by (simp add: rb_insert_op_def)
  next
    case 2
    then show ?thesis
      using rb_insert_oom [OF t(1) assms(2) 2 fuel] ov t(2)
      by (auto simp: rb_insert_op_def rb_has_memory_def rb_contents_def)
  next
    case 3
    then show ?thesis
      using rb_insert_ok [OF t(1) assms(2) 3 fuel] ov t(2) ins_contents [OF so assms(2) 3(1)]
      by (fastforce simp: rb_insert_op_def rb_has_memory_def rb_contents_def)
  qed
qed

lemma rb_delete_law:
  assumes "rb_contents s rs" "test_range_valid x"
  shows "\<exists>s'. rb_delete_op s x = Inr s' \<and> rb_contents s' (remove1 x rs)"
proof -
  obtain t where t: "rb_rep (fst s) (snd s) t" "ranges t = rs" using assms(1) by (auto simp: rb_contents_def)
  have so: "rb_sorted t" using t(1) by (simp add: rb_rep_def)
  show ?thesis
    using rb_delete_ok [OF t(1) assms(2) rep_height [OF t(1) order_refl]] del_ranges [OF so, of x] t(2)
    by (fastforce simp: rb_delete_op_def rb_contents_def)
qed

interpretation rb: range_set rb_contents rb_insert_op rb_delete_op rb_has_memory
  by unfold_locales
    (use rb_insert_law rb_delete_law in \<open>auto simp: rb_contents_def rb_rep_def rb_sorted_def\<close>)


lemma validate_rep: "rb_rep h tree t \<Longrightarrow> length (ranges t) < fuel \<Longrightarrow> rb_list_validate fuel h tree = Inr ()"
  by (rule list_validate_ok [where xs = "addrs t" and rs = "ranges t" and s = "tree_list tree"])
    (auto simp: rb_rep_def rb_sorted_def intro: tree_ranges)

section \<open>The properties\<close>

text \<open>An empty tree in memory, on which the properties are tried: a sentinel and one page of nodes.\<close>

definition demo_tree :: RB_Tree where
  "demo_tree = \<lparr> tree_root = node_nil, tree_list = 0x2000, free_list = 0, tree_nodes = 0x10000, current_node = 0x10000 \<rparr>"

definition demo_heap :: rb_heap where
  "demo_heap = \<lparr> heap_nodes = (\<lambda>a. if a \<in> set (page_slots 0x10000) then Some node_zero else None)
       (0x2000 \<mapsto> node_zero\<lparr> node_list := (\<lambda>_. 0x2000) \<rparr>),
     heap_pages = [0x10000 \<mapsto> \<lparr> nodes_next = 0, node_count = 0 \<rparr>], page_supply = [] \<rparr>"

definition demo_range :: "nat \<Rightarrow> Test_Range" where
  "demo_range n = \<lparr> rstart = of_nat n, rlen = 1 \<rparr>"

lemma demo_page: "page_ok 0x10000" "unat (0x2000 :: U64) \<notin> page_region 0x10000"
  by (simp_all add: page_ok_def page_region_def node_nil_def)

lemma demo_rep: "rb_rep demo_heap demo_tree Tip"
proof -
  have "pool_inv demo_heap demo_tree {} [] [0x10000]"
    using demo_page
    by (auto simp: pool_inv_def demo_heap_def demo_tree_def pages_ok_def handed_def page_used_def set_page_slots)
  moreover have "ok_ptr 0x2000" by (simp add: ok_ptr_def node_valid_def node_get_def node_nil_def)
  ultimately show ?thesis
    by (auto simp: rb_rep_def demo_tree_def demo_heap_def rb_tree_valid_def rb_balanced_def ring_def linked_def list_at_def)
qed

lemma demo_valid [simp]: "test_range_valid (demo_range 8)" "test_range_valid (demo_range 3)"
  by (simp_all add: demo_range_def test_range_valid_def UINTPTR_MAX_def)

lemma demo_memory: "\<not> out_of_nodes demo_heap demo_tree"
  by (simp add: out_of_nodes_def demo_heap_def demo_tree_def)

text \<open>(C1) \<^verbatim>\<open>rb_insert\<close> always returns and keeps the representation invariant (red-black balance, search order, the
  threaded list, the memory pool). A range that shares an address with a stored one is reported as an overlap and
  nothing changes; when no node can be had the status says so and the contents stay; otherwise the range is
  inserted at its place in the order.\<close>

theorem rb_insert_correct:
  assumes "rb_rep h tree t" and "test_range_valid x" and "rb_fuel \<le> fuel"
  shows "\<exists>status tree' h' t'. rb_insert fuel h tree x = Inr (status, tree', h') \<and> rb_rep h' tree' t'
     \<and> (if \<exists>r \<in> set (ranges t). range_addrs x \<inter> range_addrs r \<noteq> {}
        then status = RB_INSERT_OVERLAP \<and> tree' = tree \<and> h' = h \<and> t' = t
        else if out_of_nodes h tree then status = RB_INSERT_OOM \<and> tree' = tree \<and> t' = t
        else status = RB_INSERT_OK \<and> ranges t' = insert_range x (ranges t))"
proof -
  have so: "rb_sorted t" using assms(1) by (simp add: rb_rep_def)
  note ov = overlapping_addrs [OF so assms(2)] and fuel = rep_height [OF assms(1,3)]
  consider "overlapping x t" | "\<not> overlapping x t" "out_of_nodes h tree" | "\<not> overlapping x t" "\<not> out_of_nodes h tree"
    by blast
  then show ?thesis
  proof cases
    case 1
    then show ?thesis using rb_insert_overlap [OF assms(1,2) 1 fuel] assms(1) ov by auto
  next
    case 2
    then show ?thesis using rb_insert_oom [OF assms(1,2) 2 fuel] ov by auto
  next
    case 3
    then obtain a tree' h' where "rb_insert fuel h tree x = Inr (RB_INSERT_OK, tree', h')"
        "rb_rep h' tree' (paint RBC_BLACK (ins a x t))"
      using rb_insert_ok [OF assms(1,2) 3 fuel] by blast
    then show ?thesis using 3 ov ins_contents [OF so assms(2) 3(1), of a] by force
  qed
qed

theorem rb_insert_correct_witness:
  "rb_rep demo_heap demo_tree Tip \<and> test_range_valid (demo_range 8)
   \<and> (\<exists>tree' h' t'. rb_insert 129 demo_heap demo_tree (demo_range 8) = Inr (RB_INSERT_OK, tree', h') \<and> rb_rep h' tree' t'
        \<and> ranges t' = [demo_range 8])"
  using rb_insert_correct [OF demo_rep demo_valid(1), of 129] demo_rep demo_memory
  by (auto simp: rb_fuel_def insert_range_def)

text \<open>(C2) \<^verbatim>\<open>rb_delete\<close> always returns, keeps the representation invariant, and removes the range from the sorted list
  of ranges; a range that is not stored changes nothing there.\<close>

theorem rb_delete_correct:
  assumes "rb_rep h tree t" and "test_range_valid x" and "rb_fuel \<le> fuel"
  shows "\<exists>tree' h' t'. rb_delete fuel h tree x = Inr (tree', h') \<and> rb_rep h' tree' t' \<and> ranges t' = remove1 x (ranges t)"
proof -
  have so: "rb_sorted t" using assms(1) by (simp add: rb_rep_def)
  show ?thesis
    using rb_delete_ok [OF assms(1,2) rep_height [OF assms(1,3)]] del_ranges [OF so, of x] by force
qed

lemma demo_insert: "\<exists>tree h t. rb_insert 129 demo_heap demo_tree (demo_range 8) = Inr (RB_INSERT_OK, tree, h) \<and> rb_rep h tree t
     \<and> ranges t = [demo_range 8]"
proof -
  obtain a tree' h' where "rb_insert 129 demo_heap demo_tree (demo_range 8) = Inr (RB_INSERT_OK, tree', h')"
      "rb_rep h' tree' (paint RBC_BLACK (ins a (demo_range 8) Tip))"
    using rb_insert_ok [OF demo_rep demo_valid(1) _ demo_memory, of 129] by auto
  then show ?thesis by force
qed

theorem rb_delete_correct_witness:
  "\<exists>tree h t tree' h' t'. rb_insert 129 demo_heap demo_tree (demo_range 8) = Inr (RB_INSERT_OK, tree, h)
     \<and> rb_rep h tree t \<and> ranges t = [demo_range 8]
     \<and> rb_delete 129 h tree (demo_range 8) = Inr (tree', h') \<and> rb_rep h' tree' t' \<and> ranges t' = []"
proof -
  obtain tree h t where i: "rb_insert 129 demo_heap demo_tree (demo_range 8) = Inr (RB_INSERT_OK, tree, h)"
      "rb_rep h tree t" "ranges t = [demo_range 8]"
    using demo_insert by blast
  then show ?thesis using rb_delete_correct [OF i(2) demo_valid(1), of 129] by (fastforce simp: rb_fuel_def)
qed

text \<open>(C3) Any sequence of insertions and deletions of valid ranges runs to its end, without a failed assertion, a bad access or
  an endless recursion, and refines the same sequence on a sorted list of ranges: the statuses of the insertions and the contents at the end
  are those of the list. An insertion fails for want of memory only in a state that has no node left, on the free list, in the current page or
  from the allocator of pages (\<open>rb_has_memory\<close>), and only when nothing overlaps.\<close>

theorem rb_run_refines_list:
  assumes "rb_contents s rs" and "\<forall>p \<in> set ops. test_range_valid (op_range p)"
  shows "\<exists>s'. run_ops rb_insert_op rb_delete_op s ops
         = Inr (fst (spec_run ops (memory_run rb_has_memory rb_insert_op rb_delete_op s ops) rs), s')
     \<and> rb_contents s' (snd (spec_run ops (memory_run rb_has_memory rb_insert_op rb_delete_op s ops) rs))"
  using assms by (rule rb.run_ops_total)

lemma demo_contents: "rb_contents (demo_heap, demo_tree) []"
  using demo_rep by (auto simp: rb_contents_def)

lemma demo_has_memory: "rb_has_memory (demo_heap, demo_tree)"
  using demo_memory by (simp add: rb_has_memory_def)

text \<open>The first range is stored, the same range again is an overlap, and deleting it leaves an empty tree.\<close>

theorem rb_run_refines_list_witness:
  "\<exists>s'. run_ops rb_insert_op rb_delete_op (demo_heap, demo_tree) [Insert (demo_range 8), Insert (demo_range 8), Delete (demo_range 8)]
       = Inr ([RB_INSERT_OK, RB_INSERT_OVERLAP], s') \<and> rb_contents s' []"
proof -
  let ?ops = "[Insert (demo_range 8), Insert (demo_range 8), Delete (demo_range 8)]"
  obtain s1 where s1: "rb_insert_op (demo_heap, demo_tree) (demo_range 8) = Inr (RB_INSERT_OK, s1)" "rb_contents s1 [demo_range 8]"
    using rb_insert_law [OF demo_contents demo_valid(1)] demo_has_memory by (auto simp: overlap_any_def insert_range_def)
  obtain st s2 where s2: "rb_insert_op s1 (demo_range 8) = Inr (st, s2)" "rb_contents s2 [demo_range 8]"
    using rb_insert_law [OF s1(2) demo_valid(1)] overlaps_self [OF demo_valid(1)] by (auto simp: overlap_any_def)
  obtain s3 where "rb_delete_op s2 (demo_range 8) = Inr s3" using rb_delete_law [OF s2(2) demo_valid(1)] by blast
  then have "memory_run rb_has_memory rb_insert_op rb_delete_op (demo_heap, demo_tree) ?ops = [True, rb_has_memory s1, rb_has_memory s2]"
    using s1(1) s2(1) demo_has_memory by simp
  moreover have "spec_run ?ops [True, rb_has_memory s1, rb_has_memory s2] [] = ([RB_INSERT_OK, RB_INSERT_OVERLAP], [])"
    using overlaps_self [OF demo_valid(1)] by (simp add: overlap_any_def insert_range_def)
  ultimately show ?thesis using rb_run_refines_list [OF demo_contents, of ?ops] by simp
qed

text \<open>Deleting a range that was just inserted gives the contents back that were there before.\<close>

lemma rb_insert_delete_roundtrip:
  assumes "rb_contents s rs" and "test_range_valid x" and "rb_insert_op s x = Inr (RB_INSERT_OK, s')"
  shows "\<exists>s''. rb_delete_op s' x = Inr s'' \<and> rb_contents s'' rs"
  using assms by (rule rb.insert_delete_roundtrip)

lemma rb_insert_delete_roundtrip_witness:
  "\<exists>s' s''. rb_insert_op (demo_heap, demo_tree) (demo_range 8) = Inr (RB_INSERT_OK, s')
     \<and> rb_delete_op s' (demo_range 8) = Inr s'' \<and> rb_contents s'' []"
proof -
  obtain s' where s': "rb_insert_op (demo_heap, demo_tree) (demo_range 8) = Inr (RB_INSERT_OK, s')"
    using demo_insert by (auto simp: rb_insert_op_def rb_fuel_def)
  then show ?thesis using rb_insert_delete_roundtrip [OF demo_contents demo_valid(1) s'] by auto
qed

lemma find_prev_rep:
  assumes "rb_rep h tree t" and "height t < fuel"
  shows "\<exists>p. rb_find_prev_by_start fuel h tree start = Inr p
     \<and> (let rs = filter (\<lambda>r. rstart r < start) (ranges t) in
        if rs = [] then p = node_nil else range_at (heap_nodes h) p (last rs))"
proof -
  have at: "tree_at (heap_nodes h) t" "rb_sorted t" "rb_tree_valid tree" "tree_root tree = root t"
    using assms(1) by (auto simp: rb_rep_def)
  define es where "es = filter (\<lambda>e. rstart (snd e) < start) (entries t)"
  have rs: "filter (\<lambda>r. rstart r < start) (ranges t) = map snd es"
    by (simp add: es_def filter_map o_def flip: snd_entries(1))
  have mem: "es \<noteq> [] \<Longrightarrow> range_at (heap_nodes h) (fst (last es)) (snd (last es))"
    using last_in_set [of es] entries_at [OF at(1), of "last es"] by (auto simp: es_def)
  then have "node_valid (last_or node_nil (map fst es))"
    by (cases "es = []") (auto simp: last_or_def last_map range_at_def)
  then have "rb_find_prev_by_start fuel h tree start = Inr (last_or node_nil (map fst es))"
    using find_prev_tree [OF at(1,2) assms(2), of start node_nil] at(3,4)
    by (simp add: rb_find_prev_by_start_def es_def)
  then show ?thesis using mem by (auto simp: rs last_or_def last_map Let_def)
qed

text \<open>(C13) \<^verbatim>\<open>rb_find_prev_by_start\<close> returns the node of the last range that starts before the address, \<^verbatim>\<open>node_nil\<close> if there
  is none.\<close>

theorem rb_find_prev_correct:
  assumes "rb_rep h tree t" and "rb_fuel \<le> fuel"
  shows "\<exists>p. rb_find_prev_by_start fuel h tree start = Inr p
     \<and> (let rs = filter (\<lambda>r. rstart r < start) (ranges t) in
        if rs = [] then p = node_nil else range_at (heap_nodes h) p (last rs))"
  using assms(1) rep_height [OF assms] by (rule find_prev_rep)

theorem rb_find_prev_correct_witness:
  "\<exists>tree h p. rb_insert 129 demo_heap demo_tree (demo_range 8) = Inr (RB_INSERT_OK, tree, h)
     \<and> rb_find_prev_by_start 129 h tree 9 = Inr p \<and> range_at (heap_nodes h) p (demo_range 8)
     \<and> rb_find_prev_by_start 129 h tree 8 = Inr node_nil"
proof -
  obtain tree h t where i: "rb_insert 129 demo_heap demo_tree (demo_range 8) = Inr (RB_INSERT_OK, tree, h)"
      "rb_rep h tree t" "ranges t = [demo_range 8]"
    using demo_insert by blast
  then show ?thesis
    using rb_find_prev_correct [OF i(2), of 129 9] rb_find_prev_correct [OF i(2), of 129 8]
    by (auto simp: rb_fuel_def demo_range_def Let_def)
qed

lemma find_next_rep:
  assumes "rb_rep h tree t" and "height t < fuel"
  shows "\<exists>p. rb_find_next_by_start fuel h tree start = Inr p
     \<and> (let rs = filter (\<lambda>r. rstart r > start) (ranges t) in
        if rs = [] then p = node_nil else range_at (heap_nodes h) p (hd rs))"
proof -
  have at: "tree_at (heap_nodes h) t" "rb_sorted t" "rb_tree_valid tree" "tree_root tree = root t"
    using assms(1) by (auto simp: rb_rep_def)
  define es where "es = filter (\<lambda>e. rstart (snd e) > start) (entries t)"
  have rs: "filter (\<lambda>r. rstart r > start) (ranges t) = map snd es"
    by (simp add: es_def filter_map o_def flip: snd_entries(1))
  have mem: "es \<noteq> [] \<Longrightarrow> range_at (heap_nodes h) (fst (hd es)) (snd (hd es))"
    using hd_in_set [of es] entries_at [OF at(1), of "hd es"] by (auto simp: es_def)
  then have "node_valid (hd_or node_nil (map fst es))"
    by (cases "es = []") (auto simp: hd_or_def list.map_sel range_at_def)
  then have "rb_find_next_by_start fuel h tree start = Inr (hd_or node_nil (map fst es))"
    using find_next_tree [OF at(1,2) assms(2), of start node_nil] at(3,4)
    by (simp add: rb_find_next_by_start_def es_def)
  then show ?thesis using mem by (auto simp: rs hd_or_def list.map_sel Let_def)
qed

text \<open>(C14) \<^verbatim>\<open>rb_find_next_by_start\<close> returns the node of the first range that starts after the address, \<^verbatim>\<open>node_nil\<close> if
  there is none.\<close>

theorem rb_find_next_correct:
  assumes "rb_rep h tree t" and "rb_fuel \<le> fuel"
  shows "\<exists>p. rb_find_next_by_start fuel h tree start = Inr p
     \<and> (let rs = filter (\<lambda>r. rstart r > start) (ranges t) in
        if rs = [] then p = node_nil else range_at (heap_nodes h) p (hd rs))"
  using assms(1) rep_height [OF assms] by (rule find_next_rep)

theorem rb_find_next_correct_witness:
  "\<exists>tree h p. rb_insert 129 demo_heap demo_tree (demo_range 8) = Inr (RB_INSERT_OK, tree, h)
     \<and> rb_find_next_by_start 129 h tree 3 = Inr p \<and> range_at (heap_nodes h) p (demo_range 8)
     \<and> rb_find_next_by_start 129 h tree 8 = Inr node_nil"
proof -
  obtain tree h t where i: "rb_insert 129 demo_heap demo_tree (demo_range 8) = Inr (RB_INSERT_OK, tree, h)"
      "rb_rep h tree t" "ranges t = [demo_range 8]"
    using demo_insert by blast
  then show ?thesis
    using rb_find_next_correct [OF i(2), of 129 3] rb_find_next_correct [OF i(2), of 129 8]
    by (auto simp: rb_fuel_def demo_range_def Let_def)
qed

text \<open>(C15) The code's own check of the threaded list, \<^verbatim>\<open>rb_list_validate\<close>, passes every one of its assertions in every
  state that satisfies the representation invariant.\<close>

theorem rb_list_validate_accepts:
  assumes "rb_rep h tree t" and "length (ranges t) < fuel"
  shows "rb_list_validate fuel h tree = Inr ()"
  using assms by (rule validate_rep)

theorem rb_list_validate_accepts_witness:
  "\<exists>tree h. rb_insert 129 demo_heap demo_tree (demo_range 8) = Inr (RB_INSERT_OK, tree, h) \<and> rb_list_validate 2 h tree = Inr ()"
proof -
  obtain tree h t where i: "rb_insert 129 demo_heap demo_tree (demo_range 8) = Inr (RB_INSERT_OK, tree, h)"
      "rb_rep h tree t" "ranges t = [demo_range 8]"
    using demo_insert by blast
  then show ?thesis using rb_list_validate_accepts [OF i(2), of 2] by auto
qed

text \<open>With \<open>n\<close> ranges the height of a tree is at most \<open>2 log (n + 1)\<close>.\<close>

lemma height_logarithmic:
  assumes "rb_rep h tree t" and "Suc (length (ranges t)) < 2 ^ (fuel div 2)"
  shows "height t < fuel"
proof -
  have b: "rb_balanced t" using assms(1) by (simp add: rb_rep_def)
  then have "height t div 2 \<le> bheight t" using height_bheight [of t] by (simp add: rb_balanced_def)
  then have "(2::nat) ^ (height t div 2) \<le> 2 ^ bheight t" by (rule power_increasing) simp
  also have "\<dots> \<le> Suc (length (ranges t))" using b bheight_size by (simp add: rb_balanced_def)
  also note assms(2)
  finally have "height t div 2 < fuel div 2" by (rule power_less_imp_less_exp [rotated]) simp
  then show ?thesis by linarith
qed

text \<open>(C12) The recursion of the code is logarithmic: in the state that any sequence of insertions and deletions on an empty tree
  ends in, with \<open>n\<close> ranges stored, insertion, deletion, the two searches and \<^verbatim>\<open>rb_clear\<close> all return within any depth \<open>fuel\<close> with
  \<open>n + 1 < 2 ^ (fuel div 2)\<close>, that is of about \<open>2 log (n + 1)\<close> calls. The fuel of the model is the number of nested calls, or of
  iterations of a loop that descends the tree.\<close>

theorem rb_recursion_logarithmic:
  assumes "rb_contents s []" and "\<forall>p \<in> set ops. test_range_valid (op_range p)" and "test_range_valid x"
    and "Suc (length (snd (spec_run ops (memory_run rb_has_memory rb_insert_op rb_delete_op s ops) []))) < 2 ^ (fuel div 2)"
  shows "\<exists>sts h tree. run_ops rb_insert_op rb_delete_op s ops = Inr (sts, h, tree)
     \<and> (\<exists>r. rb_insert fuel h tree x = Inr r) \<and> (\<exists>r. rb_delete fuel h tree x = Inr r)
     \<and> (\<exists>r. rb_find_prev_by_start fuel h tree start = Inr r) \<and> (\<exists>r. rb_find_next_by_start fuel h tree start = Inr r)
     \<and> (\<exists>r. rb_clear fuel h tree = Inr r)"
proof -
  obtain sts h tree where run: "run_ops rb_insert_op rb_delete_op s ops = Inr (sts, h, tree)"
      "rb_contents (h, tree) (snd (spec_run ops (memory_run rb_has_memory rb_insert_op rb_delete_op s ops) []))"
    using rb.run_ops_total [OF assms(1,2)] by auto
  then obtain t where t: "rb_rep h tree t" "ranges t = snd (spec_run ops (memory_run rb_has_memory rb_insert_op rb_delete_op s ops) [])"
    by (auto simp: rb_contents_def)
  have fuel: "height t < fuel" using height_logarithmic [OF t(1)] assms(4) t(2) by simp
  have "\<exists>r. rb_insert fuel h tree x = Inr r"
    using rb_insert_overlap [OF t(1) assms(3) _ fuel] rb_insert_oom [OF t(1) assms(3) _ _ fuel] rb_insert_ok [OF t(1) assms(3) _ _ fuel] by blast
  moreover have "\<exists>r. rb_delete fuel h tree x = Inr r" using rb_delete_ok [OF t(1) assms(3) fuel] by blast
  moreover have "\<exists>r. rb_find_prev_by_start fuel h tree start = Inr r" using find_prev_rep [OF t(1) fuel] by blast
  moreover have "\<exists>r. rb_find_next_by_start fuel h tree start = Inr r" using find_next_rep [OF t(1) fuel] by blast
  moreover have "\<exists>r. rb_clear fuel h tree = Inr r" using rb_clear_ok [OF t(1) fuel] by blast
  ultimately show ?thesis using run(1) by blast
qed

text \<open>With one range stored, a depth of four is enough.\<close>

theorem rb_recursion_logarithmic_witness:
  "\<exists>sts h tree r. run_ops rb_insert_op rb_delete_op (demo_heap, demo_tree) [Insert (demo_range 8)] = Inr (sts, h, tree)
     \<and> rb_insert 4 h tree (demo_range 3) = Inr r"
proof -
  obtain s1 where "rb_insert_op (demo_heap, demo_tree) (demo_range 8) = Inr (RB_INSERT_OK, s1)"
    using rb_insert_law [OF demo_contents demo_valid(1)] demo_has_memory by (auto simp: overlap_any_def)
  then have "length (snd (spec_run [Insert (demo_range 8)] (memory_run rb_has_memory rb_insert_op rb_delete_op (demo_heap, demo_tree)
      [Insert (demo_range 8)]) [])) = 1"
    using demo_has_memory by (simp add: overlap_any_def insert_range_def)
  then show ?thesis using rb_recursion_logarithmic [OF demo_contents _ demo_valid(2), of "[Insert (demo_range 8)]" 4] by fastforce
qed

text \<open>(C16) \<^verbatim>\<open>rb_clear\<close> always returns and leaves an empty tree whose pool still accounts for every node: the nodes of the tree
  are all on the free list.\<close>

theorem rb_clear_correct:
  assumes "rb_rep h tree t" and "rb_fuel \<le> fuel"
  shows "\<exists>tree' h'. rb_clear fuel h tree = Inr (tree', h') \<and> rb_rep h' tree' Tip"
  using assms(1) rep_height [OF assms] by (rule rb_clear_ok)

theorem rb_clear_correct_witness:
  "\<exists>tree h tree' h'. rb_insert 129 demo_heap demo_tree (demo_range 8) = Inr (RB_INSERT_OK, tree, h)
     \<and> rb_clear 129 h tree = Inr (tree', h') \<and> rb_rep h' tree' Tip"
proof -
  obtain tree h t where i: "rb_insert 129 demo_heap demo_tree (demo_range 8) = Inr (RB_INSERT_OK, tree, h)"
      "rb_rep h tree t" "ranges t = [demo_range 8]"
    using demo_insert by blast
  then show ?thesis using rb_clear_correct [OF i(2), of 129] by (auto simp: rb_fuel_def)
qed


text \<open>(C17) \<^verbatim>\<open>rb_tree_init\<close> on a zeroed struct reports whether it got its first page; when it did, the tree satisfies the
  representation invariant with no ranges. The hypotheses on the page are what \<^verbatim>\<open>calloc\<close> promises: aligned
  memory, apart from every other object.\<close>

theorem rb_tree_init_correct:
  assumes "ok_ptr (tree_list tree)" and "tree_list tree \<in> dom (heap_nodes h)" and "free_list tree = 0"
    and "pages_ok (tree_list tree) (filter (\<lambda>q. q \<noteq> 0) (page_supply h))"
  shows "\<exists>ok tree' h'. rb_tree_init h tree = Inr (ok, tree', h') \<and> (ok \<longleftrightarrow> fst (page_alloc h) \<noteq> 0)
     \<and> (if ok then rb_rep h' tree' Tip else tree_root tree' = node_nil \<and> heap_nodes h' = heap_nodes h)"
proof (cases "fst (page_alloc h) = 0")
  case True
  then show ?thesis
    by (auto simp: rb_tree_init_def rb_nodes_create_def page_alloc_def split: list.splits if_splits)
next
  case False
  then obtain p ps where p: "page_supply h = p # ps" "p \<noteq> 0"
    by (auto simp: page_alloc_def split: list.splits if_splits)
  then show ?thesis using rb_tree_init_ok [OF assms(1-3) p] assms(4) False by auto
qed

definition fresh_heap :: "ptr list \<Rightarrow> rb_heap" where
  "fresh_heap supply = \<lparr> heap_nodes = [0x2000 \<mapsto> node_zero], heap_pages = Map.empty, page_supply = supply \<rparr>"

definition fresh_tree :: RB_Tree where
  "fresh_tree = \<lparr> tree_root = 0, tree_list = 0x2000, free_list = 0, tree_nodes = 0, current_node = 0 \<rparr>"

lemma fresh_ok:
  "ok_ptr (tree_list fresh_tree)" "tree_list fresh_tree \<in> dom (heap_nodes (fresh_heap ps))" "free_list fresh_tree = 0"
  "pages_ok (tree_list fresh_tree) [0x10000]"
  using demo_page
  by (simp_all add: fresh_tree_def fresh_heap_def ok_ptr_def node_valid_def node_get_def node_nil_def pages_ok_def)

theorem rb_tree_init_correct_witness:
  "\<exists>tree' h'. rb_tree_init (fresh_heap [0x10000]) fresh_tree = Inr (True, tree', h') \<and> rb_rep h' tree' Tip"
  using rb_tree_init_correct [OF fresh_ok(1,2,3), of "[0x10000]"] fresh_ok(4)
  by (auto simp: fresh_heap_def page_alloc_def)

text \<open>(C18) \<^verbatim>\<open>rb_destroy\<close> returns, gives every page of the tree back exactly once, and zeroes the struct, which makes it
  invalid for every later call.\<close>

theorem rb_destroy_correct:
  assumes "rb_rep h tree t"
  shows "\<exists>pages. page_chain (heap_pages h) (tree_nodes tree) pages \<and> distinct pages
     \<and> (\<forall>fuel > length pages. \<exists>tree' h'. rb_destroy fuel h tree = Inr (tree', h') \<and> \<not> rb_tree_valid tree'
          \<and> heap_pages h' = (heap_pages h) |` (- set pages)
          \<and> (\<forall>a \<in> set (addrs t). heap_nodes h' a = None))"
  using assms by (rule destroy_rep_pages)

theorem rb_destroy_correct_witness:
  "\<exists>pages. page_chain (heap_pages demo_heap) (tree_nodes demo_tree) pages
     \<and> (\<exists>tree' h'. rb_destroy (Suc (length pages)) demo_heap demo_tree = Inr (tree', h') \<and> \<not> rb_tree_valid tree')"
  using rb_destroy_correct [OF demo_rep] by blast

section \<open>The program\<close>

definition main_ranges :: "Test_Range list" where
  "main_ranges =
     [\<lparr> rstart = 8, rlen = 1 \<rparr>, \<lparr> rstart = 3, rlen = 1 \<rparr>, \<lparr> rstart = 10, rlen = 1 \<rparr>,
      \<lparr> rstart = 1, rlen = 1 \<rparr>, \<lparr> rstart = 6, rlen = 1 \<rparr>, \<lparr> rstart = 14, rlen = 1 \<rparr>,
      \<lparr> rstart = 4, rlen = 1 \<rparr>, \<lparr> rstart = 7, rlen = 1 \<rparr>, \<lparr> rstart = 13, rlen = 1 \<rparr>]"

fun main_inserts :: "nat \<Rightarrow> rb_heap \<Rightarrow> RB_Tree \<Rightarrow> Test_Range list \<Rightarrow> (RB_Tree \<times> rb_heap) result" where
  "main_inserts fuel h tree [] = Inr (tree, h)"
| "main_inserts fuel h tree (r # rs) =
     sbind (rb_insert fuel h tree r) (\<lambda>(status, tree, h).
     sbind (rb_list_validate fuel h tree) (\<lambda>_.
     main_inserts fuel h tree rs))"

fun main_deletes :: "nat \<Rightarrow> rb_heap \<Rightarrow> RB_Tree \<Rightarrow> Test_Range list \<Rightarrow> (RB_Tree \<times> rb_heap) result" where
  "main_deletes fuel h tree [] = Inr (tree, h)"
| "main_deletes fuel h tree (r # rs) =
     sbind (rb_delete fuel h tree r) (\<lambda>(tree, h).
     sbind (rb_list_validate fuel h tree) (\<lambda>_.
     main_deletes fuel h tree rs))"

text \<open>\<^verbatim>\<open>main\<close> without its output.\<close>

definition rb_main :: "nat \<Rightarrow> rb_heap \<Rightarrow> RB_Tree \<Rightarrow> int result" where
  "rb_main fuel h tree =
     sbind (rb_tree_init h tree) (\<lambda>(ok, tree, h).
     sbind (c_assert ok ''rb_tree_init(&tree)'') (\<lambda>_.
     sbind (rb_list_validate fuel h tree) (\<lambda>_.
     sbind (main_inserts fuel h tree main_ranges) (\<lambda>(tree, h).
     sbind (main_deletes fuel h tree
              [\<lparr> rstart = 1, rlen = 1 \<rparr>, \<lparr> rstart = 14, rlen = 1 \<rparr>, \<lparr> rstart = 8, rlen = 1 \<rparr>]) (\<lambda>(tree, h).
     sbind (rb_destroy fuel h tree) (\<lambda>(tree, h).
     Inr 0))))))"

lemma length_spec_insert: "length (insert_range x rs) = Suc (length rs)"
  unfolding insert_range_def
  by (metis add_Suc_right length_append list.size(4) takeWhile_dropWhile_id add.right_neutral)

lemma rb_insert_rep:
  assumes "rb_rep h tree t" "test_range_valid x" "rb_fuel \<le> fuel"
  shows "\<exists>status tree' h' t'. rb_insert fuel h tree x = Inr (status, tree', h') \<and> rb_rep h' tree' t'
     \<and> length (ranges t') \<le> Suc (length (ranges t))"
proof -
  have so: "rb_sorted t" using assms(1) by (simp add: rb_rep_def)
  note fuel = rep_height [OF assms(1,3)]
  consider "overlapping x t" | "\<not> overlapping x t" "out_of_nodes h tree" | "\<not> overlapping x t" "\<not> out_of_nodes h tree"
    by blast
  then show ?thesis
  proof cases
    case 1
    then show ?thesis using rb_insert_overlap [OF assms(1,2) 1 fuel] assms(1) by (meson le_Suc_eq order_refl)
  next
    case 2
    then show ?thesis using rb_insert_oom [OF assms(1,2) 2 fuel] by (meson le_Suc_eq order_refl)
  next
    case 3
    then obtain a tree' h' where "rb_insert fuel h tree x = Inr (RB_INSERT_OK, tree', h')"
        "rb_rep h' tree' (paint RBC_BLACK (ins a x t))"
      using rb_insert_ok [OF assms(1,2) 3 fuel] by blast
    moreover have "length (ranges (paint RBC_BLACK (ins a x t))) = Suc (length (ranges t))"
      using ins_contents [OF so assms(2) 3(1), of a] by (simp add: length_spec_insert)
    ultimately show ?thesis by (metis order_refl)
  qed
qed

lemma main_inserts_ok:
  "rb_rep h tree t \<Longrightarrow> \<forall>r \<in> set rs. test_range_valid r \<Longrightarrow> rb_fuel \<le> fuel \<Longrightarrow> length (ranges t) + length rs < fuel \<Longrightarrow>
   \<exists>tree' h' t'. main_inserts fuel h tree rs = Inr (tree', h') \<and> rb_rep h' tree' t'
     \<and> length (ranges t') \<le> length (ranges t) + length rs"
proof (induction rs arbitrary: h tree t)
  case (Cons r rs)
  obtain status tree1 h1 t1 where s: "rb_insert fuel h tree r = Inr (status, tree1, h1)" "rb_rep h1 tree1 t1"
      "length (ranges t1) \<le> Suc (length (ranges t))"
    using rb_insert_rep [OF Cons.prems(1)] Cons.prems(2,3) by fastforce
  then obtain tree' h' t' where "main_inserts fuel h1 tree1 rs = Inr (tree', h')" "rb_rep h' tree' t'"
      "length (ranges t') \<le> length (ranges t1) + length rs"
    using Cons.IH [OF s(2)] Cons.prems by auto
  moreover have "rb_list_validate fuel h1 tree1 = Inr ()"
    using validate_rep [OF s(2), of fuel] s(3) Cons.prems(4) by simp
  ultimately show ?case using s by fastforce
qed auto


lemma main_deletes_ok:
  "rb_rep h tree t \<Longrightarrow> \<forall>r \<in> set rs. test_range_valid r \<Longrightarrow> rb_fuel \<le> fuel \<Longrightarrow> length (ranges t) < fuel \<Longrightarrow>
   \<exists>tree' h' t'. main_deletes fuel h tree rs = Inr (tree', h') \<and> rb_rep h' tree' t'"
proof (induction rs arbitrary: h tree t)
  case (Cons r rs)
  have so: "rb_sorted t" using Cons.prems(1) by (simp add: rb_rep_def)
  obtain tree1 h1 t1 where s: "rb_delete fuel h tree r = Inr (tree1, h1)" "rb_rep h1 tree1 t1" "ranges t1 = remove1 r (ranges t)"
    using rb_delete_ok [OF Cons.prems(1), of r fuel] rep_height [OF Cons.prems(1,3)] del_ranges [OF so, of r] Cons.prems(2) by force
  have len: "length (ranges t1) < fuel" using s(3) Cons.prems(4) by (auto simp: length_remove1)
  obtain tree' h' t' where "main_deletes fuel h1 tree1 rs = Inr (tree', h')" "rb_rep h' tree' t'"
    using Cons.IH [OF s(2)] Cons.prems len by auto
  then show ?case using s(1) validate_rep [OF s(2) len] by auto
qed auto

text \<open>(C19) The test program of the file runs to its end whatever \<^verbatim>\<open>calloc\<close> answers after the first page: with enough fuel it
  returns 0, so no assertion of the tree or of \<^verbatim>\<open>rb_list_validate\<close> fails on the way.\<close>

theorem rb_main_returns:
  assumes "ok_ptr (tree_list tree)" and "tree_list tree \<in> dom (heap_nodes h)" and "free_list tree = 0"
    and "page_supply h = p # ps" and "p \<noteq> 0" and "pages_ok (tree_list tree) (p # filter (\<lambda>q. q \<noteq> 0) ps)"
  shows "\<exists>n. \<forall>fuel \<ge> n. rb_main fuel h tree = Inr 0"
proof (intro exI allI impI)
  fix fuel :: nat assume "2 ^ 64 + 200 \<le> fuel"
  then have fuel: "rb_fuel \<le> fuel" "20 < fuel" "2 ^ 64 < fuel" by (simp_all add: rb_fuel_def)
  obtain tree0 h0 where i: "rb_tree_init h tree = Inr (True, tree0, h0)" "rb_rep h0 tree0 Tip"
    using rb_tree_init_ok [OF assms] by blast
  have v: "\<forall>r \<in> set main_ranges. test_range_valid r" by (simp add: main_ranges_def test_range_valid_def UINTPTR_MAX_def)
  have len: "length main_ranges = 9" by (simp add: main_ranges_def)
  obtain tree1 h1 t1 where m: "main_inserts fuel h0 tree0 main_ranges = Inr (tree1, h1)" "rb_rep h1 tree1 t1" "length (ranges t1) \<le> 9"
    using main_inserts_ok [OF i(2) v fuel(1)] fuel(2) len by auto
  have m3: "length (ranges t1) < fuel" using m(3) fuel(2) by simp
  obtain tree2 h2 t2 where d: "main_deletes fuel h1 tree1
       [\<lparr> rstart = 1, rlen = 1 \<rparr>, \<lparr> rstart = 14, rlen = 1 \<rparr>, \<lparr> rstart = 8, rlen = 1 \<rparr>] = Inr (tree2, h2)" "rb_rep h2 tree2 t2"
    using main_deletes_ok [OF m(2) _ fuel(1) m3, of "[\<lparr> rstart = 1, rlen = 1 \<rparr>, \<lparr> rstart = 14, rlen = 1 \<rparr>, \<lparr> rstart = 8, rlen = 1 \<rparr>]"]
    by (auto simp: test_range_valid_def UINTPTR_MAX_def)
  obtain tree3 h3 where "rb_destroy fuel h2 tree2 = Inr (tree3, h3)"
    using destroy_rep [OF d(2) fuel(3)] by blast
  then show "rb_main fuel h tree = Inr 0"
    using i(1) m(1) d(1) validate_rep [OF i(2), of fuel] fuel(2) by (simp add: rb_main_def)
qed

theorem rb_main_returns_witness:
  "\<exists>n. \<forall>fuel \<ge> n. rb_main fuel (fresh_heap [0x10000]) fresh_tree = Inr 0"
  using rb_main_returns [of fresh_tree "fresh_heap [0x10000]" "0x10000" "[]"] fresh_ok(1,3,4) fresh_ok(2) [of "[0x10000]"]
  by (simp add: fresh_heap_def)

end
