(* ===== verification/Kernel_Memory.thy ===== *)
theory Kernel_Memory
  imports Kernel_Prelude
begin

text \<open>
  Memory as the kernel sees it: a byte at every 64-bit address. The four routines of \<^verbatim>\<open>kernel/src/memory.c\<close> are loops
  over it, and the loads and stores of 16, 32 and 64 bits that C pointers to integers compile to are little-endian
  sequences of bytes. The lemmas give the loops their meaning on whole regions: \<open>in_region a n b\<close> says that \<open>b\<close> lies in the
  \<open>n\<close> bytes from \<open>a\<close>.
\<close>

section \<open>The routines of \<^verbatim>\<open>memory.c\<close>\<close>

type_synonym mem = "ptr \<Rightarrow> U8"

text \<open>The loop of \<^verbatim>\<open>memcpy\<close> and the first loop of \<^verbatim>\<open>memmove\<close>: \<open>k\<close> bytes are left, the next one is the \<open>i\<close>-th.\<close>

fun copy_up :: "mem \<Rightarrow> ptr \<Rightarrow> ptr \<Rightarrow> nat \<Rightarrow> nat \<Rightarrow> mem" where
  "copy_up m pdest psrc i 0 = m"
| "copy_up m pdest psrc i (Suc k) =
     copy_up (m(pdest + of_nat i := m (psrc + of_nat i))) pdest psrc (Suc i) k"

text \<open>The second loop of \<^verbatim>\<open>memmove\<close>, from the end.\<close>

fun copy_down :: "mem \<Rightarrow> ptr \<Rightarrow> ptr \<Rightarrow> nat \<Rightarrow> mem" where
  "copy_down m pdest psrc 0 = m"
| "copy_down m pdest psrc (Suc k) =
     copy_down (m(pdest + of_nat k := m (psrc + of_nat k))) pdest psrc k"

definition memcpy :: "mem \<Rightarrow> ptr \<Rightarrow> ptr \<Rightarrow> U64 \<Rightarrow> ptr \<times> mem" where
  "memcpy m dest src n = (dest, copy_up m dest src 0 (unat n))"

fun set_up :: "mem \<Rightarrow> ptr \<Rightarrow> U8 \<Rightarrow> nat \<Rightarrow> nat \<Rightarrow> mem" where
  "set_up m p c i 0 = m"
| "set_up m p c i (Suc k) = set_up (m(p + of_nat i := c)) p c (Suc i) k"

definition memset :: "mem \<Rightarrow> ptr \<Rightarrow> int \<Rightarrow> U64 \<Rightarrow> ptr \<times> mem" where
  "memset m s c n = (s, set_up m s (word_of_int c) 0 (unat n))"

definition memmove :: "mem \<Rightarrow> ptr \<Rightarrow> ptr \<Rightarrow> U64 \<Rightarrow> ptr \<times> mem" where
  "memmove m dest src n =
     (dest, if src > dest then copy_up m dest src 0 (unat n)
            else if src < dest then copy_down m dest src (unat n)
            else m)"

fun compare_up :: "mem \<Rightarrow> ptr \<Rightarrow> ptr \<Rightarrow> nat \<Rightarrow> nat \<Rightarrow> int" where
  "compare_up m p1 p2 i 0 = 0"
| "compare_up m p1 p2 i (Suc k) =
     (if m (p1 + of_nat i) \<noteq> m (p2 + of_nat i)
      then if m (p1 + of_nat i) < m (p2 + of_nat i) then -1 else 1
      else compare_up m p1 p2 (Suc i) k)"

definition memcmp :: "mem \<Rightarrow> ptr \<Rightarrow> ptr \<Rightarrow> U64 \<Rightarrow> int" where
  "memcmp m s1 s2 n = compare_up m s1 s2 0 (unat n)"

section \<open>Integers in memory\<close>

fun load_le :: "mem \<Rightarrow> ptr \<Rightarrow> nat \<Rightarrow> 'a::len word" where
  "load_le m a 0 = 0"
| "load_le m a (Suc n) = ucast (m a) OR push_bit 8 (load_le m (a + 1) n)"

fun store_le :: "mem \<Rightarrow> ptr \<Rightarrow> nat \<Rightarrow> 'a::len word \<Rightarrow> mem" where
  "store_le m a 0 v = m"
| "store_le m a (Suc n) v = store_le (m(a := ucast v)) (a + 1) n (drop_bit 8 v)"

definition load_u16 :: "mem \<Rightarrow> ptr \<Rightarrow> U16" where
  "load_u16 m a = load_le m a 2"

definition load_u32 :: "mem \<Rightarrow> ptr \<Rightarrow> U32" where
  "load_u32 m a = load_le m a 4"

definition load_u64 :: "mem \<Rightarrow> ptr \<Rightarrow> U64" where
  "load_u64 m a = load_le m a 8"

definition store_u16 :: "mem \<Rightarrow> ptr \<Rightarrow> U16 \<Rightarrow> mem" where
  "store_u16 m a v = store_le m a 2 v"

definition store_u64 :: "mem \<Rightarrow> ptr \<Rightarrow> U64 \<Rightarrow> mem" where
  "store_u64 m a v = store_le m a 8 v"

section \<open>Regions\<close>

definition in_region :: "ptr \<Rightarrow> nat \<Rightarrow> ptr \<Rightarrow> bool" where
  "in_region a n b \<longleftrightarrow> unat (b - a) < n"

text \<open>The memory after \<open>n\<close> bytes have been copied at once.\<close>

definition copied :: "mem \<Rightarrow> ptr \<Rightarrow> ptr \<Rightarrow> nat \<Rightarrow> mem" where
  "copied m dest src n = (\<lambda>a. if in_region dest n a then m (src + (a - dest)) else m a)"

lemma unat_of_nat64: "i < 2 ^ 64 \<Longrightarrow> unat (of_nat i :: U64) = i"
  by (simp add: unsigned_of_nat take_bit_nat_eq_self_iff)

lemma offset_eq: "i < 2 ^ 64 \<Longrightarrow> a = p + (of_nat i :: U64) \<longleftrightarrow> unat (a - p) = i"
proof -
  assume i: "i < 2 ^ 64"
  have "a = p + of_nat i \<longleftrightarrow> a - p = of_nat i" by (metis add_diff_cancel_left' diff_add_cancel add.commute)
  also have "\<dots> \<longleftrightarrow> unat (a - p) = i" using unat_of_nat64 [OF i] by (metis of_nat_unat ucast_id)
  finally show ?thesis .
qed

lemma copy_up_spec:
  assumes "\<And>j j'. j < j' \<Longrightarrow> j' < n \<Longrightarrow> p + of_nat j \<noteq> q + (of_nat j' :: U64)" "n \<le> 2 ^ 64"
  shows "i + k = n \<Longrightarrow> copy_up m p q i k = (\<lambda>a. if i \<le> unat (a - p) \<and> unat (a - p) < n then m (q + (a - p)) else m a)"
proof (induction k arbitrary: i m)
  case (Suc k)
  have i: "i < 2 ^ 64" and e: "Suc i + k = n" using Suc.prems assms(2) by simp_all
  let ?m = "m(p + of_nat i := m (q + of_nat i))"
  have keep: "?m (q + (a - p)) = m (q + (a - p))" if "Suc i \<le> unat (a - p)" "unat (a - p) < n" for a
    using assms(1) [of i "unat (a - p)"] that by (auto simp: of_nat_unat)
  have other: "unat (a - p) \<noteq> i \<Longrightarrow> ?m a = m a" and same: "unat (a - p) = i \<Longrightarrow> ?m a = m (q + (a - p))" for a
    using offset_eq [OF i, of a p] by auto
  note IH = fun_cong [OF Suc.IH [OF e, of ?m]]
  show ?case
  proof (rule ext)
    fix a
    consider "unat (a - p) = i" | "unat (a - p) < i" | "Suc i \<le> unat (a - p)" by linarith
    then show "copy_up m p q i (Suc k) a = (if i \<le> unat (a - p) \<and> unat (a - p) < n then m (q + (a - p)) else m a)"
    proof cases
      case 1
      then show ?thesis unfolding copy_up.simps IH [of a] using same [OF 1] e by simp
    next
      case 2
      then show ?thesis unfolding copy_up.simps IH [of a] using other [of a] by simp
    next
      case 3
      then show ?thesis unfolding copy_up.simps IH [of a] using keep [of a] other [of a] by simp
    qed
  qed
qed (auto simp: fun_eq_iff)

lemma copy_down_spec:
  assumes "\<And>j j'. j < j' \<Longrightarrow> j' < n \<Longrightarrow> p + of_nat j' \<noteq> q + (of_nat j :: U64)" "n \<le> 2 ^ 64"
  shows "k \<le> n \<Longrightarrow> copy_down m p q k = copied m p q k"
proof (induction k arbitrary: m)
  case (Suc k)
  have k: "k < 2 ^ 64" using Suc.prems assms(2) by simp
  let ?m = "m(p + of_nat k := m (q + of_nat k))"
  have k': "k \<le> n" using Suc.prems by simp
  note IH = fun_cong [OF Suc.IH [OF k', of ?m]]
  have keep: "?m (q + (a - p)) = m (q + (a - p))" if "unat (a - p) < k" for a
    using assms(1) [of "unat (a - p)" k] that Suc.prems by (auto simp: of_nat_unat)
  have other: "unat (a - p) \<noteq> k \<Longrightarrow> ?m a = m a" and same: "unat (a - p) = k \<Longrightarrow> ?m a = m (q + (a - p))" for a
    using offset_eq [OF k, of a p] by auto
  show ?case
  proof (rule ext)
    fix a
    consider "unat (a - p) = k" | "unat (a - p) < k" | "k < unat (a - p)" by linarith
    then show "copy_down m p q (Suc k) a = copied m p q (Suc k) a"
      unfolding copy_down.simps IH [of a] copied_def in_region_def
      using keep [of a] other [of a] same [of a] by cases simp_all
  qed
qed (simp add: copied_def in_region_def)

lemma set_up_spec:
  "i + k \<le> 2 ^ 64 \<Longrightarrow> set_up m p c i k = (\<lambda>a. if i \<le> unat (a - p) \<and> unat (a - p) < i + k then c else m a)"
proof (induction k arbitrary: i m)
  case (Suc k)
  have i: "i < 2 ^ 64" using Suc.prems by simp
  have e: "Suc i + k \<le> 2 ^ 64" using Suc.prems by simp
  let ?m = "m(p + of_nat i := c)"
  note IH = fun_cong [OF Suc.IH [OF e, of ?m]]
  have other: "unat (a - p) \<noteq> i \<Longrightarrow> ?m a = m a" and same: "unat (a - p) = i \<Longrightarrow> ?m a = c" for a
    using offset_eq [OF i, of a p] by auto
  show ?case
  proof (rule ext)
    fix a
    consider "unat (a - p) = i" | "unat (a - p) < i" | "Suc i \<le> unat (a - p)" by linarith
    then show "set_up m p c i (Suc k) a = (if i \<le> unat (a - p) \<and> unat (a - p) < i + Suc k then c else m a)"
      unfolding set_up.simps IH [of a] using other [of a] same [of a] by cases simp_all
  qed
qed (auto simp: fun_eq_iff)

section \<open>What the routines do\<close>

lemma unat_add_region: "unat p + n \<le> 2 ^ 64 \<Longrightarrow> j < n \<Longrightarrow> unat (p + (of_nat j :: U64)) = unat p + j"
  using unat_of_nat64 [of j] by (simp add: unat_word_ariths)

lemma copy_up_copied:
  assumes "unat dest + n \<le> 2 ^ 64" "unat src + n \<le> 2 ^ 64" "dest < src \<or> unat src + n \<le> unat dest"
  shows "copy_up m dest src 0 n = copied m dest src n"
proof -
  have "dest + of_nat j \<noteq> src + (of_nat j' :: U64)" if "j < j'" "j' < n" for j j'
    using unat_add_region [OF assms(1), of j] unat_add_region [OF assms(2), of j'] that assms(3)
    by (auto simp: word_less_nat_alt)
  then show ?thesis
    using copy_up_spec [of n dest src 0 n m] assms(1) by (simp add: copied_def in_region_def)
qed

lemma memcpy_copied:
  assumes "unat dest + unat n \<le> 2 ^ 64" "unat src + unat n \<le> 2 ^ 64"
    "unat dest + unat n \<le> unat src \<or> unat src + unat n \<le> unat dest"
  shows "memcpy m dest src n = (dest, copied m dest src (unat n))"
proof (cases "unat n = 0")
  case False
  then show ?thesis
    using copy_up_copied [OF assms(1,2)] assms(3) by (auto simp: memcpy_def word_less_nat_alt)
qed (simp add: memcpy_def copied_def in_region_def)

lemma memset_region:
  "memset m s c n = (s, \<lambda>a. if in_region s (unat n) a then word_of_int c else m a)"
  using set_up_spec [of 0 "unat n" m s "word_of_int c"] unsigned_less [of n, where ?'a = nat]
  by (simp add: memset_def in_region_def)

text \<open>(C38) \<^verbatim>\<open>memmove\<close> copies the region as it was before the call, also when source and destination overlap in either
  direction, leaves every other byte alone and returns the destination.\<close>

theorem memmove_correct:
  assumes "unat dest + unat n \<le> 2 ^ 64" and "unat src + unat n \<le> 2 ^ 64"
  shows "memmove m dest src n = (dest, \<lambda>a. if in_region dest (unat n) a then m (src + (a - dest)) else m a)"
proof -
  consider "src > dest" | "src < dest" | "src = dest" by fastforce
  then have "memmove m dest src n = (dest, copied m dest src (unat n))"
  proof cases
    case 1
    then show ?thesis using copy_up_copied [OF assms] by (simp add: memmove_def)
  next
    case 2
    have "dest + of_nat j' \<noteq> src + (of_nat j :: U64)" if "j < j'" "j' < unat n" for j j'
      using unat_add_region [OF assms(1), of j'] unat_add_region [OF assms(2), of j] that 2
      by (auto simp: word_less_nat_alt)
    then show ?thesis
      using copy_down_spec [of "unat n" dest src "unat n" m] assms(1) 2 by (auto simp: memmove_def)
  next
    case 3
    then show ?thesis by (simp add: memmove_def copied_def fun_eq_iff)
  qed
  then show ?thesis by (simp add: copied_def)
qed

theorem memmove_correct_witness:
  "unat (0x1001 :: ptr) + unat (4 :: U64) \<le> 2 ^ 64 \<and> snd (memmove (\<lambda>a. ucast a) 0x1001 0x1000 4) 0x1004 = 3"
  using memmove_correct [of "0x1001" 4 "0x1000" "\<lambda>a. ucast a"] by (simp add: in_region_def)

lemma compare_up_zero: "compare_up m p q i k = 0 \<longleftrightarrow> (\<forall>j. i \<le> j \<and> j < i + k \<longrightarrow> m (p + of_nat j) = m (q + of_nat j))"
proof (induction k arbitrary: i)
  case (Suc k)
  have "(\<forall>j. i \<le> j \<and> j < i + Suc k \<longrightarrow> m (p + of_nat j) = m (q + of_nat j))
     \<longleftrightarrow> m (p + of_nat i) = m (q + of_nat i) \<and> (\<forall>j. Suc i \<le> j \<and> j < Suc i + k \<longrightarrow> m (p + of_nat j) = m (q + of_nat j))"
    by (metis Suc_le_eq add_Suc add_Suc_right le_eq_less_or_eq less_add_Suc1 order_refl)
  then show ?case using Suc.IH by simp
qed auto

lemma compare_up_first:
  assumes "i \<le> j" "j < i + k" "m (p + of_nat j) \<noteq> m (q + of_nat j)"
    "\<And>l. i \<le> l \<Longrightarrow> l < j \<Longrightarrow> m (p + of_nat l) = m (q + of_nat l)"
  shows "compare_up m p q i k = (if m (p + of_nat j) < m (q + of_nat j) then -1 else 1)"
  using assms
proof (induction k arbitrary: i)
  case (Suc k)
  show ?case
  proof (cases "i = j")
    case False
    then have "m (p + of_nat i) = m (q + of_nat i)" "Suc i \<le> j" using Suc.prems by auto
    then show ?thesis using Suc.IH [of "Suc i"] Suc.prems by simp
  qed (use Suc.prems in simp)
qed simp

text \<open>(C39) \<^verbatim>\<open>memcmp\<close> is 0 exactly when the two regions hold the same bytes; otherwise its sign is that of the first
  byte that differs.\<close>

theorem memcmp_correct:
  "(memcmp m s1 s2 n = 0 \<longleftrightarrow> (\<forall>j < unat n. m (s1 + of_nat j) = m (s2 + of_nat j)))
   \<and> (\<forall>j < unat n. m (s1 + of_nat j) \<noteq> m (s2 + of_nat j) \<longrightarrow> (\<forall>l < j. m (s1 + of_nat l) = m (s2 + of_nat l)) \<longrightarrow>
        memcmp m s1 s2 n = (if m (s1 + of_nat j) < m (s2 + of_nat j) then -1 else 1))"
proof -
  have "memcmp m s1 s2 n = (if m (s1 + of_nat j) < m (s2 + of_nat j) then -1 else 1)"
    if "j < unat n" "m (s1 + of_nat j) \<noteq> m (s2 + of_nat j)" "\<forall>l < j. m (s1 + of_nat l) = m (s2 + of_nat l)" for j
    using compare_up_first [of 0 j "unat n" m s1 s2] that by (simp add: memcmp_def)
  then show ?thesis using compare_up_zero [of m s1 s2 0 "unat n"] by (auto simp: memcmp_def)
qed

theorem memcmp_correct_witness:
  "memcmp (\<lambda>a. if a < 0x2000 then ucast a else 0) 0x1000 0x2000 3 = 1"
proof -
  let ?m = "\<lambda>a :: ptr. if a < 0x2000 then ucast a else 0 :: U8"
  have "?m (0x1000 + of_nat 1) \<noteq> ?m (0x2000 + of_nat 1)" "\<forall>l < (1::nat). ?m (0x1000 + of_nat l) = ?m (0x2000 + of_nat l)"
    by simp_all
  then show ?thesis using memcmp_correct [of ?m "0x1000" "0x2000" 3] by (auto dest!: spec [of _ "1 :: nat"])
qed

section \<open>Loads and stores\<close>

lemma load_le_numeral: "load_le m a (numeral k) = ucast (m a) OR push_bit 8 (load_le m (a + 1) (pred_numeral k))"
  by (simp add: numeral_eq_Suc)

lemma bit_load_le:
  "bit (load_le m a n :: 'a::len word) k \<longleftrightarrow> k < LENGTH('a) \<and> k < 8 * n \<and> bit (m (a + of_nat (k div 8))) (k mod 8)"
proof (induction n arbitrary: a k)
  case (Suc n)
  have small: "k < 8 \<Longrightarrow> bit (ucast (m a) :: 'a word) k \<longleftrightarrow> k < LENGTH('a) \<and> bit (m a) k"
    and big: "\<not> k < 8 \<Longrightarrow> \<not> bit (ucast (m a) :: 'a word) k"
    by (auto simp: bit_simps dest: bit_imp_le_length)
  show ?case
  proof (cases "k < 8")
    case True
    then show ?thesis using small by (simp add: bit_simps)
  next
    case False
    then have "k div 8 = Suc ((k - 8) div 8)" "k mod 8 = (k - 8) mod 8" by (simp_all add: le_div_geq le_mod_geq)
    moreover from this have "a + 1 + of_nat ((k - 8) div 8) = a + of_nat (k div 8)" by simp
    ultimately show ?thesis
      using Suc.IH [of "a + 1" "k - 8"] big [OF False] False by (auto simp: bit_simps add.assoc)
  qed
qed simp

lemma store_le_region:
  "n \<le> 2 ^ 64 \<Longrightarrow> store_le m a n (v :: 'a::len word) b
     = (if in_region a n b then ucast (drop_bit (8 * unat (b - a)) v) else m b)"
proof (induction n arbitrary: m a v)
  case (Suc n)
  have n: "n \<le> 2 ^ 64" using Suc.prems by simp
  show ?case
  proof (cases "b = a")
    case True
    then have "unat (b - (a + 1)) = 2 ^ 64 - 1" by (simp add: unsigned_minus_1_eq_mask mask_eq_exp_minus_1)
    then have "\<not> in_region (a + 1) n b" using Suc.prems by (simp add: in_region_def)
    then show ?thesis unfolding store_le.simps Suc.IH [OF n] using True by (simp add: in_region_def)
  next
    case False
    then have "b - a \<noteq> 0" by simp
    then have "unat (b - a - 1) = unat (b - a) - 1" and "0 < unat (b - a)"
      by (simp_all add: unat_minus_one unat_gt_0)
    then have "unat (b - (a + 1)) + 1 = unat (b - a)" by (simp add: diff_diff_eq)
    then have "in_region (a + 1) n b = in_region a (Suc n) b"
      "drop_bit (8 * unat (b - (a + 1))) (drop_bit 8 v) = drop_bit (8 * unat (b - a)) v"
      by (auto simp: in_region_def drop_bit_drop_bit add.commute simp flip: \<open>unat (b - (a + 1)) + 1 = unat (b - a)\<close>)
    then show ?thesis unfolding store_le.simps Suc.IH [OF n] using False by simp
  qed
qed (simp add: in_region_def)

lemma in_region_of_nat: "i < 2 ^ 64 \<Longrightarrow> in_region a n (a + of_nat i) \<longleftrightarrow> i < n"
  using unat_of_nat64 [of i] by (simp add: in_region_def)

lemma load_le_cong:
  "8 * n \<le> LENGTH('a) \<Longrightarrow> (\<And>i. i < n \<Longrightarrow> m (a + of_nat i) = m' (a' + of_nat i)) \<Longrightarrow>
   (load_le m a n :: 'a::len word) = load_le m' a' n"
  by (rule bit_word_eqI) (auto simp: bit_load_le less_mult_imp_div_less mult.commute)

lemma load_store_le:
  assumes "8 * n = LENGTH('a::len)" "n \<le> 2 ^ 63"
  shows "load_le (store_le m a n (v :: 'a word)) a n = v"
proof (rule bit_word_eqI)
  fix k assume "k < LENGTH('a)"
  then have k: "k div 8 < n" "k div 8 < 2 ^ 64" using assms by (auto simp: less_mult_imp_div_less mult.commute)
  have "store_le m a n v (a + of_nat (k div 8)) = ucast (drop_bit (8 * (k div 8)) v)"
    using store_le_region [of n m a v "a + of_nat (k div 8)"] assms(2) k unat_of_nat64 [OF k(2)]
    by (simp add: in_region_of_nat)
  moreover have "8 * (k div 8) + k mod 8 = k" by simp
  ultimately show "bit (load_le (store_le m a n v) a n :: 'a word) k = bit v k"
    using \<open>k < LENGTH('a)\<close> assms(1) by (auto simp: bit_load_le bit_simps)
qed

lemma load_u64_store [simp]: "load_u64 (store_u64 m a v) a = v"
  by (simp add: load_u64_def store_u64_def load_store_le)

lemma load_u16_store [simp]: "load_u16 (store_u16 m a v) a = v"
  by (simp add: load_u16_def store_u16_def load_store_le)

text \<open>Two 64-bit objects at different addresses that are multiples of 8 share no byte.\<close>

definition aligned8 :: "ptr \<Rightarrow> bool" where
  "aligned8 a \<longleftrightarrow> 8 dvd unat a"

lemma aligned8_apart:
  assumes "aligned8 a" "aligned8 b" "a \<noteq> b" "i < 8"
  shows "\<not> in_region a 8 (b + of_nat i)"
proof -
  obtain x y where x: "unat a = 8 * x" and y: "unat b = 8 * y" using assms(1,2) by (auto simp: aligned8_def elim!: dvdE)
  have bound: "8 * x < 2 ^ 64" "8 * y < 2 ^ 64"
    using unsigned_less [of a, where ?'a = nat] unsigned_less [of b, where ?'a = nat] x y by simp_all
  have "x \<noteq> y" using x y assms(3) by (metis word_unat_eq_iff)
  have "y < 2 ^ 61" using bound(2) by simp
  then have "8 * y + i < 2 ^ 64" using assms(4) by simp
  then have bi: "unat (b + of_nat i) = 8 * y + i" using y unat_of_nat64 [of i] assms(4) by (simp add: unat_word_ariths)
  have "unat (b + of_nat i - a) = (if 8 * x \<le> 8 * y + i then 8 * y + i - 8 * x else 2 ^ 64 + (8 * y + i) - 8 * x)"
    using unat_sub_if' [of "b + of_nat i" a] bi x by auto
  then show ?thesis using \<open>x \<noteq> y\<close> assms(4) bound by (auto simp: in_region_def split: if_splits)
qed

lemma load_u64_other: "aligned8 a \<Longrightarrow> aligned8 b \<Longrightarrow> a \<noteq> b \<Longrightarrow> load_u64 (store_u64 m a v) b = load_u64 m b"
  unfolding load_u64_def store_u64_def
  by (rule load_le_cong) (simp_all add: store_le_region aligned8_apart)

lemma apart_not_in_region:
  fixes x y :: U64
  assumes "n \<le> unat (y - x)" "n \<le> unat (x - y)" "k < n"
  shows "\<not> in_region (d + x) n (d + y + of_nat k)"
proof -
  have "y \<noteq> x" using assms by auto
  then have "unat (x - y) = 2 ^ 64 - unat (y - x)"
    using unat_sub_if' [of x y] unat_sub_if' [of y x] unsigned_less [of x, where ?'a = nat] unsigned_less [of y, where ?'a = nat]
    by (auto simp: word_unat_eq_iff split: if_splits)
  then have "unat (y - x) + k < 2 ^ 64" using assms by simp
  then have "unat (y - x + of_nat k) = unat (y - x) + k" using unat_of_nat64 [of k] by (simp add: unat_word_ariths)
  moreover have "d + y + of_nat k - (d + x) = y - x + of_nat k" by simp
  ultimately show ?thesis using assms(1) by (simp only: in_region_def)
qed

lemma in_region_offset:
  assumes "in_region (d + of_nat k) n x" "k + n \<le> N" "N \<le> 2 ^ 64"
  shows "in_region d N x"
proof -
  define t where "t = x - (d + of_nat k)"
  have t: "unat t < n" using assms(1) by (simp add: in_region_def t_def)
  have k: "unat (of_nat k :: U64) = k" using assms t by (intro unat_of_nat64) simp
  have "x - d = t + of_nat k" by (simp add: t_def)
  then have "unat (x - d) = unat t + k" using t k assms(2,3) by (simp add: unat_word_ariths)
  then show ?thesis using t assms(2) by (simp add: in_region_def)
qed

end
