(* ===== verification/Kernel_Bytes.thy ===== *)
theory Kernel_Bytes
  imports Kernel_Prelude
begin

text \<open>
  \<^verbatim>\<open>kernel/src/base/base_bytes.c\<close> and \<^verbatim>\<open>base_string.c\<close>. A \<^verbatim>\<open>Bytes\<close> or \<^verbatim>\<open>String\<close> (a pointer with a length) is the list of the
  bytes it covers, a C string is the list of its bytes with the terminator, or NULL. Every access asserts its bounds as in the code.
\<close>

section \<open>The code\<close>

type_synonym Bytes = "U8 list"
type_synonym String = "U8 list"

text \<open>A string literal as the bytes that \<^verbatim>\<open>STR\<close> covers.\<close>

definition STR_of :: "string \<Rightarrow> String" where
  "STR_of s = map of_char s"

definition bytes_get :: "Bytes \<Rightarrow> int \<Rightarrow> U8 result" where
  "bytes_get b i =
     sbind (kassert (0 \<le> i \<and> i < int (length b)) ''0 <= i && i < b.len'') (\<lambda>_.
     array_get b i)"

definition bytes_set :: "Bytes \<Rightarrow> int \<Rightarrow> U8 \<Rightarrow> Bytes result" where
  "bytes_set b i byte =
     sbind (kassert (0 \<le> i \<and> i < int (length b)) ''0 <= i && i < b.len'') (\<lambda>_.
     array_set b i byte)"

definition bytes_slice :: "Bytes \<Rightarrow> int \<Rightarrow> int \<Rightarrow> Bytes result" where
  "bytes_slice b i j =
     sbind (kassert (0 \<le> i \<and> i \<le> j \<and> j \<le> int (length b)) ''0 <= from && from <= to && to <= b.len'') (\<lambda>_.
     Inr (take (nat (j - i)) (drop (nat i) b)))"

text \<open>The loop of \<^verbatim>\<open>bytes_reverse\<close>; \<open>i\<close> and \<open>j\<close> are the offsets of \<^verbatim>\<open>start\<close> and \<^verbatim>\<open>end\<close>.\<close>

function reverse_loop :: "Bytes \<Rightarrow> int \<Rightarrow> int \<Rightarrow> Bytes result" where
  "reverse_loop b i j =
     (if j > i then
        sbind (array_get b i) (\<lambda>temp.
        sbind (array_get b j) (\<lambda>x.
        sbind (array_set b i x) (\<lambda>b.
        sbind (array_set b j temp) (\<lambda>b.
        reverse_loop b (i + 1) (j - 1)))))
      else Inr b)"
  by pat_completeness auto
termination
  by (relation "measure (\<lambda>(b, i, j). nat (j - i))") auto

declare reverse_loop.simps [simp del]

definition bytes_reverse :: "Bytes \<Rightarrow> Bytes result" where
  "bytes_reverse b =
     (if int (length b) \<le> 1 then Inr b
      else reverse_loop b 0 (int (length b) - 1))"

text \<open>The scan of \<^verbatim>\<open>string_from_char\<close>: the length up to the terminator.\<close>

fun char_scan :: "U8 list \<Rightarrow> int \<Rightarrow> int result" where
  "char_scan [] len = Inl (Fault ''string without terminator'')"
| "char_scan (c # cs) len = (if c \<noteq> 0 then char_scan cs (len + 1) else Inr len)"

definition string_from_char :: "U8 list option \<Rightarrow> String result" where
  "string_from_char s =
     (case s of
        None \<Rightarrow> Inr []
      | Some cs \<Rightarrow> sbind (char_scan cs 0) (\<lambda>len. Inr (take (nat len) cs)))"

definition string_get :: "String \<Rightarrow> int \<Rightarrow> U8 result" where
  "string_get s i =
     sbind (kassert (0 \<le> i \<and> i < int (length s)) ''0 <= i && i < s.len'') (\<lambda>_.
     array_get s i)"

section \<open>What it means\<close>

text \<open>A literal in memory: its characters and the terminator.\<close>

definition c_literal :: "string \<Rightarrow> U8 list option" where
  "c_literal s = Some (STR_of s @ [0])"

lemma bytes_get_ok [simp]: "0 \<le> i \<Longrightarrow> i < int (length b) \<Longrightarrow> bytes_get b i = Inr (b ! nat i)"
  by (simp add: bytes_get_def)

lemma bytes_get_fail: "\<not> (0 \<le> i \<and> i < int (length b)) \<Longrightarrow> bytes_get b i = Inl (Assert_Failed ''0 <= i && i < b.len'')"
  by (simp add: bytes_get_def)

lemma bytes_set_ok [simp]: "0 \<le> i \<Longrightarrow> i < int (length b) \<Longrightarrow> bytes_set b i x = Inr (b[nat i := x])"
  by (simp add: bytes_set_def)

lemma bytes_set_fail: "\<not> (0 \<le> i \<and> i < int (length b)) \<Longrightarrow> bytes_set b i x = Inl (Assert_Failed ''0 <= i && i < b.len'')"
  by (simp add: bytes_set_def)

lemma bytes_set_eq_Inr:
  "bytes_set b i x = Inr b' \<longleftrightarrow> 0 \<le> i \<and> i < int (length b) \<and> b' = b[nat i := x]"
  by (cases "0 \<le> i \<and> i < int (length b)") (auto simp: bytes_set_fail)

lemma string_get_ok [simp]: "0 \<le> i \<Longrightarrow> i < int (length s) \<Longrightarrow> string_get s i = Inr (s ! nat i)"
  by (simp add: string_get_def)

lemma bytes_slice_prefix [simp]: "0 \<le> j \<Longrightarrow> j \<le> int (length b) \<Longrightarrow> bytes_slice b 0 j = Inr (take (nat j) b)"
  by (simp add: bytes_slice_def)

lemma reverse_loop_middle:
  "reverse_loop (xs @ ys @ zs) (int (length xs)) (int (length xs) + int (length ys) - 1) = Inr (xs @ rev ys @ zs)"
proof (induction "length ys" arbitrary: xs ys zs rule: less_induct)
  case less
  show ?case
  proof (cases "length ys \<le> 1")
    case True
    then show ?thesis by (cases ys) (auto simp: reverse_loop.simps)
  next
    case False
    then obtain a ms c where ys: "ys = a # ms @ [c]"
      by (cases ys; cases "tl ys" rule: rev_cases) auto
    have j: "int (length xs) + int (length ys) - 1 = int (length xs + Suc (length ms))" using ys by simp
    let ?n = "length xs" and ?m = "length xs + Suc (length ms)" and ?b = "xs @ a # ms @ [c] @ zs"
    have get: "array_get ?b (int ?n) = Inr a" "array_get ?b (int ?m) = Inr c"
      and set1: "array_set ?b (int ?n) c = Inr (xs @ c # ms @ [c] @ zs)"
      and set2: "array_set (xs @ c # ms @ [c] @ zs) (int ?m) a = Inr ((xs @ [c]) @ ms @ a # zs)"
      by (simp_all add: array_get_def array_set_def nth_append list_update_append flip: of_nat_Suc of_nat_add)
    have "reverse_loop ?b (int ?n) (int ?m)
        = reverse_loop ((xs @ [c]) @ ms @ (a # zs)) (int (length (xs @ [c]))) (int (length (xs @ [c])) + int (length ms) - 1)"
      unfolding reverse_loop.simps [of ?b] get set1 sbind_Inr set2 by (simp add: add.commute)
    also have "\<dots> = Inr ((xs @ [c]) @ rev ms @ (a # zs))" by (rule less) (simp add: ys)
    finally show ?thesis unfolding j by (simp add: ys)
  qed
qed

lemma bytes_reverse_rev: "bytes_reverse b = Inr (rev b)"
proof (cases "length b \<le> 1")
  case True
  then show ?thesis by (cases b) (auto simp: bytes_reverse_def)
next
  case False
  then show ?thesis using reverse_loop_middle [of "[]" b "[]"] by (simp add: bytes_reverse_def)
qed

lemma char_scan_ok: "\<forall>c \<in> set cs. c \<noteq> 0 \<Longrightarrow> char_scan (cs @ 0 # rest) n = Inr (n + int (length cs))"
  by (induction cs arbitrary: n) auto

lemma string_from_char_ok: "\<forall>c \<in> set cs. c \<noteq> 0 \<Longrightarrow> string_from_char (Some (cs @ 0 # rest)) = Inr cs"
  by (simp add: string_from_char_def char_scan_ok)

lemma string_from_char_null: "string_from_char None = Inr []"
  by (simp add: string_from_char_def)

lemma of_char_word: "(of_char c :: U8) = of_nat (of_char c)"
  by (cases c) simp
lemma of_char_eq: "(of_char c :: U8) = of_char d \<longleftrightarrow> c = d"
proof -
  have "unat (of_char c :: U8) = of_char c" for c
    unfolding of_char_word by (simp add: unsigned_of_nat take_bit_nat_eq_self_iff)
  then show ?thesis by (metis of_char_eq_iff)
qed
lemma of_char_zero: "(of_char c :: U8) = 0 \<longleftrightarrow> c = CHR 0x00"
  using of_char_eq [of c "CHR 0x00"] by simp

lemma STR_of_append [simp]: "STR_of (a @ b) = STR_of a @ STR_of b"
  by (simp add: STR_of_def)

lemma string_from_char_literal: "CHR 0x00 \<notin> set m \<Longrightarrow> string_from_char (c_literal m) = Inr (STR_of m)"
  by (auto simp: c_literal_def STR_of_def of_char_zero intro!: string_from_char_ok)

end
