(* ===== verification/Kernel_Console.thy ===== *)
theory Kernel_Console
  imports Kernel_Bytes
begin

text \<open>
  Output of the kernel: the ports (\<^verbatim>\<open>base_asm.c\<close>), the serial driver (\<^verbatim>\<open>serial/serial.c\<close>), streams (\<^verbatim>\<open>base_stream.c\<close>) and
  panics (\<^verbatim>\<open>base_panic.c\<close>).

  A stateful function is a \<open>krun\<close>: it maps a state to a result and the state in which it ended, so that what was
  written before a panic is not lost. The device behind the ports is the parameter \<open>port_answer\<close>: what a read of a
  port returns may depend on everything that happened on the ports before. The busy-waiting loops get \<open>poll_limit\<close>
  rounds, after which the result is \<open>Out_Of_Fuel\<close>.

  The assertions of the serial driver itself go through the panic stream, which is the serial driver again. They bound
  an index that the loop around them has just tested, and the lemmas show that they never fail, so that
  circle is cut here: they are lifted without output (\<open>klift_raw\<close>).
\<close>

section \<open>Computations\<close>

type_synonym ('s, 'a) krun = "'s \<Rightarrow> 'a result \<times> 's"

definition kret :: "'a \<Rightarrow> ('s, 'a) krun" where
  "kret x = (\<lambda>s. (Inr x, s))"

definition kstop :: "kerror \<Rightarrow> ('s, 'a) krun" where
  "kstop e = (\<lambda>s. (Inl e, s))"

definition kbind :: "('s, 'a) krun \<Rightarrow> ('a \<Rightarrow> ('s, 'b) krun) \<Rightarrow> ('s, 'b) krun" where
  "kbind m f = (\<lambda>s. case m s of (Inl e, s') \<Rightarrow> (Inl e, s') | (Inr x, s') \<Rightarrow> f x s')"

definition kget :: "('s \<Rightarrow> 'a) \<Rightarrow> ('s, 'a) krun" where
  "kget f = (\<lambda>s. (Inr (f s), s))"

definition kmodify :: "('s \<Rightarrow> 's) \<Rightarrow> ('s, unit) krun" where
  "kmodify f = (\<lambda>s. (Inr (), f s))"

definition klift_raw :: "'a result \<Rightarrow> ('s, 'a) krun" where
  "klift_raw r = (\<lambda>s. (r, s))"

lemma kbind_cong [fundef_cong]:
  "m = m' \<Longrightarrow> (\<And>x s s'. m' s = (Inr x, s') \<Longrightarrow> f x = f' x) \<Longrightarrow> kbind m f = kbind m' f'"
  by (auto simp: kbind_def fun_eq_iff split: prod.splits sum.splits)

section \<open>Ports and the console\<close>

datatype port_event = Inb U16 U8 | Outb U16 U8

text \<open>The kernel has two stream functions; a function pointer to one of them is a value of this type.\<close>

datatype Stream_Function = Stream_No_Op_Func | Serial_Stream_Func

record Stream =
  stream_data :: U64
  stream_func :: Stream_Function

record console =
  port_answer :: "port_event list \<Rightarrow> U16 \<Rightarrow> U8"
  port_log :: "port_event list"
  poll_limit :: nat
  format_output_stream :: Stream
  panic_output_stream :: Stream

definition asm_port_inb :: "U16 \<Rightarrow> ('s console_scheme, U8) krun" where
  "asm_port_inb port =
     (\<lambda>s. let out = port_answer s (port_log s) port
          in (Inr out, s\<lparr> port_log := port_log s @ [Inb port out] \<rparr>))"

definition asm_port_outb :: "U16 \<Rightarrow> U8 \<Rightarrow> ('s console_scheme, unit) krun" where
  "asm_port_outb port data = (\<lambda>s. (Inr (), s\<lparr> port_log := port_log s @ [Outb port data] \<rparr>))"

section \<open>The serial driver\<close>

definition SERIAL_COM1 :: U16 where "SERIAL_COM1 = 0x3F8"

definition SERIAL_PO_RECEIVE_BUFFER :: U16 where "SERIAL_PO_RECEIVE_BUFFER = 0"
definition SERIAL_PO_TRANSMIT_BUFFER :: U16 where "SERIAL_PO_TRANSMIT_BUFFER = 0"
definition SERIAL_PO_INTERRUPT_ENABLE_REGISTER :: U16 where "SERIAL_PO_INTERRUPT_ENABLE_REGISTER = 1"
definition SERIAL_PO_LEAST_DIVISOR :: U16 where "SERIAL_PO_LEAST_DIVISOR = 0"
definition SERIAL_PO_MOST_DIVISOR :: U16 where "SERIAL_PO_MOST_DIVISOR = 1"
definition SERIAL_PO_FIFO_CONTROL_REGISTER :: U16 where "SERIAL_PO_FIFO_CONTROL_REGISTER = 2"
definition SERIAL_PO_LINE_CONTROL_REGISTER :: U16 where "SERIAL_PO_LINE_CONTROL_REGISTER = 3"
definition SERIAL_PO_MODEM_CONTROL_REGISTER :: U16 where "SERIAL_PO_MODEM_CONTROL_REGISTER = 4"
definition SERIAL_PO_LINE_STATUS_REGISTER :: U16 where "SERIAL_PO_LINE_STATUS_REGISTER = 5"

lemmas serial_offsets = SERIAL_PO_RECEIVE_BUFFER_def SERIAL_PO_TRANSMIT_BUFFER_def
  SERIAL_PO_INTERRUPT_ENABLE_REGISTER_def SERIAL_PO_LEAST_DIVISOR_def SERIAL_PO_MOST_DIVISOR_def
  SERIAL_PO_FIFO_CONTROL_REGISTER_def SERIAL_PO_LINE_CONTROL_REGISTER_def SERIAL_PO_MODEM_CONTROL_REGISTER_def
  SERIAL_PO_LINE_STATUS_REGISTER_def

definition serial_init :: "U16 \<Rightarrow> ('s console_scheme, bool) krun" where
  "serial_init port =
     kbind (asm_port_outb (port + SERIAL_PO_INTERRUPT_ENABLE_REGISTER) 0x00) (\<lambda>_.
     kbind (asm_port_outb (port + SERIAL_PO_LINE_CONTROL_REGISTER) 0x80) (\<lambda>_.
     kbind (asm_port_outb (port + SERIAL_PO_LEAST_DIVISOR) 0x03) (\<lambda>_.
     kbind (asm_port_outb (port + SERIAL_PO_MOST_DIVISOR) 0x00) (\<lambda>_.
     kbind (asm_port_outb (port + SERIAL_PO_LINE_CONTROL_REGISTER) 0x03) (\<lambda>_.
     kbind (asm_port_outb (port + SERIAL_PO_FIFO_CONTROL_REGISTER) 0xC7) (\<lambda>_.
     kbind (asm_port_outb (port + SERIAL_PO_MODEM_CONTROL_REGISTER) 0x0B) (\<lambda>_.
     kbind (asm_port_outb (port + SERIAL_PO_MODEM_CONTROL_REGISTER) 0x1E) (\<lambda>_.
     kbind (asm_port_outb (port + SERIAL_PO_TRANSMIT_BUFFER) 0xAE) (\<lambda>_.
     kbind (asm_port_inb (port + SERIAL_PO_RECEIVE_BUFFER)) (\<lambda>x.
     if x \<noteq> 0xAE then kret False
     else kbind (asm_port_outb (port + SERIAL_PO_MODEM_CONTROL_REGISTER) 0x0F) (\<lambda>_. kret True)))))))))))"

definition serial_read_available :: "U16 \<Rightarrow> ('s console_scheme, bool) krun" where
  "serial_read_available port =
     kbind (asm_port_inb (port + SERIAL_PO_LINE_STATUS_REGISTER)) (\<lambda>x. kret (x AND 0x01 \<noteq> 0))"

definition serial_write_available :: "U16 \<Rightarrow> ('s console_scheme, bool) krun" where
  "serial_write_available port =
     kbind (asm_port_inb (port + SERIAL_PO_LINE_STATUS_REGISTER)) (\<lambda>x. kret (x AND 0x20 \<noteq> 0))"

text \<open>The loops \<^verbatim>\<open>while (!available(port));\<close> with their number of rounds.\<close>

fun wait_until :: "nat \<Rightarrow> ('s, bool) krun \<Rightarrow> ('s, unit) krun" where
  "wait_until 0 available = kstop Out_Of_Fuel"
| "wait_until (Suc n) available = kbind available (\<lambda>a. if a then kret () else wait_until n available)"

definition serial_read_blocking :: "U16 \<Rightarrow> ('s console_scheme, U8) krun" where
  "serial_read_blocking port =
     kbind (kget poll_limit) (\<lambda>limit.
     kbind (wait_until limit (serial_read_available port)) (\<lambda>_.
     asm_port_inb port))"

definition serial_write_blocking :: "U16 \<Rightarrow> U8 \<Rightarrow> ('s console_scheme, unit) krun" where
  "serial_write_blocking port data =
     kbind (kget poll_limit) (\<lambda>limit.
     kbind (wait_until limit (serial_write_available port)) (\<lambda>_.
     asm_port_outb port data))"

function serial_write_string_from :: "U16 \<Rightarrow> String \<Rightarrow> int \<Rightarrow> ('s console_scheme, unit) krun" where
  "serial_write_string_from port str i =
     (if i < int (length str) then
        kbind (klift_raw (string_get str i)) (\<lambda>x.
        kbind (serial_write_blocking port x) (\<lambda>_.
        serial_write_string_from port str (i + 1)))
      else kret ())"
  by pat_completeness auto
termination
  by (relation "measure (\<lambda>(port, str, i). nat (int (length str) - i))") auto

declare serial_write_string_from.simps [simp del]

definition serial_write_string :: "U16 \<Rightarrow> String \<Rightarrow> ('s console_scheme, unit) krun" where
  "serial_write_string port str = serial_write_string_from port str 0"

function serial_write_bytes_from :: "U16 \<Rightarrow> Bytes \<Rightarrow> int \<Rightarrow> ('s console_scheme, unit) krun" where
  "serial_write_bytes_from port buffer i =
     (if i < int (length buffer) then
        kbind (klift_raw (bytes_get buffer i)) (\<lambda>x.
        kbind (serial_write_blocking port x) (\<lambda>_.
        serial_write_bytes_from port buffer (i + 1)))
      else kret ())"
  by pat_completeness auto
termination
  by (relation "measure (\<lambda>(port, buffer, i). nat (int (length buffer) - i))") auto

declare serial_write_bytes_from.simps [simp del]

definition serial_write_bytes :: "U16 \<Rightarrow> Bytes \<Rightarrow> ('s console_scheme, unit) krun" where
  "serial_write_bytes port buffer = serial_write_bytes_from port buffer 0"

text \<open>The second loop of \<^verbatim>\<open>STREAM_OP_READ\<close>: \<open>n\<close> bytes are in the buffer.\<close>

function serial_read_loop :: "U16 \<Rightarrow> Bytes \<Rightarrow> int \<Rightarrow> ('s console_scheme, int \<times> Bytes) krun" where
  "serial_read_loop port buffer n =
     kbind (serial_read_available port) (\<lambda>a.
     if a \<and> n < int (length buffer) then
       kbind (asm_port_inb port) (\<lambda>x.
       kbind (klift_raw (bytes_set buffer n x)) (\<lambda>b.
       serial_read_loop port b (n + 1)))
     else kret (n, buffer))"
  by pat_completeness auto
termination
  by (relation "measure (\<lambda>(port, buffer, n). nat (int (length buffer) - n))")
    (auto simp: klift_raw_def bytes_set_def sbind_eq_Inr array_set_eq_Inr)

declare serial_read_loop.simps [simp del]

section \<open>Streams\<close>

datatype Stream_Operation = STREAM_OP_QUERY | STREAM_OP_WRITE | STREAM_OP_READ

definition STREAM_CAP_WRITE :: U64 where "STREAM_CAP_WRITE = BIT 0"
definition STREAM_CAP_READ :: U64 where "STREAM_CAP_READ = BIT 1"

text \<open>A stream function returns its count and the buffer, into which a read has stored.\<close>

definition stream_no_op_func :: "U64 \<Rightarrow> Stream_Operation \<Rightarrow> Bytes \<Rightarrow> ('s console_scheme, int \<times> Bytes) krun" where
  "stream_no_op_func data op buffer = kret (0, buffer)"

definition serial_stream_func :: "U64 \<Rightarrow> Stream_Operation \<Rightarrow> Bytes \<Rightarrow> ('s console_scheme, int \<times> Bytes) krun" where
  "serial_stream_func data op buffer =
     (let port = ucast data :: U16 in
      case op of
        STREAM_OP_QUERY \<Rightarrow> kret (uint (STREAM_CAP_WRITE OR STREAM_CAP_READ), buffer)
      | STREAM_OP_WRITE \<Rightarrow> kbind (serial_write_bytes port buffer) (\<lambda>_. kret (int (length buffer), buffer))
      | STREAM_OP_READ \<Rightarrow>
          kbind (kget poll_limit) (\<lambda>limit.
          kbind (wait_until limit (serial_read_available port)) (\<lambda>_.
          serial_read_loop port buffer 0)))"

definition serial_stream_make :: "U16 \<Rightarrow> Stream" where
  "serial_stream_make port = \<lparr> stream_data = ucast port, stream_func = Serial_Stream_Func \<rparr>"

definition STREAM_NO_OP :: Stream where
  "STREAM_NO_OP = \<lparr> stream_data = 0, stream_func = Stream_No_Op_Func \<rparr>"

text \<open>The call \<^verbatim>\<open>s.func(s.data, op, bytes)\<close>.\<close>

definition stream_call :: "Stream \<Rightarrow> Stream_Operation \<Rightarrow> Bytes \<Rightarrow> ('s console_scheme, int \<times> Bytes) krun" where
  "stream_call s op bytes =
     (case stream_func s of
        Stream_No_Op_Func \<Rightarrow> stream_no_op_func (stream_data s) op bytes
      | Serial_Stream_Func \<Rightarrow> serial_stream_func (stream_data s) op bytes)"

definition stream_write :: "Stream \<Rightarrow> Bytes \<Rightarrow> ('s console_scheme, int) krun" where
  "stream_write s bytes = kbind (stream_call s STREAM_OP_WRITE bytes) (\<lambda>(n, _). kret n)"

definition stream_write_string :: "Stream \<Rightarrow> String \<Rightarrow> ('s console_scheme, int) krun" where
  "stream_write_string s str = kbind (stream_call s STREAM_OP_WRITE str) (\<lambda>(n, _). kret n)"

definition stream_write_byte :: "Stream \<Rightarrow> U8 \<Rightarrow> ('s console_scheme, int) krun" where
  "stream_write_byte s byte = kbind (stream_call s STREAM_OP_WRITE [byte]) (\<lambda>(n, _). kret n)"

section \<open>Panics\<close>

definition newline :: char where
  "newline = CHR 0x0A"

text \<open>\<^verbatim>\<open>hcf\<close> never returns: what runs after it is the final value \<open>e\<close> of the computation.\<close>

definition hcf :: "kerror \<Rightarrow> ('s, 'a) krun" where
  "hcf e = kstop e"

definition kpanic :: "string \<Rightarrow> ('s console_scheme, 'a) krun" where
  "kpanic panic_message =
     kbind (kget panic_output_stream) (\<lambda>out.
     kbind (stream_write_string out (STR_of ''KPANIC: '')) (\<lambda>_.
     kbind (stream_write_string out (STR_of panic_message)) (\<lambda>_.
     kbind (stream_write_string out (STR_of [newline])) (\<lambda>_.
     hcf (Kpanic panic_message)))))"

definition kassert_trigger_assertion :: "string \<Rightarrow> ('s console_scheme, 'a) krun" where
  "kassert_trigger_assertion message =
     kbind (kget panic_output_stream) (\<lambda>out.
     kbind (stream_write_string out (STR_of ''KPANIC: ASSERTION FAILED: '')) (\<lambda>_.
     kbind (klift_raw (string_from_char (c_literal message))) (\<lambda>m.
     kbind (stream_write_string out m) (\<lambda>_.
     kbind (stream_write_string out (STR_of [newline])) (\<lambda>_.
     hcf (Assert_Failed message))))))"

text \<open>A function without output, whose failures are values, inside one with output.\<close>

definition klift :: "'a result \<Rightarrow> ('s console_scheme, 'a) krun" where
  "klift r =
     (case r of
        Inl (Assert_Failed m) \<Rightarrow> kassert_trigger_assertion m
      | Inl (Kpanic m) \<Rightarrow> kpanic m
      | Inl e \<Rightarrow> kstop e
      | Inr x \<Rightarrow> kret x)"

definition kpanic_set_output_stream :: "Stream \<Rightarrow> ('s console_scheme, unit) krun" where
  "kpanic_set_output_stream s = kmodify (panic_output_stream_update (\<lambda>_. s))"

section \<open>Lemmas on computations\<close>

lemma kbind_kret [simp]: "kbind (kret x) f = f x"
  by (simp add: kbind_def kret_def)

lemma kbind_kstop [simp]: "kbind (kstop e) f = kstop e"
  by (simp add: kbind_def kstop_def)

lemma kbind_assoc: "kbind (kbind m f) g = kbind m (\<lambda>x. kbind (f x) g)"
  by (auto simp: kbind_def fun_eq_iff split: prod.splits sum.splits)

lemma kbind_kret_right [simp]: "kbind m kret = m"
  by (auto simp: kbind_def kret_def fun_eq_iff split: prod.splits sum.splits)

lemma kret_run [simp]: "kret x s = (Inr x, s)"
  by (simp add: kret_def)

lemma kstop_run [simp]: "kstop e s = (Inl e, s)"
  by (simp add: kstop_def)

lemma kget_run [simp]: "kget f s = (Inr (f s), s)"
  by (simp add: kget_def)

lemma kmodify_run [simp]: "kmodify f s = (Inr (), f s)"
  by (simp add: kmodify_def)

lemma kbind_kget [simp]: "kbind (kget f) g s = g (f s) s"
  by (simp add: kbind_def kget_def)

lemma kbind_kmodify [simp]: "kbind (kmodify f) g s = g () (f s)"
  by (simp add: kbind_def kmodify_def)

lemma klift_raw_Inr [simp]: "klift_raw (Inr x) = kret x"
  by (simp add: klift_raw_def kret_def)

lemma klift_Inr [simp]: "klift (Inr x) = kret x"
  by (simp add: klift_def)

lemma klift_Inl [simp]:
  "klift (Inl (Assert_Failed m)) = kassert_trigger_assertion m" "klift (Inl (Kpanic m)) = kpanic m"
  "klift (Inl (Fault m)) = kstop (Fault m)" "klift (Inl Out_Of_Fuel) = kstop Out_Of_Fuel"
  by (simp_all add: klift_def)

lemma kbind_run: "m s = (Inr x, s') \<Longrightarrow> kbind m f s = f x s'"
  by (simp add: kbind_def)

lemma kbind_run_Inl: "m s = (Inl e, s') \<Longrightarrow> kbind m f s = (Inl e, s')"
  by (simp add: kbind_def)

lemma kbind_outb [simp]:
  "kbind (asm_port_outb port x) f s = f () (s\<lparr> port_log := port_log s @ [Outb port x] \<rparr>)"
  by (simp add: kbind_def asm_port_outb_def)

lemma kbind_inb [simp]:
  "kbind (asm_port_inb port) f s = f (port_answer s (port_log s) port)
     (s\<lparr> port_log := port_log s @ [Inb port (port_answer s (port_log s) port)] \<rparr>)"
  by (simp add: kbind_def asm_port_inb_def Let_def)

section \<open>What reaches the device\<close>

text \<open>The bytes written to a port, in order.\<close>

fun sent :: "U16 \<Rightarrow> port_event list \<Rightarrow> U8 list" where
  "sent port [] = []"
| "sent port (Inb p x # log) = sent port log"
| "sent port (Outb p x # log) = (if p = port then x # sent port log else sent port log)"

lemma sent_append [simp]: "sent port (l @ l') = sent port l @ sent port l'"
  by (induction port l rule: sent.induct) auto

text \<open>A device is ready within \<open>n\<close> polls of its line status.\<close>

fun ready_within :: "(port_event list \<Rightarrow> U16 \<Rightarrow> U8) \<Rightarrow> U16 \<Rightarrow> U8 \<Rightarrow> nat \<Rightarrow> port_event list \<Rightarrow> bool" where
  "ready_within answer port bits 0 log \<longleftrightarrow> False"
| "ready_within answer port bits (Suc n) log \<longleftrightarrow>
     (let x = answer log (port + 5)
      in x AND bits \<noteq> 0 \<or> ready_within answer port bits n (log @ [Inb (port + 5) x]))"

text \<open>What a 16550 promises: whatever happened before, the transmitter empties again.\<close>

definition transmits :: "U16 \<Rightarrow> 's console_scheme \<Rightarrow> bool" where
  "transmits port s \<longleftrightarrow> (\<forall>log. ready_within (port_answer s) port 0x20 (poll_limit s) log)"

lemma transmits_log [simp]: "transmits port (s\<lparr> port_log := l \<rparr>) = transmits port s"
  by (simp add: transmits_def)

lemma wait_write:
  "ready_within (port_answer s) port 0x20 n (port_log s) \<Longrightarrow>
   \<exists>l. wait_until n (serial_write_available port) s = (Inr (), s\<lparr> port_log := l \<rparr>) \<and> (\<forall>p. sent p l = sent p (port_log s))"
proof (induction n arbitrary: s)
  case (Suc n)
  let ?x = "port_answer s (port_log s) (port + 5)"
  let ?s = "s\<lparr> port_log := port_log s @ [Inb (port + 5) ?x] \<rparr>"
  have step: "wait_until (Suc n) (serial_write_available port) s
      = (if ?x AND 0x20 \<noteq> 0 then (Inr (), ?s) else wait_until n (serial_write_available port) ?s)"
    by (simp add: serial_write_available_def kbind_assoc serial_offsets)
  show ?case
  proof (cases "?x AND 0x20 = 0")
    case True
    then have "ready_within (port_answer ?s) port 0x20 n (port_log ?s)" using Suc.prems by (simp add: Let_def)
    from Suc.IH [OF this] show ?thesis unfolding step using True by auto
  next
    case False
    then show ?thesis unfolding step by (auto intro!: exI [of _ "port_log ?s"])
  qed
qed simp

lemma serial_write_blocking_ok:
  assumes "transmits port s"
  shows "\<exists>l. serial_write_blocking port x s = (Inr (), s\<lparr> port_log := l \<rparr>)
     \<and> (\<forall>p. sent p l = sent p (port_log s) @ (if p = port then [x] else []))"
proof -
  obtain l where l: "wait_until (poll_limit s) (serial_write_available port) s = (Inr (), s\<lparr> port_log := l \<rparr>)"
    and sent: "\<And>p. sent p l = sent p (port_log s)"
    using wait_write assms by (fastforce simp: transmits_def)
  then have "serial_write_blocking port x s = (Inr (), s\<lparr> port_log := l @ [Outb port x] \<rparr>)"
    by (simp add: serial_write_blocking_def kbind_def [where m = "wait_until _ _"] asm_port_outb_def)
  then show ?thesis using sent by (auto intro!: exI [of _ "l @ [Outb port x]"])
qed

text \<open>Both loops of the driver write the bytes one by one; their bounds assertions hold.\<close>

fun write_each :: "U16 \<Rightarrow> U8 list \<Rightarrow> ('s console_scheme, unit) krun" where
  "write_each port [] = kret ()"
| "write_each port (x # xs) = kbind (serial_write_blocking port x) (\<lambda>_. write_each port xs)"

lemma drop_int_Cons: "0 \<le> i \<Longrightarrow> i < int (length b) \<Longrightarrow> drop (nat i) b = b ! nat i # drop (nat (i + 1)) b"
  by (simp add: Cons_nth_drop_Suc nat_add_distrib)

lemma serial_write_bytes_from_each: "0 \<le> i \<Longrightarrow> serial_write_bytes_from port b i = write_each port (drop (nat i) b)"
proof (induction "nat (int (length b) - i)" arbitrary: i rule: less_induct)
  case less
  then show ?case
    by (cases "i < int (length b)") (simp_all add: serial_write_bytes_from.simps [of port b i] drop_int_Cons)
qed

lemma serial_write_string_from_each: "0 \<le> i \<Longrightarrow> serial_write_string_from port b i = write_each port (drop (nat i) b)"
proof (induction "nat (int (length b) - i)" arbitrary: i rule: less_induct)
  case less
  then show ?case
    by (cases "i < int (length b)") (simp_all add: serial_write_string_from.simps [of port b i] drop_int_Cons)
qed

lemma write_each_ok:
  "transmits port s \<Longrightarrow> \<exists>l. write_each port b s = (Inr (), s\<lparr> port_log := l \<rparr>)
     \<and> (\<forall>p. sent p l = sent p (port_log s) @ (if p = port then b else []))"
proof (induction b arbitrary: s)
  case Nil
  then show ?case by (auto intro!: exI [of _ "port_log s"])
next
  case (Cons x b)
  obtain l where l: "serial_write_blocking port x s = (Inr (), s\<lparr> port_log := l \<rparr>)"
    "\<And>p. sent p l = sent p (port_log s) @ (if p = port then [x] else [])"
    using serial_write_blocking_ok [OF Cons.prems] by blast
  obtain l' where "write_each port b (s\<lparr> port_log := l \<rparr>) = (Inr (), s\<lparr> port_log := l' \<rparr>)"
    "\<And>p. sent p l' = sent p l @ (if p = port then b else [])"
    using Cons.IH [of "s\<lparr> port_log := l \<rparr>"] Cons.prems by auto
  then show ?case using l by (auto simp: kbind_def [where m = "serial_write_blocking _ _"])
qed

section \<open>Streams as an interface\<close>

text \<open>
  \<open>writes ready view m x t\<close>: from a ready state, \<open>m\<close> returns \<open>x\<close>, changes nothing but the port log, appends \<open>t\<close> to what the
  observer \<open>view\<close> sees and leaves the state ready.
\<close>

definition writes ::
    "('s console_scheme \<Rightarrow> bool) \<Rightarrow> ('s console_scheme \<Rightarrow> U8 list) \<Rightarrow> ('s console_scheme, 'a) krun \<Rightarrow> 'a \<Rightarrow> U8 list \<Rightarrow> bool" where
  "writes ready view m x t \<longleftrightarrow> (\<forall>s. ready s \<longrightarrow> (\<exists>l. m s = (Inr x, s\<lparr> port_log := l \<rparr>)
     \<and> ready (s\<lparr> port_log := l \<rparr>) \<and> view (s\<lparr> port_log := l \<rparr>) = view s @ t))"

lemma writes_kret: "writes ready view (kret x) x []"
  unfolding writes_def by (intro allI impI, rule_tac x = "port_log s" in exI) simp

lemma writes_bind: "writes ready view m x t \<Longrightarrow> writes ready view (f x) y u \<Longrightarrow> writes ready view (kbind m f) y (t @ u)"
proof -
  assume m: "writes ready view m x t" and f: "writes ready view (f x) y u"
  have "\<exists>l. kbind m f s = (Inr y, s\<lparr> port_log := l \<rparr>) \<and> ready (s\<lparr> port_log := l \<rparr>) \<and> view (s\<lparr> port_log := l \<rparr>) = view s @ t @ u"
    if r: "ready s" for s
  proof -
    obtain l where l: "m s = (Inr x, s\<lparr> port_log := l \<rparr>)" "ready (s\<lparr> port_log := l \<rparr>)" "view (s\<lparr> port_log := l \<rparr>) = view s @ t"
      using m r unfolding writes_def by blast
    then show ?thesis using f unfolding writes_def by (force simp: kbind_def)
  qed
  then show ?thesis by (simp add: writes_def)
qed

lemma writes_result: "writes ready view m (n, b) t \<Longrightarrow> writes ready view (kbind m (\<lambda>(n, _). kret n)) n t"
  using writes_bind [of ready view m "(n, b)" t "\<lambda>(n, _). kret n" n "[]"] by (simp add: writes_kret)

text \<open>
  The contract of an output stream: what is written appears, as \<open>shown\<close> renders it, after what was there. A client needs
  no more than this of the driver behind the stream.
\<close>

locale stream_output =
  fixes out :: Stream
    and ready :: "'s console_scheme \<Rightarrow> bool"
    and view :: "'s console_scheme \<Rightarrow> U8 list"
    and shown :: "U8 list \<Rightarrow> U8 list"
  assumes call_writes: "\<exists>n. writes ready view (stream_call out STREAM_OP_WRITE b) (n, b) (shown b)"
    and shown_append: "shown (b @ c) = shown b @ shown c"
begin

lemma shown_Nil: "shown [] = []"
  using shown_append [of "[]" "[]"] by simp

lemma write_writes:
  "\<exists>n. writes ready view (stream_write out b) n (shown b)"
  "\<exists>n. writes ready view (stream_write_string out b) n (shown b)"
  "\<exists>n. writes ready view (stream_write_byte out x) n (shown [x])"
  using call_writes [of b] call_writes [of "[x]"]
  by (auto simp: stream_write_def stream_write_string_def stream_write_byte_def intro: writes_result)

text \<open>The result of a write is not used by any caller: what follows it is a continuation.\<close>

lemma then_writes:
  assumes "writes ready view m y t"
  shows "writes ready view (kbind (stream_write out b) (\<lambda>_. m)) y (shown b @ t)"
    and "writes ready view (kbind (stream_write_string out b) (\<lambda>_. m)) y (shown b @ t)"
    and "writes ready view (kbind (stream_write_byte out x) (\<lambda>_. m)) y (shown [x] @ t)"
  using write_writes(1,2) [of b] write_writes(3) [of x] assms by (auto intro: writes_bind)

lemma write_unit:
  "writes ready view (kbind (stream_write out b) (\<lambda>_. kret ())) () (shown b)"
  "writes ready view (kbind (stream_write_string out b) (\<lambda>_. kret ())) () (shown b)"
  "writes ready view (kbind (stream_write_byte out x) (\<lambda>_. kret ())) () (shown [x])"
  using then_writes [OF writes_kret] by (simp_all only: append_Nil2)

end

definition serial_ready :: "U16 \<Rightarrow> 's console_scheme \<Rightarrow> bool" where
  "serial_ready port s \<longleftrightarrow> transmits port s"

definition serial_text :: "U16 \<Rightarrow> 's console_scheme \<Rightarrow> U8 list" where
  "serial_text port s = sent port (port_log s)"

lemma write_each_writes: "writes (serial_ready port) (serial_text port) (write_each port b) () b"
proof -
  have "\<exists>l. write_each port b s = (Inr (), s\<lparr> port_log := l \<rparr>) \<and> sent port l = sent port (port_log s) @ b"
    if "transmits port s" for s :: "'a console_scheme"
    using write_each_ok [OF that, of b] by auto
  then show ?thesis by (simp add: writes_def serial_ready_def serial_text_def)
qed

lemma ucast_U16_U64 [simp]: "ucast (ucast p :: U64) = (p :: U16)"
  by (rule bit_word_eqI) (auto simp: bit_simps)

lemma serial_call: "stream_call (serial_stream_make port) STREAM_OP_WRITE b = kbind (write_each port b) (\<lambda>_. kret (int (length b), b))"
  by (simp add: stream_call_def serial_stream_make_def serial_stream_func_def serial_write_bytes_def serial_write_bytes_from_each Let_def)

interpretation serial: stream_output "serial_stream_make port" "serial_ready port" "serial_text port" "\<lambda>b. b" for port
proof
  fix b
  show "\<exists>n. writes (serial_ready port) (serial_text port) (stream_call (serial_stream_make port) STREAM_OP_WRITE b) (n, b) b"
    unfolding serial_call using writes_bind [OF write_each_writes writes_kret] by fastforce
qed simp

interpretation no_op: stream_output STREAM_NO_OP "\<lambda>s. True" "\<lambda>s. []" "\<lambda>b. []"
proof
  fix b
  show "\<exists>n. writes (\<lambda>s. True) (\<lambda>s. []) (stream_call STREAM_NO_OP STREAM_OP_WRITE b) (n, b) []"
    using writes_kret [of "\<lambda>s. True" "\<lambda>s. []" "(0, b)"] by (auto simp: stream_call_def STREAM_NO_OP_def stream_no_op_func_def)
qed simp

section \<open>Panics on the serial line\<close>

lemma writes_run:
  "writes ready view m x t \<Longrightarrow> ready s \<Longrightarrow>
   \<exists>l. m s = (Inr x, s\<lparr> port_log := l \<rparr>) \<and> ready (s\<lparr> port_log := l \<rparr>) \<and> view (s\<lparr> port_log := l \<rparr>) = view s @ t"
  by (simp add: writes_def)

context stream_output
begin

text \<open>Three strings and a stop: the shape of \<^verbatim>\<open>kpanic\<close> and of a failed assertion.\<close>

lemma message_stop:
  assumes "ready s"
  shows "\<exists>l. kbind (stream_write_string out a) (\<lambda>_. kbind (stream_write_string out b) (\<lambda>_.
           kbind (stream_write_string out c) (\<lambda>_. (hcf e :: ('s console_scheme, 'b) krun)))) s = (Inl e, s\<lparr> port_log := l \<rparr>)
         \<and> view (s\<lparr> port_log := l \<rparr>) = view s @ shown (a @ b @ c)"
proof -
  let ?m = "kbind (stream_write_string out a) (\<lambda>_. kbind (stream_write_string out b) (\<lambda>_. kbind (stream_write_string out c) (\<lambda>_. kret ())))"
  have w: "writes ready view ?m () (shown a @ shown b @ shown c)" by (intro then_writes(2) write_unit)
  obtain l where "?m s = (Inr (), s\<lparr> port_log := l \<rparr>)" "view (s\<lparr> port_log := l \<rparr>) = view s @ shown (a @ b @ c)"
    using writes_run [of ready, OF w assms] by (auto simp: shown_append)
  moreover have "kbind (stream_write_string out a) (\<lambda>_. kbind (stream_write_string out b) (\<lambda>_. kbind (stream_write_string out c) (\<lambda>_. (hcf e :: ('s console_scheme, 'b) krun))))
      = kbind ?m (\<lambda>_. hcf e)" by (simp add: kbind_assoc)
  ultimately show ?thesis using kbind_run [of ?m s "()" "s\<lparr> port_log := l \<rparr>" "\<lambda>_. hcf e"] by (auto simp: hcf_def)
qed

lemma kpanic_stops:
  assumes "ready s" "panic_output_stream s = out"
  shows "\<exists>l. kpanic m s = (Inl (Kpanic m), s\<lparr> port_log := l \<rparr>)
     \<and> view (s\<lparr> port_log := l \<rparr>) = view s @ shown (STR_of (''KPANIC: '' @ m @ [newline]))"
  unfolding kpanic_def kbind_kget assms(2) STR_of_append by (rule message_stop [OF assms(1)])

lemma assertion_stops:
  assumes "ready s" "panic_output_stream s = out" "CHR 0x00 \<notin> set m"
  shows "\<exists>l. kassert_trigger_assertion m s = (Inl (Assert_Failed m), s\<lparr> port_log := l \<rparr>)
     \<and> view (s\<lparr> port_log := l \<rparr>) = view s @ shown (STR_of (''KPANIC: ASSERTION FAILED: '' @ m @ [newline]))"
proof -
  note m = string_from_char_literal [OF assms(3)]
  show ?thesis
    unfolding kassert_trigger_assertion_def kbind_kget assms(2) STR_of_append m klift_raw_Inr kbind_kret
    by (rule message_stop [OF assms(1)])
qed

end

section \<open>Properties\<close>

lemma wait_never_ready:
  assumes "\<And>log. port_answer s log (port + 5) AND 0x20 = 0"
  shows "\<exists>l. wait_until n (serial_write_available port) s = (Inl Out_Of_Fuel, s\<lparr> port_log := l \<rparr>)
     \<and> (\<forall>p. sent p l = sent p (port_log s))"
  using assms
proof (induction n arbitrary: s)
  case 0
  then show ?case by (auto intro!: exI [of _ "port_log s"])
next
  case (Suc n)
  let ?s = "s\<lparr> port_log := port_log s @ [Inb (port + 5) (port_answer s (port_log s) (port + 5))] \<rparr>"
  have "wait_until (Suc n) (serial_write_available port) s = wait_until n (serial_write_available port) ?s"
    using Suc.prems [of "port_log s"] by (simp add: serial_write_available_def kbind_assoc serial_offsets)
  then show ?case using Suc.IH [of ?s] Suc.prems by auto
qed

text \<open>(C20) The serial driver sends exactly the bytes it is given, once each and in order, whatever the UART answered before
  it became ready, and writes to no other port; on a UART that never becomes ready it hangs without sending anything.\<close>

theorem serial_write_correct:
  "(transmits port s \<longrightarrow> (\<exists>l. stream_write (serial_stream_make port) b s = (Inr (int (length b)), s\<lparr> port_log := l \<rparr>)
      \<and> (\<forall>p. sent p l = sent p (port_log s) @ (if p = port then b else []))))
   \<and> ((\<forall>log. port_answer s log (port + 5) AND 0x20 = 0) \<longrightarrow> b \<noteq> [] \<longrightarrow>
      (\<exists>l. stream_write (serial_stream_make port) b s = (Inl Out_Of_Fuel, s\<lparr> port_log := l \<rparr>)
       \<and> (\<forall>p. sent p l = sent p (port_log s))))"
proof (intro conjI impI)
  have run: "stream_write (serial_stream_make port) b = kbind (write_each port b) (\<lambda>_. kret (int (length b)))"
    by (simp only: stream_write_def serial_call kbind_assoc kbind_kret prod.case)
  show "\<exists>l. stream_write (serial_stream_make port) b s = (Inr (int (length b)), s\<lparr> port_log := l \<rparr>)
      \<and> (\<forall>p. sent p l = sent p (port_log s) @ (if p = port then b else []))" if "transmits port s"
    using write_each_ok [OF that, of b] unfolding run by (auto simp: kbind_def [of "write_each _ _"])
  assume never: "\<forall>log. port_answer s log (port + 5) AND 0x20 = 0" and "b \<noteq> []"
  then obtain x xs where b: "b = x # xs" by (cases b) auto
  obtain l where "wait_until (poll_limit s) (serial_write_available port) s = (Inl Out_Of_Fuel, s\<lparr> port_log := l \<rparr>)"
      "\<forall>p. sent p l = sent p (port_log s)"
    using wait_never_ready [of s port "poll_limit s"] never by auto
  then show "\<exists>l. stream_write (serial_stream_make port) b s = (Inl Out_Of_Fuel, s\<lparr> port_log := l \<rparr>) \<and> (\<forall>p. sent p l = sent p (port_log s))"
    unfolding run unfolding b
    by (auto simp: serial_write_blocking_def kbind_def)
qed

text \<open>A UART that always answers "transmitter empty" on its line status register.\<close>

definition quiet_console :: console where
  "quiet_console = \<lparr> port_answer = (\<lambda>log p. if p = 0x3FD then 0x20 else 0xAE), port_log = [], poll_limit = 1,
     format_output_stream = serial_stream_make SERIAL_COM1, panic_output_stream = serial_stream_make SERIAL_COM1 \<rparr>"

lemma quiet_console_transmits: "transmits SERIAL_COM1 quiet_console"
  by (simp add: transmits_def quiet_console_def SERIAL_COM1_def)

theorem serial_write_correct_witness:
  "\<exists>l. stream_write (serial_stream_make SERIAL_COM1) [0x48, 0x69] quiet_console
     = (Inr 2, quiet_console\<lparr> port_log := l \<rparr>) \<and> sent SERIAL_COM1 l = [0x48, 0x69]"
  using serial_write_correct [of SERIAL_COM1 quiet_console "[0x48, 0x69]"] quiet_console_transmits
  by (auto simp: quiet_console_def)

text \<open>(C21) A panic and a failed assertion never return, and what the serial line shows of them is the prefix, the message and
  a line feed, after everything that was printed before.\<close>

theorem kpanic_correct:
  assumes "transmits port s" and "panic_output_stream s = serial_stream_make port"
  shows "(\<exists>l. kpanic m s = (Inl (Kpanic m), s\<lparr> port_log := l \<rparr>)
       \<and> sent port l = sent port (port_log s) @ STR_of (''KPANIC: '' @ m @ [newline]))
     \<and> (CHR 0x00 \<notin> set m \<longrightarrow> (\<exists>l. klift (kassert False m) s = (Inl (Assert_Failed m), s\<lparr> port_log := l \<rparr>)
       \<and> sent port l = sent port (port_log s) @ STR_of (''KPANIC: ASSERTION FAILED: '' @ m @ [newline])))"
proof (intro conjI impI)
  have ready: "serial_ready port s" using assms(1) by (simp add: serial_ready_def)
  show "\<exists>l. kpanic m s = (Inl (Kpanic m), s\<lparr> port_log := l \<rparr>)
      \<and> sent port l = sent port (port_log s) @ STR_of (''KPANIC: '' @ m @ [newline])"
    using serial.kpanic_stops [OF ready assms(2)] unfolding serial_text_def by simp
  assume m: "CHR 0x00 \<notin> set m"
  show "\<exists>l. klift (kassert False m) s = (Inl (Assert_Failed m), s\<lparr> port_log := l \<rparr>)
      \<and> sent port l = sent port (port_log s) @ STR_of (''KPANIC: ASSERTION FAILED: '' @ m @ [newline])"
    using serial.assertion_stops [OF ready assms(2) m] unfolding serial_text_def by simp
qed

theorem kpanic_correct_witness:
  "\<exists>l. (kpanic ''x'' :: (console, unit) krun) quiet_console = (Inl (Kpanic ''x''), quiet_console\<lparr> port_log := l \<rparr>)
     \<and> sent SERIAL_COM1 l = sent SERIAL_COM1 (port_log quiet_console) @ STR_of (''KPANIC: '' @ ''x'' @ [newline])"
  by (rule conjunct1 [OF kpanic_correct [OF quiet_console_transmits]]) (simp add: quiet_console_def)

text \<open>\<^verbatim>\<open>serial_init\<close> programs the UART with the nine (on success ten) writes of the code in order, reads the receive buffer once, and succeeds
  exactly when the loop-back test returns the byte it sent.\<close>

lemma serial_init_correct:
  "let setup = [Outb (port + 1) 0x00, Outb (port + 3) 0x80, Outb port 0x03, Outb (port + 1) 0x00, Outb (port + 3) 0x03,
        Outb (port + 2) 0xC7, Outb (port + 4) 0x0B, Outb (port + 4) 0x1E, Outb port 0xAE];
       x = port_answer s (port_log s @ setup) port;
       l = port_log s @ setup @ [Inb port x]
   in serial_init port s = (Inr (x = 0xAE), s\<lparr> port_log := if x = 0xAE then l @ [Outb (port + 4) 0x0F] else l \<rparr>)"
  by (simp add: serial_init_def serial_offsets Let_def)

end
