(* ===== verification/Kernel_Format.thy ===== *)
theory Kernel_Format
  imports Kernel_Console
begin

text \<open>
  \<^verbatim>\<open>kernel/src/base/base_format.c\<close>: numbers, \<^verbatim>\<open>vformat\<close> and \<^verbatim>\<open>printf\<close>. The reference for numbers is the list of digits of a natural number; the reference
  for \<^verbatim>\<open>vformat\<close> is a list of pieces, each with its part of the format string, its arguments and its text.

  Variable arguments are a list of tagged values. Reading one of another kind than was passed, or past the end, is
  undefined in C and a \<open>Fault\<close> here.
\<close>

section \<open>Numbers\<close>

definition format_digit :: "U64 \<Rightarrow> U8 result" where
  "format_digit value =
     sbind (kassert (value < 16) ''value < 16'') (\<lambda>_.
     if value < 10 then Inr (0x30 + ucast value)
     else Inr (0x41 + (ucast value - 10)))"

text \<open>The loop over the digits, least significant first: the buffer and the next index.\<close>

function format_digits :: "Bytes \<Rightarrow> int \<Rightarrow> U64 \<Rightarrow> U8 \<Rightarrow> (Bytes \<times> int) result" where
  "format_digits buffer i value base =
     sbind (format_digit (value mod ucast base)) (\<lambda>d.
     sbind (bytes_set buffer i d) (\<lambda>buffer'.
     let value' = value div ucast base
     in if value' > 0 then format_digits buffer' (i + 1) value' base
        else Inr (buffer', i + 1)))"
  by pat_completeness auto
termination
  by (relation "measure (\<lambda>(buffer, i, value, base). nat (int (length buffer) - i))") (auto simp: bytes_set_eq_Inr)

declare format_digits.simps [simp del]

text \<open>The two loops that fill up with zeros, \<open>k\<close> rounds.\<close>

fun format_zeros :: "Bytes \<Rightarrow> int \<Rightarrow> nat \<Rightarrow> (Bytes \<times> int) result" where
  "format_zeros buffer i 0 = Inr (buffer, i)"
| "format_zeros buffer i (Suc k) = sbind (bytes_set buffer i 0x30) (\<lambda>buffer'. format_zeros buffer' (i + 1) k)"

text \<open>What \<^verbatim>\<open>format_number\<close> does with its buffer, up to the reversed slice.\<close>

definition format_number_buffer :: "U64 \<Rightarrow> bool \<Rightarrow> U8 \<Rightarrow> Bytes result" where
  "format_number_buffer value is_signed base =
     sbind (format_digits (replicate 96 0) 0 value base) (\<lambda>(buffer, i).
     sbind (if base = 16 then format_zeros buffer i (nat (16 - i))
            else if base = 2 then format_zeros buffer i (nat (64 - i))
            else Inr (buffer, i)) (\<lambda>(buffer, i).
     sbind (if is_signed then sbind (bytes_set buffer i 0x2D) (\<lambda>buffer'. Inr (buffer', i + 1))
            else Inr (buffer, i)) (\<lambda>(buffer, i).
     sbind (bytes_slice buffer 0 i) bytes_reverse)))"

definition format_number :: "Stream \<Rightarrow> U64 \<Rightarrow> bool \<Rightarrow> U8 \<Rightarrow> ('s console_scheme, unit) krun" where
  "format_number output value is_signed base0 =
     (let base = if base0 = 0 then 10 else base0 in
      kbind (klift (format_number_buffer value is_signed base)) (\<lambda>output_buffer.
      let write_number = kbind (stream_write output output_buffer) (\<lambda>_. kret ()) in
      if base = 2 then kbind (stream_write_string output (STR_of ''0b'')) (\<lambda>_. write_number)
      else if base = 8 then kbind (stream_write_string output (STR_of ''0o'')) (\<lambda>_. write_number)
      else if base = 16 then kbind (stream_write_string output (STR_of ''0x'')) (\<lambda>_. write_number)
      else write_number))"

text \<open>Negating the least \<^verbatim>\<open>I64\<close> overflows; the model takes the wrapped value, which is what the code compiles to.\<close>

definition format_number_i64 :: "Stream \<Rightarrow> I64 \<Rightarrow> U8 \<Rightarrow> ('s console_scheme, unit) krun" where
  "format_number_i64 output value base =
     (if sint value < 0 then format_number output (- value) True base
      else format_number output value False base)"

definition format_number_u64 :: "Stream \<Rightarrow> U64 \<Rightarrow> U8 \<Rightarrow> ('s console_scheme, unit) krun" where
  "format_number_u64 output value base = format_number output value False base"

section \<open>Formats\<close>

datatype va_arg = Va_Word U64 | Va_String String | Va_Cstr "U8 list option"

type_synonym va_list = "va_arg list"

fun va_word :: "va_list \<Rightarrow> (U64 \<times> va_list) result" where
  "va_word (Va_Word w # args) = Inr (w, args)"
| "va_word args = Inl (Fault ''va_arg'')"

fun va_string :: "va_list \<Rightarrow> (String \<times> va_list) result" where
  "va_string (Va_String s # args) = Inr (s, args)"
| "va_string args = Inl (Fault ''va_arg'')"

fun va_cstr :: "va_list \<Rightarrow> (U8 list option \<times> va_list) result" where
  "va_cstr (Va_Cstr s # args) = Inr (s, args)"
| "va_cstr args = Inl (Fault ''va_arg'')"

text \<open>The \<^verbatim>\<open>switch\<close> over the specifier: the arguments that are left, or \<open>None\<close> for the early return.\<close>

definition format_specifier :: "Stream \<Rightarrow> U8 \<Rightarrow> U8 \<Rightarrow> va_list \<Rightarrow> ('s console_scheme, va_list option) krun" where
  "format_specifier output ch base args =
     (if ch = of_char CHR ''p'' then
        kbind (klift (va_word args)) (\<lambda>(w, args).
        kbind (format_number output w False (if base = 0 then 16 else base)) (\<lambda>_. kret (Some args)))
      else if ch = of_char CHR ''i'' then
        kbind (klift (va_word args)) (\<lambda>(w, args). kbind (format_number_i64 output w base) (\<lambda>_. kret (Some args)))
      else if ch = of_char CHR ''u'' then
        kbind (klift (va_word args)) (\<lambda>(w, args). kbind (format_number_u64 output w base) (\<lambda>_. kret (Some args)))
      else if ch = of_char CHR ''I'' then
        kbind (klift (va_word args)) (\<lambda>(w, args). kbind (format_number_i64 output w base) (\<lambda>_. kret (Some args)))
      else if ch = of_char CHR ''U'' then
        kbind (klift (va_word args)) (\<lambda>(w, args). kbind (format_number_u64 output w base) (\<lambda>_. kret (Some args)))
      else if ch = of_char CHR ''s'' then
        kbind (klift (va_string args)) (\<lambda>(str, args). kbind (stream_write_string output str) (\<lambda>_. kret (Some args)))
      else if ch = of_char CHR ''S'' then
        kbind (klift (va_cstr args)) (\<lambda>(cstr, args).
        kbind (klift (string_from_char cstr)) (\<lambda>str.
        kbind (stream_write_string output str) (\<lambda>_. kret (Some args))))
      else
        kbind (stream_write_string output (STR_of ''%(<unsupported format specifier>)'')) (\<lambda>_. kret None))"

text \<open>The loop over the format, from index \<open>i\<close>. The message for a format that ends after \<^verbatim>\<open>%b\<close> is the one for \<^verbatim>\<open>%x\<close>, as in the code.\<close>

function vformat_from :: "Stream \<Rightarrow> String \<Rightarrow> va_list \<Rightarrow> int \<Rightarrow> ('s console_scheme, unit) krun" where
  "vformat_from output fmt args i =
     (if i < int (length fmt) then
        kbind (klift (string_get fmt i)) (\<lambda>ch.
        if ch \<noteq> of_char CHR ''%'' then
          kbind (stream_write_byte output ch) (\<lambda>_. vformat_from output fmt args (i + 1))
        else if i + 1 \<ge> int (length fmt) then
          kbind (stream_write_string output (STR_of ''%(<out of bounds>)'')) (\<lambda>_. vformat_from output fmt args (i + 1 + 1))
        else
          kbind (klift (string_get fmt (i + 1))) (\<lambda>ch.
          if ch = of_char CHR ''x'' \<or> ch = of_char CHR ''b'' then
            if i + 1 + 1 \<ge> int (length fmt) then
              kbind (stream_write_string output (STR_of ''%x(<out of bounds>)'')) (\<lambda>_. vformat_from output fmt args (i + 1 + 1 + 1))
            else
              kbind (klift (string_get fmt (i + 1 + 1))) (\<lambda>ch'.
              kbind (format_specifier output ch' (if ch = of_char CHR ''x'' then 16 else 2) args) (\<lambda>r.
              case r of None \<Rightarrow> kret () | Some args' \<Rightarrow> vformat_from output fmt args' (i + 1 + 1 + 1)))
          else
            kbind (format_specifier output ch 0 args) (\<lambda>r.
            case r of None \<Rightarrow> kret () | Some args' \<Rightarrow> vformat_from output fmt args' (i + 1 + 1))))
      else kret ())"
  by pat_completeness auto
termination
  by (relation "measure (\<lambda>(output, fmt, args, i). nat (int (length fmt) - i))") auto

declare vformat_from.simps [simp del]

definition vformat :: "Stream \<Rightarrow> String \<Rightarrow> va_list \<Rightarrow> ('s console_scheme, unit) krun" where
  "vformat output fmt args = vformat_from output fmt args 0"

text \<open>\<^verbatim>\<open>format\<close> only collects its variable arguments.\<close>

definition format_stream :: "Stream \<Rightarrow> String \<Rightarrow> va_list \<Rightarrow> ('s console_scheme, unit) krun" where
  "format_stream output fmt args = vformat output fmt args"

definition format_set_output_stream :: "Stream \<Rightarrow> ('s console_scheme, unit) krun" where
  "format_set_output_stream s = kmodify (format_output_stream_update (\<lambda>_. s))"

definition vprintf :: "U8 list option \<Rightarrow> va_list \<Rightarrow> ('s console_scheme, unit) krun" where
  "vprintf fmt args =
     kbind (klift (string_from_char fmt)) (\<lambda>format_string.
     kbind (kget format_output_stream) (\<lambda>out.
     vformat out format_string args))"

definition printf :: "string \<Rightarrow> va_list \<Rightarrow> ('s console_scheme, unit) krun" where
  "printf fmt args = vprintf (c_literal fmt) args"

section \<open>Digits\<close>

fun digits :: "nat \<Rightarrow> nat \<Rightarrow> nat list" where
  "digits b n = (if b < 2 \<or> n < b then [n] else n mod b # digits b (n div b))"

declare digits.simps [simp del]

definition digit_char :: "nat \<Rightarrow> U8" where
  "digit_char d = (if d < 10 then 0x30 + of_nat d else 0x41 + (of_nat d - 10))"

text \<open>A reader, written without the printer in mind.\<close>

definition digit_value :: "U8 \<Rightarrow> nat" where
  "digit_value c = (if c < 0x3A then unat (c - 0x30) else unat (c - 0x41) + 10)"

definition read_number :: "nat \<Rightarrow> U8 list \<Rightarrow> nat" where
  "read_number b cs = foldl (\<lambda>n c. n * b + digit_value c) 0 cs"

lemma digit_value_char:
  assumes "d < 16"
  shows "digit_value (digit_char d) = d"
proof -
  have "d \<in> set [0, 1, 2, 3, 4, 5, 6, 7, 8, 9, 10, 11, 12, 13, 14, 15]" using assms by simp presburger
  moreover have "list_all (\<lambda>d. digit_value (digit_char d) = d) [0, 1, 2, 3, 4, 5, 6, 7, 8, 9, 10, 11, 12, 13, 14, 15]"
    by (simp add: digit_value_def digit_char_def)
  ultimately show ?thesis unfolding list_all_iff by blast
qed

lemma format_digit_char: "value < 16 \<Longrightarrow> format_digit value = Inr (digit_char (unat value))"
  by (simp add: format_digit_def digit_char_def word_less_nat_alt of_nat_unat)

lemma digits_not_Nil [simp]: "digits b n \<noteq> []"
  by (subst digits.simps) simp

lemma digits_less: "2 \<le> b \<Longrightarrow> d \<in> set (digits b n) \<Longrightarrow> d < b"
  by (induction b n rule: digits.induct) (subst (asm) digits.simps, auto split: if_splits)

lemma length_digits: "2 \<le> b \<Longrightarrow> n < b ^ Suc k \<Longrightarrow> length (digits b n) \<le> Suc k"
proof (induction k arbitrary: n)
  case (Suc k)
  then have "n div b < b ^ Suc k" by (simp add: less_mult_imp_div_less mult.commute)
  then show ?case using Suc.IH [of "n div b"] Suc.prems(1) by (subst digits.simps) simp
qed (simp add: digits.simps)

lemma read_number_snoc: "read_number b (cs @ [c]) = read_number b cs * b + digit_value c"
  by (simp add: read_number_def)

lemma read_digits: "2 \<le> b \<Longrightarrow> b \<le> 16 \<Longrightarrow> read_number b (rev (map digit_char (digits b n))) = n"
proof (induction b n rule: digits.induct)
  case (1 b n)
  show ?case
  proof (cases "n < b")
    case True
    then show ?thesis using 1 by (simp add: digits.simps [of b n] read_number_def digit_value_char)
  next
    case False
    have "n mod b < 16" using 1(2,3) mod_less_divisor [of b n] by linarith
    then show ?thesis
      using False 1 by (simp add: digits.simps [of b n] read_number_snoc digit_value_char)
  qed
qed

lemma read_zeros: "read_number b (replicate k 0x30 @ cs) = read_number b cs"
  by (induction k) (simp_all add: read_number_def digit_value_def)

section \<open>The buffer\<close>

lemma bytes_set_next: "bytes_set (xs @ y # ys) (int (length xs)) x = Inr (xs @ x # ys)"
  by simp

lemma format_digits_ok:
  assumes b: "2 \<le> base" "base \<le> 16"
  shows "length (digits (unat base) (unat v)) \<le> length rest \<Longrightarrow>
    format_digits (xs @ rest) (int (length xs)) v base =
      (let ds = map digit_char (digits (unat base) (unat v))
       in Inr (xs @ ds @ drop (length ds) rest, int (length xs) + int (length ds)))"
proof (induction "unat v" arbitrary: v xs rest rule: less_induct)
  case less
  let ?b = "unat base"
  have b': "2 \<le> ?b" "?b \<le> 16" using b by (simp_all add: word_le_nat_alt)
  have ub: "unat (ucast base :: U64) = ?b" using b' by (simp add: unsigned_ucast_eq take_bit_nat_eq_self_iff)
  have m: "unat (v mod ucast base) = unat v mod ?b" and d: "unat (v div ucast base) = unat v div ?b"
    by (simp_all add: unat_mod_distrib unat_div_distrib ub)
  have "unat v mod ?b < 16" using b' mod_less_divisor [of ?b "unat v"] by linarith
  then have "v mod ucast base < 16" using m by (simp add: word_less_nat_alt)
  then have digit: "format_digit (v mod ucast base) = Inr (digit_char (unat v mod ?b))"
    by (simp add: format_digit_char m)
  obtain y ys where rest: "rest = y # ys"
    using less.prems by (cases rest) auto
  let ?x = "digit_char (unat v mod ?b)"
  have loop: "format_digits (xs @ rest) (int (length xs)) v base =
      (if 0 < v div ucast base then format_digits ((xs @ [?x]) @ ys) (int (length (xs @ [?x]))) (v div ucast base) base
       else Inr ((xs @ [?x]) @ ys, int (length (xs @ [?x]))))"
    unfolding rest format_digits.simps [of "xs @ y # ys"] digit sbind_Inr bytes_set_next by (simp add: Let_def add.commute)
  show ?case
  proof (cases "unat v < ?b")
    case True
    then have "v div ucast base = 0" by (simp add: word_unat_eq_iff d)
    then show ?thesis unfolding loop using True by (simp add: digits.simps [of ?b] rest Let_def)
  next
    case False
    then have ds: "digits ?b (unat v) = unat v mod ?b # digits ?b (unat v div ?b)"
      using b' by (subst digits.simps) simp
    have pos: "0 < v div ucast base" using False b' d by (simp add: word_less_nat_alt div_greater_zero_iff)
    have "unat (v div ucast base) < unat v" using d False b' by simp
    from less.hyps [OF this, of ys "xs @ [?x]"] less.prems pos show ?thesis
      unfolding loop ds by (simp add: d ds rest Let_def)
  qed
qed

lemma format_zeros_ok:
  "k \<le> length rest \<Longrightarrow> format_zeros (xs @ rest) (int (length xs)) k
     = Inr (xs @ replicate k 0x30 @ drop k rest, int (length xs) + int k)"
proof (induction k arbitrary: xs rest)
  case (Suc k)
  then obtain y ys where rest: "rest = y # ys" by (cases rest) auto
  have "format_zeros (xs @ rest) (int (length xs)) (Suc k) = format_zeros ((xs @ [0x30]) @ ys) (int (length (xs @ [0x30]))) k"
    unfolding format_zeros.simps rest bytes_set_next sbind_Inr by (simp add: add.commute)
  then show ?case using Suc.IH [of ys "xs @ [0x30]"] Suc.prems by (simp add: rest)
qed simp

text \<open>The text of a number: the sign, zeros up to the width of the base, the digits.\<close>

definition number_width :: "U8 \<Rightarrow> nat" where
  "number_width base = (if base = 16 then 16 else if base = 2 then 64 else 0)"

definition number_digits :: "U64 \<Rightarrow> U8 \<Rightarrow> U8 list" where
  "number_digits v base =
     (let ds = rev (map digit_char (digits (unat base) (unat v)))
      in replicate (number_width base - length ds) 0x30 @ ds)"

definition number_text :: "U64 \<Rightarrow> bool \<Rightarrow> U8 \<Rightarrow> U8 list" where
  "number_text v is_signed base0 =
     (let base = if base0 = 0 then 10 else base0
      in (if base = 2 then STR_of ''0b'' else if base = 8 then STR_of ''0o'' else if base = 16 then STR_of ''0x'' else [])
         @ (if is_signed then [0x2D] else []) @ number_digits v base)"

lemma length_digits_word:
  assumes "2 \<le> base" "base \<le> 16"
  shows "length (digits (unat base) (unat (v :: U64))) \<le> (if base = (16 :: U8) then 16 else 64)"
proof -
  have v: "unat v < 2 ^ 64" using unsigned_less [of v, where ?'a = nat] by simp
  have b: "2 \<le> unat base" using assms by (simp add: word_le_nat_alt)
  have "(2 :: nat) ^ 64 \<le> unat base ^ 64" by (rule power_mono [OF b]) simp
  then have "unat v < unat base ^ Suc 63" using v by simp
  then have "length (digits (unat base) (unat v)) \<le> 64" using length_digits [OF b, of "unat v" 63] by simp
  moreover have "length (digits 16 (unat v)) \<le> 16" using length_digits [of 16 "unat v" 15] v by simp
  ultimately show ?thesis by auto
qed

lemma format_number_buffer_ok:
  assumes b: "2 \<le> base" "base \<le> 16"
  shows "format_number_buffer v is_signed base = Inr ((if is_signed then [0x2D] else []) @ number_digits v base)"
proof -
  define ds where "ds = map digit_char (digits (unat base) (unat v))"
  let ?k = "number_width base - length ds"
  have len: "length ds \<le> (if base = 16 then 16 else 64)" using length_digits_word [OF b, of v] by (simp add: ds_def)
  have k: "length ds + ?k \<le> 64" using len by (auto simp: number_width_def split: if_splits)
  have "format_digits (replicate 96 0) 0 v base = Inr (ds @ drop (length ds) (replicate 96 0), int (length ds))"
    using format_digits_ok [OF b, of v "replicate 96 0" "[]"] k by (simp add: Let_def ds_def)
  then have digits: "format_digits (replicate 96 0) 0 v base = Inr (ds @ replicate (96 - length ds) 0, int (length ds))" by simp
  have zeros: "(if base = 16 then format_zeros (ds @ replicate (96 - length ds) 0) (int (length ds)) (nat (16 - int (length ds)))
            else if base = 2 then format_zeros (ds @ replicate (96 - length ds) 0) (int (length ds)) (nat (64 - int (length ds)))
            else Inr (ds @ replicate (96 - length ds) 0, int (length ds)))
      = Inr ((ds @ replicate ?k 0x30) @ replicate (96 - length ds - ?k) 0, int (length (ds @ replicate ?k 0x30)))"
    using format_zeros_ok [of ?k "replicate (96 - length ds) 0" ds] k by (auto simp: number_width_def nat_diff_distrib')
  obtain r where r: "replicate (96 - length ds - ?k) 0 = (0 :: U8) # r" using k by (cases "96 - length ds - ?k") auto
  let ?xs = "ds @ replicate ?k 0x30"
  have slice: "bytes_slice (xs @ ys) 0 (int (length xs)) = Inr xs" for xs ys by simp
  show ?thesis
  proof (cases is_signed)
    case True
    have one: "int (length ?xs) + 1 = int (length (?xs @ [0x2D]))" by simp
    have "?xs @ 0x2D # r = (?xs @ [0x2D]) @ r" by simp
    then show ?thesis
      unfolding format_number_buffer_def digits sbind_Inr prod.case zeros r bytes_set_next one
      using slice [of "?xs @ [0x2D]" r] True
      by (simp only: if_True bytes_reverse_rev sbind_Inr prod.case) (simp add: number_digits_def Let_def ds_def)
  next
    case False
    then show ?thesis
      unfolding format_number_buffer_def digits sbind_Inr prod.case zeros
      by (simp only: if_False slice sbind_Inr prod.case bytes_reverse_rev) (simp add: number_digits_def Let_def ds_def)
  qed
qed

lemma number_base: "base0 = 0 \<or> (2 \<le> base0 \<and> base0 \<le> 16) \<Longrightarrow> 2 \<le> (if base0 = 0 then 10 else base0) \<and> (if base0 = 0 then 10 else base0) \<le> (16 :: U8)"
  by auto

section \<open>Pieces of a format\<close>

datatype piece =
    Plain U8
  | Num char U8 U64
  | Str String
  | Cstr "U8 list"
  | Cnull

fun piece_ok :: "piece \<Rightarrow> bool" where
  "piece_ok (Plain c) \<longleftrightarrow> c \<noteq> of_char CHR ''%''"
| "piece_ok (Num c b w) \<longleftrightarrow> c \<in> set ''piuIU'' \<and> b \<in> {0, 2, 16}"
| "piece_ok (Cstr cs) \<longleftrightarrow> 0 \<notin> set cs"
| "piece_ok _ \<longleftrightarrow> True"

fun piece_format :: "piece \<Rightarrow> U8 list" where
  "piece_format (Plain c) = [c]"
| "piece_format (Num c b w) = STR_of (''%'' @ (if b = 16 then ''x'' else if b = 2 then ''b'' else []) @ [c])"
| "piece_format (Str t) = STR_of ''%s''"
| "piece_format (Cstr cs) = STR_of ''%S''"
| "piece_format Cnull = STR_of ''%S''"

fun piece_args :: "piece \<Rightarrow> va_list" where
  "piece_args (Plain c) = []"
| "piece_args (Num c b w) = [Va_Word w]"
| "piece_args (Str t) = [Va_String t]"
| "piece_args (Cstr cs) = [Va_Cstr (Some (cs @ [0]))]"
| "piece_args Cnull = [Va_Cstr None]"

definition signed_text :: "U64 \<Rightarrow> U8 \<Rightarrow> U8 list" where
  "signed_text w b = (if sint w < 0 then number_text (- w) True b else number_text w False b)"

fun piece_text :: "piece \<Rightarrow> U8 list" where
  "piece_text (Plain c) = [c]"
| "piece_text (Num c b w) =
     (if c = CHR ''p'' then number_text w False (if b = 0 then 16 else b)
      else if c = CHR ''i'' \<or> c = CHR ''I'' then signed_text w b
      else number_text w False b)"
| "piece_text (Str t) = t"
| "piece_text (Cstr cs) = cs"
| "piece_text Cnull = []"

abbreviation pieces_format :: "piece list \<Rightarrow> U8 list" where
  "pieces_format ps \<equiv> concat (map piece_format ps)"

abbreviation pieces_args :: "piece list \<Rightarrow> va_list" where
  "pieces_args ps \<equiv> concat (map piece_args ps)"

abbreviation pieces_text :: "piece list \<Rightarrow> U8 list" where
  "pieces_text ps \<equiv> concat (map piece_text ps)"

lemma string_get_at: "string_get (xs @ y # ys) (int (length xs)) = Inr y"
  by simp

text \<open>One round of the loop, as a function of the rest of the format.\<close>

lemma vformat_plain:
  "c \<noteq> of_char CHR ''%'' \<Longrightarrow> vformat_from out (pre @ c # post) args (int (length pre)) =
     kbind (stream_write_byte out c) (\<lambda>_. vformat_from out ((pre @ [c]) @ post) args (int (length (pre @ [c]))))"
  by (subst vformat_from.simps) (simp add: string_get_at add.commute)

lemma vformat_end: "vformat_from out fmt args (int (length fmt)) = kret ()"
  by (subst vformat_from.simps) simp

lemma vformat_spec:
  assumes "c \<notin> set ''xb''"
  shows "vformat_from out (pre @ STR_of [CHR ''%'', c] @ post) args (int (length pre)) =
     kbind (format_specifier out (of_char c) 0 args) (\<lambda>r. case r of None \<Rightarrow> kret ()
       | Some args' \<Rightarrow> vformat_from out ((pre @ STR_of [CHR ''%'', c]) @ post) args' (int (length (pre @ STR_of [CHR ''%'', c]))))"
proof -
  let ?f = "pre @ of_char CHR ''%'' # of_char c # post"
  have one: "int (length pre) + 1 = int (length (pre @ [of_char CHR ''%'' :: U8]))" by simp
  have get: "string_get ?f (int (length pre)) = Inr (of_char CHR ''%'')" "string_get ?f (int (length pre) + 1) = Inr (of_char c)"
    using string_get_at [of pre "of_char CHR ''%''"] string_get_at [of "pre @ [of_char CHR ''%'']" "of_char c" post]
    unfolding one by simp_all
  have c: "of_char c \<noteq> (of_char CHR ''x'' :: U8)" "of_char c \<noteq> (of_char CHR ''b'' :: U8)"
    unfolding of_char_eq using assms by auto
  have bounds: "int (length pre) < int (length ?f)" "\<not> int (length ?f) \<le> int (length pre) + 1" by simp_all
  have fmt: "pre @ STR_of [CHR ''%'', c] @ post = ?f" "(pre @ STR_of [CHR ''%'', c]) @ post = ?f"
    "int (length (pre @ STR_of [CHR ''%'', c])) = int (length pre) + 1 + 1" by (simp_all add: STR_of_def)
  show ?thesis
    unfolding fmt
    by (subst vformat_from.simps)
      (simp only: bounds if_True if_False get klift_Inr kbind_kret c simp_thms cong: option.case_cong)
qed

lemma vformat_spec_base:
  assumes "d = CHR ''x'' \<or> d = CHR ''b''"
  shows "vformat_from out (pre @ STR_of [CHR ''%'', d, c] @ post) args (int (length pre)) =
     kbind (format_specifier out (of_char c) (if d = CHR ''x'' then 16 else 2) args) (\<lambda>r. case r of None \<Rightarrow> kret ()
       | Some args' \<Rightarrow> vformat_from out ((pre @ STR_of [CHR ''%'', d, c]) @ post) args' (int (length (pre @ STR_of [CHR ''%'', d, c]))))"
proof -
  let ?f = "pre @ of_char CHR ''%'' # of_char d # of_char c # post"
  have one: "int (length pre) + 1 = int (length (pre @ [of_char CHR ''%'' :: U8]))"
    and two: "int (length pre) + 1 + 1 = int (length (pre @ [of_char CHR ''%'' :: U8, of_char d]))" by simp_all
  have get: "string_get ?f (int (length pre)) = Inr (of_char CHR ''%'')" "string_get ?f (int (length pre) + 1) = Inr (of_char d)"
    "string_get ?f (int (length pre) + 1 + 1) = Inr (of_char c)"
    using string_get_at [of pre "of_char CHR ''%''"] string_get_at [of "pre @ [of_char CHR ''%'']" "of_char d"]
      string_get_at [of "pre @ [of_char CHR ''%'', of_char d]" "of_char c" post]
    unfolding two unfolding one by simp_all
  have d: "(of_char d = (of_char CHR ''x'' :: U8)) = (d = CHR ''x'')" "(of_char d = (of_char CHR ''b'' :: U8)) = (d = CHR ''b'')"
    by (simp_all only: of_char_eq)
  have bounds: "int (length pre) < int (length ?f)" "\<not> int (length ?f) \<le> int (length pre) + 1"
    "\<not> int (length ?f) \<le> int (length pre) + 1 + 1" by simp_all
  have fmt: "pre @ STR_of [CHR ''%'', d, c] @ post = ?f" "(pre @ STR_of [CHR ''%'', d, c]) @ post = ?f"
    "int (length (pre @ STR_of [CHR ''%'', d, c])) = int (length pre) + 1 + 1 + 1" by (simp_all add: STR_of_def)
  show ?thesis
    unfolding fmt
    by (subst vformat_from.simps)
      (simp only: bounds if_True if_False get klift_Inr kbind_kret d assms simp_thms cong: option.case_cong)
qed

lemma vformat_past_end: "int (length fmt) \<le> i \<Longrightarrow> vformat_from out fmt args i = kret ()"
  by (subst vformat_from.simps) simp

lemma vformat_ends_percent:
  "vformat_from out (pre @ STR_of ''%'') args (int (length pre)) =
     kbind (stream_write_string out (STR_of ''%(<out of bounds>)'')) (\<lambda>_. kret ())"
proof -
  let ?f = "pre @ [of_char CHR ''%'' :: U8]"
  have fmt: "pre @ STR_of ''%'' = ?f" by (simp add: STR_of_def)
  have get: "string_get ?f (int (length pre)) = Inr (of_char CHR ''%'')" by (rule string_get_at)
  have bounds: "int (length pre) < int (length ?f)" "int (length ?f) \<le> int (length pre) + 1" "int (length ?f) \<le> int (length pre) + 1 + 1"
    by simp_all
  show ?thesis
    unfolding fmt by (subst vformat_from.simps) (simp only: bounds if_True if_False get klift_Inr kbind_kret simp_thms vformat_past_end)
qed

lemma vformat_ends_base:
  assumes "c = CHR ''x'' \<or> c = CHR ''b''"
  shows "vformat_from out (pre @ STR_of [CHR ''%'', c]) args (int (length pre)) =
     kbind (stream_write_string out (STR_of ''%x(<out of bounds>)'')) (\<lambda>_. kret ())"
proof -
  let ?f = "pre @ [of_char CHR ''%'' :: U8, of_char c]"
  have fmt: "pre @ STR_of [CHR ''%'', c] = ?f" by (simp add: STR_of_def)
  have one: "int (length pre) + 1 = int (length (pre @ [of_char CHR ''%'' :: U8]))" by simp
  have get: "string_get ?f (int (length pre)) = Inr (of_char CHR ''%'')" "string_get ?f (int (length pre) + 1) = Inr (of_char c)"
    using string_get_at [of pre "of_char CHR ''%''"] string_get_at [of "pre @ [of_char CHR ''%'']" "of_char c" "[]"]
    unfolding one by simp_all
  have c: "(of_char c = (of_char CHR ''x'' :: U8)) = (c = CHR ''x'')" "(of_char c = (of_char CHR ''b'' :: U8)) = (c = CHR ''b'')"
    by (simp_all only: of_char_eq)
  have bounds: "int (length pre) < int (length ?f)" "\<not> int (length ?f) \<le> int (length pre) + 1" "int (length ?f) \<le> int (length pre) + 1 + 1"
    "int (length ?f) \<le> int (length pre) + 1 + 1 + 1" by simp_all
  show ?thesis
    unfolding fmt by (subst vformat_from.simps)
      (simp only: bounds if_True if_False get klift_Inr kbind_kret c assms simp_thms vformat_past_end)
qed

lemma vformat_unsupported:
  assumes "c \<notin> set ''piuIUsSxb''"
  shows "vformat_from out (pre @ STR_of [CHR ''%'', c] @ post) args (int (length pre)) =
     kbind (stream_write_string out (STR_of ''%(<unsupported format specifier>)'')) (\<lambda>_. kret ())"
proof -
  have nx: "c \<notin> set ''xb''" using assms by auto
  have c: "c \<noteq> CHR ''p''" "c \<noteq> CHR ''i''" "c \<noteq> CHR ''u''" "c \<noteq> CHR ''I''" "c \<noteq> CHR ''U''" "c \<noteq> CHR ''s''" "c \<noteq> CHR ''S''"
    using assms by auto
  show ?thesis
    unfolding vformat_spec [OF nx] format_specifier_def of_char_eq
    by (simp only: c if_False simp_thms kbind_assoc kbind_kret option.case)
qed

context stream_output
begin

lemma format_number_writes:
  assumes "base = 0 \<or> (2 \<le> base \<and> base \<le> 16)"
  shows "writes ready view (format_number out v is_signed base) () (shown (number_text v is_signed base))"
proof -
  define b where "b = (if base = 0 then 10 else base)"
  define n where "n = (if is_signed then [0x2D] else []) @ number_digits v b"
  have buf: "format_number_buffer v is_signed b = Inr n"
    unfolding n_def using number_base [OF assms] by (intro format_number_buffer_ok) (auto simp: b_def)
  have number: "format_number out v is_signed base =
      (let write_number = kbind (stream_write out n) (\<lambda>_. kret ()) in
       if b = 2 then kbind (stream_write_string out (STR_of ''0b'')) (\<lambda>_. write_number)
       else if b = 8 then kbind (stream_write_string out (STR_of ''0o'')) (\<lambda>_. write_number)
       else if b = 16 then kbind (stream_write_string out (STR_of ''0x'')) (\<lambda>_. write_number)
       else write_number)"
    unfolding format_number_def b_def [symmetric] Let_def buf klift_Inr kbind_kret ..
  have shape: "number_text v is_signed base =
      (if b = 2 then STR_of ''0b'' else if b = 8 then STR_of ''0o'' else if b = 16 then STR_of ''0x'' else []) @ n"
    unfolding number_text_def b_def [symmetric] n_def Let_def ..
  show ?thesis
    unfolding number shape shown_append Let_def
    using write_unit(1) [of n] then_writes(2) [OF write_unit(1) [of n]] shown_Nil by (cases "b = 2"; cases "b = 8"; cases "b = 16") simp_all
qed

lemma format_number_i64_writes:
  "base \<in> {0, 2, 16} \<Longrightarrow> writes ready view (format_number_i64 out v base) () (shown (signed_text v base))"
  by (auto simp: format_number_i64_def signed_text_def intro!: format_number_writes)

lemma format_number_u64_writes:
  "base \<in> {0, 2, 16} \<Longrightarrow> writes ready view (format_number_u64 out v base) () (shown (number_text v False base))"
  by (auto simp: format_number_u64_def intro!: format_number_writes)

lemma writes_then_kret: "writes ready view m () t \<Longrightarrow> writes ready view (kbind m (\<lambda>_. kret y)) y t"
  using writes_bind [of ready view m "()" t "\<lambda>_. kret y" y "[]"] by (simp add: writes_kret)

lemma write_string_kret: "writes ready view (kbind (stream_write_string out b) (\<lambda>_. kret y)) y (shown b)"
  using then_writes(2) [OF writes_kret, of b y] by simp

lemma format_specifier_writes:
  assumes "base \<in> {0, 2, 16}"
  shows "c \<in> set ''piuIU'' \<Longrightarrow>
     writes ready view (format_specifier out (of_char c) base (Va_Word w # args)) (Some args) (shown (piece_text (Num c base w)))"
    and "writes ready view (format_specifier out (of_char CHR ''s'') base (Va_String t # args)) (Some args) (shown t)"
    and "0 \<notin> set cs \<Longrightarrow> writes ready view (format_specifier out (of_char CHR ''S'') base (Va_Cstr (Some (cs @ [0])) # args)) (Some args) (shown cs)"
    and "writes ready view (format_specifier out (of_char CHR ''S'') base (Va_Cstr None # args)) (Some args) (shown [])"
proof -
  have p: "writes ready view (format_number out w False (if base = 0 then 16 else base)) () (shown (number_text w False (if base = 0 then 16 else base)))"
    using assms by (intro format_number_writes) auto
  assume "c \<in> set ''piuIU''"
  then consider "c = CHR ''p''" | "c = CHR ''i''" | "c = CHR ''u''" | "c = CHR ''I''" | "c = CHR ''U''" by auto
  then show "writes ready view (format_specifier out (of_char c) base (Va_Word w # args)) (Some args) (shown (piece_text (Num c base w)))"
    using writes_then_kret [OF p, of "Some args"] writes_then_kret [OF format_number_i64_writes [OF assms], of w "Some args"]
      writes_then_kret [OF format_number_u64_writes [OF assms], of w "Some args"]
    by cases (simp_all add: format_specifier_def)
next
  show "writes ready view (format_specifier out (of_char CHR ''s'') base (Va_String t # args)) (Some args) (shown t)"
    by (simp add: format_specifier_def write_string_kret)
  show "writes ready view (format_specifier out (of_char CHR ''S'') base (Va_Cstr None # args)) (Some args) (shown [])"
    by (simp add: format_specifier_def string_from_char_null write_string_kret)
  assume cs: "0 \<notin> set cs"
  have "string_from_char (Some (cs @ [0])) = Inr cs" by (rule string_from_char_ok) (use cs in auto)
  then show "writes ready view (format_specifier out (of_char CHR ''S'') base (Va_Cstr (Some (cs @ [0])) # args)) (Some args) (shown cs)"
    by (simp add: format_specifier_def write_string_kret)
qed

text \<open>A piece adds its text to that of the rest.\<close>

lemma vformat_piece:
  assumes "piece_ok p"
    and rest: "writes ready view (vformat_from out ((pre @ piece_format p) @ post) args (int (length (pre @ piece_format p)))) () t"
  shows "writes ready view (vformat_from out (pre @ piece_format p @ post) (piece_args p @ args) (int (length pre))) () (shown (piece_text p) @ t)"
proof -
  let ?f = "\<lambda>r. case r of None \<Rightarrow> kret ()
     | Some args' \<Rightarrow> vformat_from out ((pre @ piece_format p) @ post) args' (int (length (pre @ piece_format p)))"
  have step: "writes ready view (kbind m ?f) () (u @ t)" if "writes ready view m (Some args) u" for m u
    by (rule writes_bind [OF that]) (simp only: option.case rest)
  have go: ?thesis if "vformat_from out (pre @ piece_format p @ post) (piece_args p @ args) (int (length pre)) = kbind m ?f"
    "writes ready view m (Some args) (shown (piece_text p))" for m
    unfolding that(1) by (rule step [OF that(2)])
  have not_base: "CHR ''s'' \<notin> set ''xb''" "CHR ''S'' \<notin> set ''xb''" by simp_all
  show ?thesis
  proof (cases p)
    case (Plain c)
    then show ?thesis
      using assms then_writes(3) [OF rest, of c] by (simp add: vformat_plain)
  next
    case (Num c b w)
    then have c: "c \<in> set ''piuIU''" and b: "b \<in> {0, 2, 16}" using assms(1) by simp_all
    have args: "piece_args p @ args = Va_Word w # args" by (simp add: Num)
    have spec: "writes ready view (format_specifier out (of_char c) b (Va_Word w # args)) (Some args) (shown (piece_text p))"
      unfolding Num by (rule format_specifier_writes(1) [OF b c])
    have nx: "c \<notin> set ''xb''" using c by auto
    consider "b = 0" | "b = 2" | "b = 16" using b by auto
    then show ?thesis
    proof cases
      case 1
      then have fmt: "piece_format p = STR_of [CHR ''%'', c]" by (simp add: Num)
      show ?thesis
        by (rule go [OF _ spec]) (simp only: fmt args vformat_spec [OF nx] 1)
    next
      case 2
      then have fmt: "piece_format p = STR_of [CHR ''%'', CHR ''b'', c]" by (simp add: Num)
      have "vformat_from out (pre @ piece_format p @ post) (piece_args p @ args) (int (length pre))
          = kbind (format_specifier out (of_char c) b (Va_Word w # args)) ?f"
        unfolding fmt args 2 vformat_spec_base [OF disjI2 [OF refl]] by (simp only: char.inject simp_thms if_False)
      from go [OF this spec] show ?thesis .
    next
      case 3
      then have fmt: "piece_format p = STR_of [CHR ''%'', CHR ''x'', c]" by (simp add: Num)
      have "vformat_from out (pre @ piece_format p @ post) (piece_args p @ args) (int (length pre))
          = kbind (format_specifier out (of_char c) b (Va_Word w # args)) ?f"
        unfolding fmt args 3 vformat_spec_base [OF disjI1 [OF refl]] by (simp only: simp_thms if_True)
      from go [OF this spec] show ?thesis .
    qed
  next
    case (Str u)
    have args: "piece_args p @ args = Va_String u # args" and fmt: "piece_format p = STR_of [CHR ''%'', CHR ''s'']" by (simp_all add: Str)
    have "writes ready view (format_specifier out (of_char CHR ''s'') 0 (Va_String u # args)) (Some args) (shown (piece_text p))"
      unfolding Str piece_text.simps by (rule format_specifier_writes(2)) simp
    from go [OF _ this] show ?thesis unfolding fmt args by (simp only: vformat_spec [OF not_base(1)])
  next
    case (Cstr cs)
    have args: "piece_args p @ args = Va_Cstr (Some (cs @ [0])) # args" and fmt: "piece_format p = STR_of [CHR ''%'', CHR ''S'']"
      by (simp_all add: Cstr)
    have "writes ready view (format_specifier out (of_char CHR ''S'') 0 (Va_Cstr (Some (cs @ [0])) # args)) (Some args) (shown (piece_text p))"
      unfolding Cstr piece_text.simps using assms(1) by (intro format_specifier_writes(3)) (simp_all add: Cstr)
    from go [OF _ this] show ?thesis unfolding fmt args by (simp only: vformat_spec [OF not_base(2)])
  next
    case Cnull
    have args: "piece_args p @ args = Va_Cstr None # args" and fmt: "piece_format p = STR_of [CHR ''%'', CHR ''S'']"
      by (simp_all add: Cnull)
    have "writes ready view (format_specifier out (of_char CHR ''S'') 0 (Va_Cstr None # args)) (Some args) (shown (piece_text p))"
      unfolding Cnull piece_text.simps by (rule format_specifier_writes(4)) simp
    from go [OF _ this] show ?thesis unfolding fmt args by (simp only: vformat_spec [OF not_base(2)])
  qed
qed

lemma vformat_pieces_from:
  "\<forall>p \<in> set ps. piece_ok p \<Longrightarrow>
   writes ready view (vformat_from out (pre @ pieces_format ps) (pieces_args ps @ args) (int (length pre))) () (shown (pieces_text ps))"
proof (induction ps arbitrary: pre)
  case Nil
  have "writes ready view (vformat_from out pre args (int (length pre))) () []"
    unfolding vformat_end by (rule writes_kret)
  then show ?case by (simp add: shown_Nil)
next
  case (Cons p ps)
  then show ?case
    using vformat_piece [of p pre "pieces_format ps" "pieces_args ps @ args" "shown (pieces_text ps)"] Cons.IH [of "pre @ piece_format p"]
    by (simp add: shown_append)
qed

lemma vformat_pieces:
  "\<forall>p \<in> set ps. piece_ok p \<Longrightarrow> writes ready view (vformat out (pieces_format ps) (pieces_args ps @ args)) () (shown (pieces_text ps))"
  using vformat_pieces_from [of ps "[]" args] by (simp add: vformat_def)

text \<open>A format that ends in the middle of a specifier, or has one the code does not know, after good pieces.\<close>

lemma vformat_prefix:
  "\<forall>p \<in> set ps. piece_ok p \<Longrightarrow>
   writes ready view (vformat_from out ((pre @ pieces_format ps) @ post) args (int (length (pre @ pieces_format ps)))) () t \<Longrightarrow>
   writes ready view (vformat_from out (pre @ pieces_format ps @ post) (pieces_args ps @ args) (int (length pre))) () (shown (pieces_text ps) @ t)"
proof (induction ps arbitrary: pre)
  case Nil
  then show ?case by (simp add: shown_Nil)
next
  case (Cons p ps)
  then show ?case
    using vformat_piece [of p pre "pieces_format ps @ post" "pieces_args ps @ args" "shown (pieces_text ps) @ t"] Cons.IH [of "pre @ piece_format p"]
    by (simp add: shown_append)
qed

end

section \<open>The console as an interface\<close>

text \<open>When the stream is also where \<^verbatim>\<open>printf\<close> and panics go.\<close>

locale console_output = stream_output +
  assumes format_out: "ready s \<Longrightarrow> format_output_stream s = out"
    and panic_out: "ready s \<Longrightarrow> panic_output_stream s = out"
begin

lemma vprintf_writes:
  assumes "string_from_char fmt = Inr (pieces_format ps)" "\<forall>p \<in> set ps. piece_ok p"
  shows "writes ready view (vprintf fmt (pieces_args ps)) () (shown (pieces_text ps))"
proof -
  have run: "vprintf fmt (pieces_args ps) s = vformat out (pieces_format ps) (pieces_args ps) s" if "ready s" for s
    using format_out [OF that] by (simp add: vprintf_def assms(1))
  show ?thesis
    using vformat_pieces [OF assms(2), of "[]"] run unfolding writes_def by simp
qed

lemma printf_writes:
  "STR_of fmt = pieces_format ps \<Longrightarrow> CHR 0x00 \<notin> set fmt \<Longrightarrow> args = pieces_args ps \<Longrightarrow> \<forall>p \<in> set ps. piece_ok p \<Longrightarrow>
   writes ready view (printf fmt args) () (shown (pieces_text ps))"
  using vprintf_writes [of "c_literal fmt" ps] string_from_char_literal [of fmt] by (simp add: printf_def)

lemma printf_then:
  "STR_of fmt = pieces_format ps \<Longrightarrow> CHR 0x00 \<notin> set fmt \<Longrightarrow> args = pieces_args ps \<Longrightarrow> \<forall>p \<in> set ps. piece_ok p \<Longrightarrow>
   writes ready view m x t \<Longrightarrow> writes ready view (kbind (printf fmt args) (\<lambda>_. m)) x (shown (pieces_text ps) @ t)"
  by (rule writes_bind [OF printf_writes])

end

definition console_ready :: "U16 \<Rightarrow> 's console_scheme \<Rightarrow> bool" where
  "console_ready port s \<longleftrightarrow> transmits port s \<and> format_output_stream s = serial_stream_make port
     \<and> panic_output_stream s = serial_stream_make port"

lemma writes_strengthen:
  "writes ready view m x t \<Longrightarrow> (\<And>s. ready' s \<longleftrightarrow> ready s \<and> P s) \<Longrightarrow> (\<And>s l. P (s\<lparr> port_log := l \<rparr>) = P s) \<Longrightarrow> writes ready' view m x t"
  unfolding writes_def by simp

lemma console_call_writes:
  "\<exists>n. writes (console_ready port) (serial_text port :: 's console_scheme \<Rightarrow> _) (stream_call (serial_stream_make port) STREAM_OP_WRITE b) (n, b) b"
proof -
  let ?P = "\<lambda>s :: 's console_scheme. format_output_stream s = serial_stream_make port \<and> panic_output_stream s = serial_stream_make port"
  obtain n where n: "writes (serial_ready port) (serial_text port :: 's console_scheme \<Rightarrow> _) (stream_call (serial_stream_make port) STREAM_OP_WRITE b) (n, b) b"
    using serial.call_writes by blast
  have "writes (console_ready port) (serial_text port :: 's console_scheme \<Rightarrow> _) (stream_call (serial_stream_make port) STREAM_OP_WRITE b) (n, b) b"
    by (rule writes_strengthen [where P = ?P, OF n]) (simp_all add: console_ready_def serial_ready_def)
  then show ?thesis ..
qed

interpretation com: console_output "serial_stream_make port" "console_ready port" "serial_text port" "\<lambda>b. b" for port
  by unfold_locales (rule console_call_writes, simp_all add: console_ready_def)

lemma console_ready_log [simp]: "console_ready port (s\<lparr> port_log := l \<rparr>) = console_ready port s"
  by (simp add: console_ready_def)

lemma quiet_console_ready: "console_ready SERIAL_COM1 quiet_console"
  using quiet_console_transmits by (simp add: console_ready_def quiet_console_def)

section \<open>Properties\<close>

text \<open>(C23) Numbers are printed so that they can be read back: for base 0 (decimal) and 2 to 16 no assertion fails, and what follows
  the prefix of the base and the sign are digits with the value of the number, always 16 of them in base 16 and 64 in base 2.\<close>

theorem format_number_roundtrip:
  assumes "transmits port s" and "base0 = 0 \<or> (2 \<le> base0 \<and> base0 \<le> 16)"
  shows "let base = if base0 = 0 then 10 else base0 in
     \<exists>l ds. format_number (serial_stream_make port) v is_signed base0 s = (Inr (), s\<lparr> port_log := l \<rparr>)
       \<and> sent port l = sent port (port_log s)
           @ STR_of (if base = 2 then ''0b'' else if base = 8 then ''0o'' else if base = 16 then ''0x'' else [])
           @ STR_of (if is_signed then ''-'' else []) @ ds
       \<and> read_number (unat base) ds = unat v
       \<and> (base = 16 \<longrightarrow> length ds = 16) \<and> (base = 2 \<longrightarrow> length ds = 64)"
proof -
  define base where "base = (if base0 = 0 then 10 else base0)"
  let ?ds = "number_digits v base"
  have b: "2 \<le> base" "base \<le> 16" using number_base [OF assms(2)] by (simp_all add: base_def)
  then have b': "2 \<le> unat base" "unat base \<le> 16" by (simp_all add: word_le_nat_alt)
  have "read_number (unat base) ?ds = unat v"
    using read_digits [OF b', of "unat v"] by (simp add: number_digits_def Let_def read_zeros)
  moreover have "length ?ds = 16" if "base = 16"
    using length_digits_word [OF b, of v] that by (simp add: number_digits_def Let_def number_width_def)
  moreover have "length ?ds = 64" if "base = 2"
    using length_digits_word [OF b, of v] that by (simp add: number_digits_def Let_def number_width_def)
  moreover obtain l where "format_number (serial_stream_make port) v is_signed base0 s = (Inr (), s\<lparr> port_log := l \<rparr>)"
      "sent port l = sent port (port_log s) @ number_text v is_signed base0"
    using writes_run [OF serial.format_number_writes [OF assms(2)], of port s v is_signed] assms(1)
    by (auto simp: serial_ready_def serial_text_def)
  moreover have "number_text v is_signed base0 =
      STR_of (if base = 2 then ''0b'' else if base = 8 then ''0o'' else if base = 16 then ''0x'' else [])
        @ STR_of (if is_signed then ''-'' else []) @ ?ds"
    unfolding number_text_def base_def [symmetric] Let_def by (simp add: STR_of_def)
  ultimately show ?thesis unfolding base_def [symmetric] Let_def by auto
qed

theorem format_number_roundtrip_witness:
  "\<exists>l ds. format_number (serial_stream_make SERIAL_COM1) 0xBEEF False 16 quiet_console = (Inr (), quiet_console\<lparr> port_log := l \<rparr>)
     \<and> sent SERIAL_COM1 l = STR_of ''0x'' @ ds \<and> read_number 16 ds = 0xBEEF \<and> length ds = 16"
  using format_number_roundtrip [OF quiet_console_transmits, of 16 "0xBEEF" False]
  by (fastforce simp: Let_def STR_of_def quiet_console_def)

text \<open>(C22) \<^verbatim>\<open>vformat\<close> prints every well-formed format with its arguments piece by piece, in order, and returns; arguments left
  over are not touched.\<close>

theorem vformat_correct:
  assumes "transmits port s" and "\<forall>p \<in> set ps. piece_ok p"
  shows "\<exists>l. vformat (serial_stream_make port) (pieces_format ps) (pieces_args ps @ args) s = (Inr (), s\<lparr> port_log := l \<rparr>)
     \<and> sent port l = sent port (port_log s) @ pieces_text ps"
  using writes_run [OF serial.vformat_pieces [OF assms(2)], of port s args] assms(1)
  by (auto simp: serial_ready_def serial_text_def)

theorem vformat_correct_witness:
  "\<exists>l. vformat (serial_stream_make SERIAL_COM1) (STR_of ''n=%i %s'') [Va_Word (- 44), Va_String (STR_of ''ok'')] quiet_console
       = (Inr (), quiet_console\<lparr> port_log := l \<rparr>)
     \<and> sent SERIAL_COM1 l = STR_of ''n='' @ signed_text (- 44) 0 @ STR_of '' ok''"
  using vformat_correct [OF quiet_console_transmits,
      of "map Plain (STR_of ''n='') @ [Num CHR ''i'' 0 (- 44), Plain (of_char CHR '' ''), Str (STR_of ''ok'')]" "[]"]
  by (simp add: STR_of_def quiet_console_def)

text \<open>(C24) A malformed format prints what comes before the fault, then the message of the code, and returns: a format that ends after
  \<^verbatim>\<open>%\<close>, one that ends after \<^verbatim>\<open>%x\<close> or \<^verbatim>\<open>%b\<close> (both with the message for \<^verbatim>\<open>%x\<close>), and an unknown specifier, after which the rest of the format
  is dropped.\<close>

theorem vformat_malformed:
  assumes "transmits port s" and "\<forall>p \<in> set ps. piece_ok p"
    and "(tail, message) \<in> {(''%'', ''%(<out of bounds>)''), (''%x'', ''%x(<out of bounds>)''), (''%b'', ''%x(<out of bounds>)'')}
       \<or> (\<exists>c post. c \<notin> set ''piuIUsSxb'' \<and> tail = CHR ''%'' # c # post \<and> message = ''%(<unsupported format specifier>)'')"
  shows "\<exists>l. vformat (serial_stream_make port) (pieces_format ps @ STR_of tail) (pieces_args ps @ args) s = (Inr (), s\<lparr> port_log := l \<rparr>)
     \<and> sent port l = sent port (port_log s) @ pieces_text ps @ STR_of message"
proof -
  let ?out = "serial_stream_make port" and ?pre = "pieces_format ps"
  have run: "vformat_from ?out (?pre @ STR_of tail) args (int (length ?pre))
      = kbind (stream_write_string ?out (STR_of message)) (\<lambda>_. kret () :: ('a console_scheme, unit) krun)"
    using assms(3)
  proof (elim disjE exE conjE)
    fix c post assume c: "c \<notin> set ''piuIUsSxb''" and t: "tail = CHR ''%'' # c # post" "message = ''%(<unsupported format specifier>)''"
    have "STR_of tail = STR_of [CHR ''%'', c] @ STR_of post" by (simp add: t STR_of_def)
    then show ?thesis unfolding t(2) by (simp only: vformat_unsupported [OF c])
  next
    assume "(tail, message) \<in> {(''%'', ''%(<out of bounds>)''), (''%x'', ''%x(<out of bounds>)''), (''%b'', ''%x(<out of bounds>)'')}"
    then consider "tail = ''%''" "message = ''%(<out of bounds>)''" | "tail = ''%x''" "message = ''%x(<out of bounds>)''"
      | "tail = ''%b''" "message = ''%x(<out of bounds>)''" by auto
    then show ?thesis
      by cases (simp_all only: vformat_ends_percent vformat_ends_base [OF disjI1 [OF refl]] vformat_ends_base [OF disjI2 [OF refl]])
  qed
  have "writes (serial_ready port) (serial_text port :: 'a console_scheme \<Rightarrow> _)
      (vformat_from ?out (([] @ ?pre) @ STR_of tail) args (int (length ([] @ ?pre)))) () (STR_of message)"
    unfolding append_Nil run by (rule serial.write_unit(2))
  from serial.vformat_prefix [OF assms(2) this]
  have "writes (serial_ready port) (serial_text port :: 'a console_scheme \<Rightarrow> _)
      (vformat ?out (?pre @ STR_of tail) (pieces_args ps @ args)) () (pieces_text ps @ STR_of message)"
    by (simp add: vformat_def)
  from writes_run [OF this, of s] assms(1) show ?thesis by (auto simp: serial_ready_def serial_text_def)
qed

theorem vformat_malformed_witness:
  "\<exists>l. vformat (serial_stream_make SERIAL_COM1) (STR_of ''%b'') [] quiet_console = (Inr (), quiet_console\<lparr> port_log := l \<rparr>)
     \<and> sent SERIAL_COM1 l = STR_of ''%x(<out of bounds>)''"
  using vformat_malformed [OF quiet_console_transmits, of "[]" "''%b''" "''%x(<out of bounds>)''" "[]"]
  by (simp add: quiet_console_def)

end
