(* ===== verification/Kernel_Machine.thy ===== *)
theory Kernel_Machine
  imports Kernel_Memory Kernel_Format
begin

text \<open>
  The processor and memory behind \<^verbatim>\<open>kernel/src/base/base_asm.c\<close> and the inline assembly of the system code: the registers an
  instruction of the kernel reads or writes, the pages whose translation was invalidated, memory, and the addresses
  the linker gives to the two descriptor tables and to the interrupt stubs.
\<close>

record machine = console +
  memory :: mem
  cr2 :: U64
  cr3 :: U64
  msr :: "U32 \<Rightarrow> U64"
  interrupts_enabled :: bool
  invalidated :: "ptr list"
  gdtr :: "U16 \<times> U64"
  idtr :: "U16 \<times> U64"
  reg_cs :: U64
  reg_ds :: U16
  reg_es :: U16
  reg_ss :: U16
  reg_fs :: U16
  reg_gs :: U16
  system_gdt_data :: ptr
  system_idt_data :: ptr
  system_idt_isr_stub_0 :: ptr

section \<open>Instructions\<close>

definition asm_disable_interrupts :: "('s machine_scheme, unit) krun" where
  "asm_disable_interrupts = kmodify (interrupts_enabled_update (\<lambda>_. False))"

definition asm_enable_interrupts :: "('s machine_scheme, unit) krun" where
  "asm_enable_interrupts = kmodify (interrupts_enabled_update (\<lambda>_. True))"

definition ASM_MSR_APIC_BASE :: U32 where
  "ASM_MSR_APIC_BASE = 0x1B"

text \<open>\<^verbatim>\<open>rdmsr\<close> leaves the two halves of the register in \<^verbatim>\<open>edx\<close> and \<^verbatim>\<open>eax\<close>.\<close>

definition asm_read_msr :: "U32 \<Rightarrow> ('s machine_scheme, U64) krun" where
  "asm_read_msr n =
     kbind (kget (\<lambda>s. msr s n)) (\<lambda>v.
     let high_edx = ucast (drop_bit 32 v) :: U32; low_eax = ucast v :: U32
     in kret (ucast low_eax OR push_bit 32 (ucast high_edx)))"

definition asm_invlpg :: "ptr \<Rightarrow> ('s machine_scheme, unit) krun" where
  "asm_invlpg p = kmodify (\<lambda>s. s\<lparr> invalidated := invalidated s @ [p] \<rparr>)"

definition asm_cr3_read :: "('s machine_scheme, U64) krun" where
  "asm_cr3_read = kget cr3"

definition asm_cr3_write :: "U64 \<Rightarrow> ('s machine_scheme, unit) krun" where
  "asm_cr3_write new_value = kmodify (cr3_update (\<lambda>_. new_value))"

section \<open>Accesses through pointers\<close>

definition poke8 :: "ptr \<Rightarrow> U8 \<Rightarrow> ('s machine_scheme, unit) krun" where
  "poke8 a v = kmodify (\<lambda>s. s\<lparr> memory := (memory s)(a := v) \<rparr>)"

definition poke16 :: "ptr \<Rightarrow> U16 \<Rightarrow> ('s machine_scheme, unit) krun" where
  "poke16 a v = kmodify (\<lambda>s. s\<lparr> memory := store_u16 (memory s) a v \<rparr>)"

definition poke64 :: "ptr \<Rightarrow> U64 \<Rightarrow> ('s machine_scheme, unit) krun" where
  "poke64 a v = kmodify (\<lambda>s. s\<lparr> memory := store_u64 (memory s) a v \<rparr>)"

definition peek64 :: "ptr \<Rightarrow> ('s machine_scheme, U64) krun" where
  "peek64 a = kget (\<lambda>s. load_u64 (memory s) a)"

lemma poke_run [simp]:
  "kbind (poke8 a v) f s = f () (s\<lparr> memory := (memory s)(a := v) \<rparr>)"
  "kbind (poke16 a w) f s = f () (s\<lparr> memory := store_u16 (memory s) a w \<rparr>)"
  "kbind (poke64 a x) f s = f () (s\<lparr> memory := store_u64 (memory s) a x \<rparr>)"
  "kbind (peek64 a) g s = g (load_u64 (memory s) a) s"
  "poke8 a v s = (Inr (), s\<lparr> memory := (memory s)(a := v) \<rparr>)"
  "poke16 a w s = (Inr (), s\<lparr> memory := store_u16 (memory s) a w \<rparr>)"
  "poke64 a x s = (Inr (), s\<lparr> memory := store_u64 (memory s) a x \<rparr>)"
  "peek64 a s = (Inr (load_u64 (memory s) a), s)"
  by (simp_all add: poke8_def poke16_def poke64_def peek64_def kbind_def)

lemma asm_run [simp]:
  "kbind asm_disable_interrupts f s = f () (s\<lparr> interrupts_enabled := False \<rparr>)"
  "kbind asm_enable_interrupts f s = f () (s\<lparr> interrupts_enabled := True \<rparr>)"
  "kbind (asm_invlpg p) f s = f () (s\<lparr> invalidated := invalidated s @ [p] \<rparr>)"
  "asm_invlpg p s = (Inr (), s\<lparr> invalidated := invalidated s @ [p] \<rparr>)"
  "kbind asm_cr3_read g s = g (cr3 s) s"
  "kbind (asm_cr3_write v) f s = f () (s\<lparr> cr3 := v \<rparr>)"
  by (simp_all add: asm_disable_interrupts_def asm_enable_interrupts_def asm_invlpg_def asm_cr3_read_def asm_cr3_write_def)

lemma halves_join: "ucast (ucast v :: U32) OR push_bit 32 (ucast (ucast (drop_bit 32 v) :: U32)) = (v :: U64)"
  by (rule bit_word_eqI) (auto simp: bit_simps)

lemma read_msr_run [simp]: "kbind (asm_read_msr n) f s = f (msr s n) s"
  by (simp add: asm_read_msr_def kbind_assoc Let_def halves_join)

lemma store_u16_upd: "store_u16 m a v = m(a := ucast v, a + 1 := ucast (drop_bit 8 v))"
  by (simp add: store_u16_def numeral_2_eq_2)

section \<open>Computations that stop\<close>

text \<open>As \<open>writes\<close>, for a computation that ends in a panic.\<close>

definition stops ::
    "('s console_scheme \<Rightarrow> bool) \<Rightarrow> ('s console_scheme \<Rightarrow> U8 list) \<Rightarrow> ('s console_scheme, 'a) krun \<Rightarrow> kerror \<Rightarrow> U8 list \<Rightarrow> bool" where
  "stops ready view m e t \<longleftrightarrow> (\<forall>s. ready s \<longrightarrow> (\<exists>l. m s = (Inl e, s\<lparr> port_log := l \<rparr>) \<and> view (s\<lparr> port_log := l \<rparr>) = view s @ t))"

lemma stops_bind: "writes ready view m x t \<Longrightarrow> stops ready view (f x) e u \<Longrightarrow> stops ready view (kbind m f) e (t @ u)"
proof -
  assume m: "writes ready view m x t" and f: "stops ready view (f x) e u"
  have "\<exists>l. kbind m f s = (Inl e, s\<lparr> port_log := l \<rparr>) \<and> view (s\<lparr> port_log := l \<rparr>) = view s @ t @ u" if r: "ready s" for s
  proof -
    obtain l where l: "m s = (Inr x, s\<lparr> port_log := l \<rparr>)" "ready (s\<lparr> port_log := l \<rparr>)" "view (s\<lparr> port_log := l \<rparr>) = view s @ t"
      using m r unfolding writes_def by blast
    then show ?thesis using f unfolding stops_def by (force simp: kbind_def)
  qed
  then show ?thesis by (simp add: stops_def)
qed

lemma stops_left: "stops ready view m e t \<Longrightarrow> stops ready view (kbind m f) e t"
  unfolding stops_def by (metis kbind_run_Inl)

lemma stops_run: "stops ready view m e t \<Longrightarrow> ready s \<Longrightarrow> \<exists>l. m s = (Inl e, s\<lparr> port_log := l \<rparr>) \<and> view (s\<lparr> port_log := l \<rparr>) = view s @ t"
  by (simp add: stops_def)

context console_output
begin

lemma stops_kpanic: "stops ready view (kpanic m) (Kpanic m) (shown (STR_of (''KPANIC: '' @ m @ [newline])))"
  unfolding stops_def using kpanic_stops panic_out by blast

end

text \<open>A machine for examples: the console of a ready UART and zeroed memory.\<close>

definition quiet_machine :: machine where
  "quiet_machine = \<lparr> port_answer = (\<lambda>log p. if p = 0x3FD then 0x20 else 0xAE), port_log = [], poll_limit = 1,
     format_output_stream = serial_stream_make SERIAL_COM1, panic_output_stream = serial_stream_make SERIAL_COM1,
     memory = (\<lambda>_. 0), cr2 = 0, cr3 = 0, msr = (\<lambda>_. 0x900), interrupts_enabled = False, invalidated = [], gdtr = (0, 0), idtr = (0, 0),
     reg_cs = 0, reg_ds = 0, reg_es = 0, reg_ss = 0, reg_fs = 0, reg_gs = 0,
     system_gdt_data = 0x10000, system_idt_data = 0x20000, system_idt_isr_stub_0 = 0x30000 \<rparr>"

lemma quiet_machine_ready: "console_ready SERIAL_COM1 quiet_machine"
  by (simp add: console_ready_def transmits_def quiet_machine_def SERIAL_COM1_def)

end
