(* ===== verification/Kernel_Gdt.thy ===== *)
theory Kernel_Gdt
  imports Kernel_Machine
begin

text \<open>
  \<^verbatim>\<open>kernel/src/system/system_gdt.c\<close>: the encoding of segment descriptors and loading of the table. The reference is what the
  processor decodes from the eight bytes of a descriptor (AMD64 manual, volume 2, legacy segment descriptors).
\<close>

section \<open>The code\<close>

definition SYSTEM_GDT_NULL_SEGMENT :: int where "SYSTEM_GDT_NULL_SEGMENT = 0"
definition SYSTEM_GDT_KCODE_SEGMENT :: int where "SYSTEM_GDT_KCODE_SEGMENT = 1"
definition SYSTEM_GDT_KDATA_SEGMENT :: int where "SYSTEM_GDT_KDATA_SEGMENT = 2"
definition SYSTEM_GDT_UDATA_SEGMENT :: int where "SYSTEM_GDT_UDATA_SEGMENT = 3"
definition SYSTEM_GDT_UCODE_SEGMENT :: int where "SYSTEM_GDT_UCODE_SEGMENT = 4"

definition SYSTEM_GDT_SEGMENT_SELECTOR :: "int \<Rightarrow> int \<Rightarrow> U64" where
  "SYSTEM_GDT_SEGMENT_SELECTOR index rpl = word_of_int (push_bit 3 index OR rpl)"

definition SYSTEM_GDT_KDATA_SELECTOR :: U64 where
  "SYSTEM_GDT_KDATA_SELECTOR = SYSTEM_GDT_SEGMENT_SELECTOR SYSTEM_GDT_KDATA_SEGMENT 0"

definition SYSTEM_GDT_KCODE_SELECTOR :: U64 where
  "SYSTEM_GDT_KCODE_SELECTOR = SYSTEM_GDT_SEGMENT_SELECTOR SYSTEM_GDT_KCODE_SEGMENT 0"

definition SYSTEM_GDT_SEGMENT_COUNT :: int where "SYSTEM_GDT_SEGMENT_COUNT = 5"

definition SYSTEM_GDT_SEGFLAG_LONG_MODE :: U64 where "SYSTEM_GDT_SEGFLAG_LONG_MODE = BIT 1"
definition SYSTEM_GDT_SEGFLAG_DB :: U64 where "SYSTEM_GDT_SEGFLAG_DB = BIT 2"
definition SYSTEM_GDT_SEGFLAG_GRANULARITY :: U64 where "SYSTEM_GDT_SEGFLAG_GRANULARITY = BIT 3"

record System_Gdt_Entry =
  gdt_base :: U64
  gdt_limit :: U32
  gdt_access_byte :: U8
  gdt_flags :: U8

text \<open>The entries of the global \<^verbatim>\<open>system_gdt\<close>; the null segment is zero initialised, and nothing writes to them.\<close>

definition system_gdt_entries :: "System_Gdt_Entry list" where
  "system_gdt_entries =
     [ \<lparr> gdt_base = 0, gdt_limit = 0, gdt_access_byte = 0, gdt_flags = 0 \<rparr>,
       \<lparr> gdt_base = 0, gdt_limit = 0xFFFFF, gdt_access_byte = 0x9A,
         gdt_flags = ucast (SYSTEM_GDT_SEGFLAG_LONG_MODE OR SYSTEM_GDT_SEGFLAG_GRANULARITY) \<rparr>,
       \<lparr> gdt_base = 0, gdt_limit = 0xFFFFF, gdt_access_byte = 0x92,
         gdt_flags = ucast (SYSTEM_GDT_SEGFLAG_DB OR SYSTEM_GDT_SEGFLAG_GRANULARITY) \<rparr>,
       \<lparr> gdt_base = 0, gdt_limit = 0xFFFFF, gdt_access_byte = 0xF2,
         gdt_flags = ucast (SYSTEM_GDT_SEGFLAG_DB OR SYSTEM_GDT_SEGFLAG_GRANULARITY) \<rparr>,
       \<lparr> gdt_base = 0, gdt_limit = 0xFFFFF, gdt_access_byte = 0xFA,
         gdt_flags = ucast (SYSTEM_GDT_SEGFLAG_LONG_MODE OR SYSTEM_GDT_SEGFLAG_GRANULARITY) \<rparr> ]"

definition system_gdt_entry_encode :: "ptr \<Rightarrow> System_Gdt_Entry \<Rightarrow> ('s machine_scheme, unit) krun" where
  "system_gdt_entry_encode target entry =
     kbind (if gdt_limit entry > 0xFFFFF then kpanic ''GDT cannot encode limits larger than 0xFFFFF'' else kret ()) (\<lambda>_.
     kbind (poke8 (target + 0) (ucast (gdt_limit entry AND 0xFF))) (\<lambda>_.
     kbind (poke8 (target + 1) (ucast (drop_bit 8 (gdt_limit entry) AND 0xFF))) (\<lambda>_.
     kbind (poke8 (target + 6) (ucast (drop_bit 16 (gdt_limit entry) AND 0x0F))) (\<lambda>_.
     kbind (poke8 (target + 2) (ucast (gdt_base entry AND 0xFF))) (\<lambda>_.
     kbind (poke8 (target + 3) (ucast (drop_bit 8 (gdt_base entry) AND 0xFF))) (\<lambda>_.
     kbind (poke8 (target + 4) (ucast (drop_bit 16 (gdt_base entry) AND 0xFF))) (\<lambda>_.
     kbind (poke8 (target + 7) (ucast (drop_bit 24 (gdt_base entry) AND 0xFF))) (\<lambda>_.
     kbind (poke8 (target + 5) (gdt_access_byte entry)) (\<lambda>_.
     poke8 (target + 6) (push_bit 4 (gdt_flags entry)))))))))))"

text \<open>\<^verbatim>\<open>lgdt\<close>, then the data segment registers, then the code segment by a far return.\<close>

definition system_gdt_load :: "U16 \<Rightarrow> U64 \<Rightarrow> ('s machine_scheme, unit) krun" where
  "system_gdt_load limit base =
     kbind (kmodify (gdtr_update (\<lambda>_. (limit, base)))) (\<lambda>_.
     kmodify (\<lambda>s. s\<lparr> reg_ds := ucast SYSTEM_GDT_KDATA_SELECTOR, reg_es := ucast SYSTEM_GDT_KDATA_SELECTOR,
       reg_ss := ucast SYSTEM_GDT_KDATA_SELECTOR, reg_fs := 0, reg_gs := 0, reg_cs := SYSTEM_GDT_KCODE_SELECTOR \<rparr>))"

text \<open>The loop of \<^verbatim>\<open>system_gdt_setup\<close> from segment \<open>i\<close>.\<close>

function system_gdt_encode_from :: "int \<Rightarrow> ('s machine_scheme, unit) krun" where
  "system_gdt_encode_from i =
     (if i < SYSTEM_GDT_SEGMENT_COUNT then
        kbind (klift (array_get system_gdt_entries i)) (\<lambda>entry.
        kbind (kget system_gdt_data) (\<lambda>data.
        kbind (system_gdt_entry_encode (data + word_of_int (i * 8)) entry) (\<lambda>_.
        system_gdt_encode_from (i + 1))))
      else kret ())"
  by pat_completeness auto
termination
  by (relation "measure (\<lambda>i. nat (5 - i))") (auto simp: SYSTEM_GDT_SEGMENT_COUNT_def)

declare system_gdt_encode_from.simps [simp del]

definition system_gdt_setup :: "('s machine_scheme, unit) krun" where
  "system_gdt_setup =
     kbind (system_gdt_encode_from 0) (\<lambda>_.
     kbind (kget system_gdt_data) (\<lambda>data.
     system_gdt_load (word_of_int (SYSTEM_GDT_SEGMENT_COUNT * 8) - 1) data))"

section \<open>What the processor reads\<close>

definition gdt_decode :: "mem \<Rightarrow> ptr \<Rightarrow> System_Gdt_Entry" where
  "gdt_decode m a =
     \<lparr> gdt_base = ucast (m (a + 2)) OR push_bit 8 (ucast (m (a + 3))) OR push_bit 16 (ucast (m (a + 4)))
         OR push_bit 24 (ucast (m (a + 7))),
       gdt_limit = ucast (m a) OR push_bit 8 (ucast (m (a + 1))) OR push_bit 16 (ucast (m (a + 6) AND 0x0F)),
       gdt_access_byte = m (a + 5),
       gdt_flags = drop_bit 4 (m (a + 6)) \<rparr>"

text \<open>The bytes the code stores for an entry.\<close>

definition gdt_stored :: "mem \<Rightarrow> ptr \<Rightarrow> System_Gdt_Entry \<Rightarrow> mem" where
  "gdt_stored m a e =
     m(a := ucast (gdt_limit e), a + 1 := ucast (drop_bit 8 (gdt_limit e)), a + 2 := ucast (gdt_base e),
       a + 3 := ucast (drop_bit 8 (gdt_base e)), a + 4 := ucast (drop_bit 16 (gdt_base e)), a + 5 := gdt_access_byte e,
       a + 6 := push_bit 4 (gdt_flags e), a + 7 := ucast (drop_bit 24 (gdt_base e)))"

lemma mask_numerals: "0xFF = (mask 8 :: 'a::len word)" "0x0F = (mask 4 :: 'a::len word)"
  by (simp_all add: mask_eq_exp_minus_1)

lemma ucast_and_FF: "ucast ((w :: 'a::len word) AND 0xFF) = (ucast w :: U8)"
  unfolding mask_numerals by (rule bit_word_eqI) (auto simp: bit_simps bit_mask_iff dest: bit_imp_le_length)

lemma gdt_entry_encode_run:
  assumes "gdt_limit e \<le> 0xFFFFF"
  shows "system_gdt_entry_encode a e s = (Inr (), s\<lparr> memory := gdt_stored (memory s) a e \<rparr>)"
proof -
  have "\<not> gdt_limit e > 0xFFFFF" using assms by simp
  then show ?thesis
    by (simp add: system_gdt_entry_encode_def ucast_and_FF gdt_stored_def fun_eq_iff)
qed

lemma gdt_decode_stored:
  "gdt_decode (gdt_stored m a e) a =
     \<lparr> gdt_base = take_bit 32 (gdt_base e), gdt_limit = take_bit 16 (gdt_limit e), gdt_access_byte = gdt_access_byte e,
       gdt_flags = take_bit 4 (gdt_flags e) \<rparr>"
proof -
  have base: "ucast (ucast b :: U8) OR push_bit 8 (ucast (ucast (drop_bit 8 b) :: U8)) OR push_bit 16 (ucast (ucast (drop_bit 16 b) :: U8))
      OR push_bit 24 (ucast (ucast (drop_bit 24 b) :: U8)) = take_bit 32 b" for b :: U64
  proof (rule bit_word_eqI)
    show "bit (ucast (ucast b :: U8) OR push_bit 8 (ucast (ucast (drop_bit 8 b) :: U8)) OR push_bit 16 (ucast (ucast (drop_bit 16 b) :: U8))
        OR push_bit 24 (ucast (ucast (drop_bit 24 b) :: U8)) :: U64) n = bit (take_bit 32 b) n" for n
      by (cases "24 \<le> n"; cases "16 \<le> n") (auto simp: bit_simps)
  qed
  have limit: "ucast (ucast b :: U8) OR push_bit 8 (ucast (ucast (drop_bit 8 b) :: U8)) OR push_bit 16 (ucast (push_bit 4 f AND 0x0F))
      = take_bit 16 b" for b :: U32 and f :: U8
    unfolding mask_numerals by (rule bit_word_eqI) (auto simp: bit_simps bit_mask_iff)
  have flags: "drop_bit 4 (push_bit 4 f) = take_bit 4 f" for f :: U8
    by (rule bit_word_eqI) (auto simp: bit_simps)
  have "gdt_stored m a e a = ucast (gdt_limit e)" "gdt_stored m a e (a + 1) = ucast (drop_bit 8 (gdt_limit e))"
    "gdt_stored m a e (a + 2) = ucast (gdt_base e)" "gdt_stored m a e (a + 3) = ucast (drop_bit 8 (gdt_base e))"
    "gdt_stored m a e (a + 4) = ucast (drop_bit 16 (gdt_base e))" "gdt_stored m a e (a + 5) = gdt_access_byte e"
    "gdt_stored m a e (a + 6) = push_bit 4 (gdt_flags e)" "gdt_stored m a e (a + 7) = ucast (drop_bit 24 (gdt_base e))"
    by (simp_all add: gdt_stored_def)
  then show ?thesis unfolding gdt_decode_def by (simp only: base limit flags)
qed

text \<open>An entry keeps the descriptors that lie next to it.\<close>

lemma gdt_stored_other:
  "\<not> in_region a 8 x \<Longrightarrow> gdt_stored m a e x = m x"
proof -
  assume "\<not> in_region a 8 x"
  then have "x \<noteq> a + of_nat k" if "k < 8" for k
    using that in_region_of_nat [of k a 8] by auto
  from this [of 0] this [of 1] this [of 2] this [of 3] this [of 4] this [of 5] this [of 6] this [of 7]
  show ?thesis by (simp add: gdt_stored_def)
qed

lemma gdt_decode_skip:
  assumes "8 \<le> unat (y - x)" "8 \<le> unat (x - y)"
  shows "gdt_decode (gdt_stored m (d + x) e) (d + y) = gdt_decode m (d + y)"
proof -
  have "gdt_stored m (d + x) e (d + y + of_nat k) = m (d + y + of_nat k)" if "k < 8" for k
    using apart_not_in_region [OF assms that] by (rule gdt_stored_other)
  from this [of 0] this [of 1] this [of 2] this [of 3] this [of 4] this [of 5] this [of 6] this [of 7]
  show ?thesis by (simp add: gdt_decode_def)
qed

section \<open>Properties\<close>

text \<open>(C29) \<^verbatim>\<open>system_gdt_entry_encode\<close> panics exactly for limits of more than 20 bits. Otherwise it writes the eight bytes of the target only, and
  the processor decodes from them the base (32 bits), the access byte and the flags (4 bits) of the entry. Defect: of the limit it decodes only the
  lower 16 bits, because the flags are stored over the byte that holds its upper four.\<close>

theorem system_gdt_entry_encode_correct:
  "if gdt_limit e > 0xFFFFF
   then \<forall>port. console_ready port s \<longrightarrow> fst (system_gdt_entry_encode a e s) = Inl (Kpanic ''GDT cannot encode limits larger than 0xFFFFF'')
     \<and> memory (snd (system_gdt_entry_encode a e s)) = memory s
   else \<exists>m. system_gdt_entry_encode a e s = (Inr (), s\<lparr> memory := m \<rparr>)
     \<and> (\<forall>x. \<not> in_region a 8 x \<longrightarrow> m x = memory s x)
     \<and> gdt_decode m a = \<lparr> gdt_base = take_bit 32 (gdt_base e), gdt_limit = take_bit 16 (gdt_limit e),
         gdt_access_byte = gdt_access_byte e, gdt_flags = take_bit 4 (gdt_flags e) \<rparr>"
proof (cases "gdt_limit e > 0xFFFFF")
  case True
  let ?p = "kpanic ''GDT cannot encode limits larger than 0xFFFFF'' :: ('a machine_scheme, unit) krun"
  have p: "\<exists>l. ?p s = (Inl (Kpanic ''GDT cannot encode limits larger than 0xFFFFF''), s\<lparr> port_log := l \<rparr>)" if "console_ready port s" for port
    using com.kpanic_stops [OF that com.panic_out [OF that]] by blast
  then have "system_gdt_entry_encode a e s = ?p s" if "console_ready port s" for port
    using that p True by (fastforce simp: system_gdt_entry_encode_def kbind_def)
  then show ?thesis
    using True p by fastforce
next
  case False
  then show ?thesis
    using gdt_entry_encode_run [of e a s] gdt_decode_stored gdt_stored_other by auto
qed

theorem system_gdt_entry_encode_correct_witness:
  "\<exists>m. system_gdt_entry_encode 0x10008 (system_gdt_entries ! 1) quiet_machine = (Inr (), quiet_machine\<lparr> memory := m \<rparr>)
     \<and> gdt_limit (system_gdt_entries ! 1) = 0xFFFFF \<and> gdt_limit (gdt_decode m 0x10008) = 0xFFFF"
  using system_gdt_entry_encode_correct [of "system_gdt_entries ! 1" quiet_machine "0x10008"]
  by (auto simp: system_gdt_entries_def take_bit_eq_mod)

text \<open>(C28) After \<^verbatim>\<open>system_gdt_setup\<close> the table the processor is pointed to has five descriptors, null, kernel code, kernel data, user data
  and user code, each decoding to its entry up to the limit, the code segment register selects kernel code and the data segment
  registers kernel data.\<close>

theorem system_gdt_setup_correct:
  "\<exists>m. let data = system_gdt_data s in
     system_gdt_setup s = (Inr (), s\<lparr> memory := m, gdtr := (39, data), reg_ds := 0x10, reg_es := 0x10, reg_ss := 0x10,
       reg_fs := 0, reg_gs := 0, reg_cs := 0x8 \<rparr>)
     \<and> (\<forall>x. \<not> in_region data 40 x \<longrightarrow> m x = memory s x)
     \<and> map (\<lambda>i. gdt_decode m (data + i)) [0, 8, 16, 24, 32]
       = map (\<lambda>e. e\<lparr> gdt_limit := take_bit 16 (gdt_limit e) \<rparr>) system_gdt_entries"
proof -
  let ?d = "system_gdt_data s" and ?e = "\<lambda>i. system_gdt_entries ! i"
  define m where "m = gdt_stored (gdt_stored (gdt_stored (gdt_stored (gdt_stored (memory s) (?d + 0) (?e 0)) (?d + 8) (?e 1))
    (?d + 16) (?e 2)) (?d + 24) (?e 3)) (?d + 32) (?e 4)"
  have length_entries: "length system_gdt_entries = 5" by (simp add: system_gdt_entries_def)
  have small: "gdt_limit (?e i) \<le> 0xFFFFF" if "i < 5" for i
    using that by (auto simp: system_gdt_entries_def nth_Cons' less_Suc_eq)
  have step: "system_gdt_encode_from (int i) t = system_gdt_encode_from (int (Suc i))
      (t\<lparr> memory := gdt_stored (memory t) (system_gdt_data t + word_of_int (int i * 8)) (?e i) \<rparr>)" if "i < 5" for i and t :: "'a machine_scheme"
    using that
    by (subst system_gdt_encode_from.simps)
      (simp add: SYSTEM_GDT_SEGMENT_COUNT_def length_entries kbind_def gdt_entry_encode_run [OF small [OF that]] add.commute)
  have "system_gdt_encode_from (int 5) t = (Inr (), t)" for t :: "'a machine_scheme"
    by (subst system_gdt_encode_from.simps) (simp add: SYSTEM_GDT_SEGMENT_COUNT_def)
  then have "system_gdt_encode_from (int 0) s = (Inr (), s\<lparr> memory := m \<rparr>)"
    using step [of 0] step [of 1] step [of 2] step [of 3] step [of 4] by (simp add: m_def eval_nat_numeral)
  then have "system_gdt_setup s = (Inr (), s\<lparr> memory := m, gdtr := (39, ?d), reg_ds := 0x10, reg_es := 0x10, reg_ss := 0x10,
       reg_fs := 0, reg_gs := 0, reg_cs := 0x8 \<rparr>)"
    by (simp add: system_gdt_setup_def system_gdt_load_def kbind_def [of "system_gdt_encode_from _"] SYSTEM_GDT_SEGMENT_COUNT_def
        SYSTEM_GDT_KDATA_SELECTOR_def SYSTEM_GDT_KCODE_SELECTOR_def SYSTEM_GDT_SEGMENT_SELECTOR_def
        SYSTEM_GDT_KDATA_SEGMENT_def SYSTEM_GDT_KCODE_SEGMENT_def)
  moreover have "m x = memory s x" if "\<not> in_region ?d 40 x" for x
  proof -
    have "\<not> in_region (?d + of_nat k) 8 x" if "k \<le> 32" for k
      using in_region_offset [of ?d k 8 x 40] that \<open>\<not> in_region ?d 40 x\<close> by auto
    from this [of 0] this [of 8] this [of 16] this [of 24] this [of 32] show ?thesis
      by (simp add: m_def gdt_stored_other)
  qed
  moreover have "map (\<lambda>i. gdt_decode m (?d + i)) [0, 8, 16, 24, 32] = map (\<lambda>e. e\<lparr> gdt_limit := take_bit 16 (gdt_limit e) \<rparr>) system_gdt_entries"
    unfolding m_def
    by (simp add: gdt_decode_skip gdt_decode_skip [where y = 0, simplified] gdt_decode_stored system_gdt_entries_def
        SYSTEM_GDT_SEGFLAG_LONG_MODE_def SYSTEM_GDT_SEGFLAG_DB_def SYSTEM_GDT_SEGFLAG_GRANULARITY_def BIT_def)
  ultimately show ?thesis unfolding Let_def by blast
qed

theorem system_gdt_setup_correct_witness:
  "\<exists>s. system_gdt_setup quiet_machine = (Inr (), s) \<and> gdtr s = (39, 0x10000) \<and> reg_cs s = 8
     \<and> gdt_access_byte (gdt_decode (memory s) 0x10008) = 0x9A \<and> memory s 0x10028 = 0"
proof -
  have "\<not> in_region 0x10000 40 (0x10028 :: ptr)" by (simp add: in_region_def)
  then show ?thesis
    using system_gdt_setup_correct [of quiet_machine] by (fastforce simp: quiet_machine_def system_gdt_entries_def Let_def)
qed

end
