(* ===== verification/Kernel_Logging.thy ===== *)
theory Kernel_Logging
  imports Kernel_Format
begin

text \<open>
  \<^verbatim>\<open>kernel/src/base/base_logging.c\<close>. The only log function of the kernel is \<^verbatim>\<open>logger_printf\<close>, so a function pointer is a value of
  a type with one constructor. A C string is the list of its bytes with the terminator, or NULL.
\<close>

section \<open>The code\<close>

datatype Log_Level = LOGL_TRACE | LOGL_DEBUG | LOGL_INFO | LOGL_WARN | LOGL_ERROR | LOGL_FATAL

fun log_level_strings :: "Log_Level \<Rightarrow> U8 list option" where
  "log_level_strings LOGL_TRACE = c_literal ''TRACE''"
| "log_level_strings LOGL_DEBUG = c_literal ''DEBUG''"
| "log_level_strings LOGL_INFO = c_literal ''INFO''"
| "log_level_strings LOGL_WARN = c_literal ''WARN''"
| "log_level_strings LOGL_ERROR = c_literal ''ERROR''"
| "log_level_strings LOGL_FATAL = c_literal ''FATAL''"

datatype Log_Subsystem = LOGS_NONE | LOGS_GDT | LOGS_IDT | LOGS_ACPI | LOGS_APIC | LOGS_PAGING

fun log_subsystem_strings :: "Log_Subsystem \<Rightarrow> U8 list option" where
  "log_subsystem_strings LOGS_NONE = None"
| "log_subsystem_strings LOGS_GDT = c_literal ''GDT''"
| "log_subsystem_strings LOGS_IDT = c_literal ''IDT''"
| "log_subsystem_strings LOGS_ACPI = c_literal ''ACPI''"
| "log_subsystem_strings LOGS_APIC = c_literal ''APIC''"
| "log_subsystem_strings LOGS_PAGING = c_literal ''PAGING''"

record Log_Position =
  log_line :: int
  log_file :: "U8 list option"

datatype logger_func = Logger_Printf

record Logger =
  logger_function :: logger_func
  logger_data :: ptr

definition logger_printf ::
    "ptr \<Rightarrow> Log_Level \<Rightarrow> Log_Subsystem \<Rightarrow> Log_Position \<Rightarrow> U8 list option \<Rightarrow> va_list \<Rightarrow> ('s console_scheme, unit) krun" where
  "logger_printf data level subsystem pos fmt list =
     kbind (printf ''%S: %S - %S:%i - ''
       [Va_Cstr (log_subsystem_strings subsystem), Va_Cstr (log_level_strings level), Va_Cstr (log_file pos),
        Va_Word (word_of_int (log_line pos))]) (\<lambda>_.
     kbind (vprintf fmt list) (\<lambda>_.
     printf [newline] []))"

definition logger_call ::
    "Logger \<Rightarrow> Log_Level \<Rightarrow> Log_Subsystem \<Rightarrow> Log_Position \<Rightarrow> U8 list option \<Rightarrow> va_list \<Rightarrow> ('s console_scheme, unit) krun" where
  "logger_call logger = (case logger_function logger of Logger_Printf \<Rightarrow> logger_printf (logger_data logger))"

definition logger_vlog ::
    "Logger \<Rightarrow> Log_Level \<Rightarrow> Log_Subsystem \<Rightarrow> Log_Position \<Rightarrow> U8 list option \<Rightarrow> va_list \<Rightarrow> ('s console_scheme, unit) krun" where
  "logger_vlog logger level subsystem pos fmt list = logger_call logger level subsystem pos fmt list"

definition logger_log ::
    "Logger \<Rightarrow> Log_Level \<Rightarrow> Log_Subsystem \<Rightarrow> Log_Position \<Rightarrow> U8 list option \<Rightarrow> va_list \<Rightarrow> ('s console_scheme, unit) krun" where
  "logger_log logger level subsystem pos fmt list = logger_call logger level subsystem pos fmt list"

definition LOGGER_DEFAULT :: Logger where
  "LOGGER_DEFAULT = \<lparr> logger_function = Logger_Printf, logger_data = 0 \<rparr>"

text \<open>\<^verbatim>\<open>LOG_INFO\<close>, with the position \<^verbatim>\<open>__LINE__\<close> and \<^verbatim>\<open>__FILE__\<close> written out.\<close>

definition LOG_INFO :: "Log_Subsystem \<Rightarrow> int \<Rightarrow> string \<Rightarrow> string \<Rightarrow> va_list \<Rightarrow> ('s console_scheme, unit) krun" where
  "LOG_INFO subsystem line file fmt list =
     logger_log LOGGER_DEFAULT LOGL_INFO subsystem \<lparr> log_line = line, log_file = c_literal file \<rparr> (c_literal fmt) list"

section \<open>The text of a message\<close>

fun level_name :: "Log_Level \<Rightarrow> string" where
  "level_name LOGL_TRACE = ''TRACE''"
| "level_name LOGL_DEBUG = ''DEBUG''"
| "level_name LOGL_INFO = ''INFO''"
| "level_name LOGL_WARN = ''WARN''"
| "level_name LOGL_ERROR = ''ERROR''"
| "level_name LOGL_FATAL = ''FATAL''"

fun subsystem_name :: "Log_Subsystem \<Rightarrow> string" where
  "subsystem_name LOGS_NONE = []"
| "subsystem_name LOGS_GDT = ''GDT''"
| "subsystem_name LOGS_IDT = ''IDT''"
| "subsystem_name LOGS_ACPI = ''ACPI''"
| "subsystem_name LOGS_APIC = ''APIC''"
| "subsystem_name LOGS_PAGING = ''PAGING''"

definition plain :: "string \<Rightarrow> piece list" where
  "plain s = map Plain (STR_of s)"

lemma plain_format [simp]: "pieces_format (plain s) = STR_of s"
  by (induction s) (simp_all add: plain_def STR_of_def)

lemma plain_text [simp]: "pieces_text (plain s) = STR_of s"
  by (induction s) (simp_all add: plain_def STR_of_def)

lemma plain_args [simp]: "pieces_args (plain s) = []"
  by (induction s) (simp_all add: plain_def STR_of_def)

lemma plain_ok [simp]: "(\<forall>p \<in> set (plain s). piece_ok p) \<longleftrightarrow> CHR ''%'' \<notin> set s"
proof -
  have "(of_char c = (of_char CHR ''%'' :: U8)) = (c = CHR ''%'')" for c by (rule of_char_eq)
  then show ?thesis by (auto simp: plain_def STR_of_def)
qed

text \<open>The two C strings of a message, NULL for the subsystem of \<open>LOGS_NONE\<close>.\<close>

definition cstr_piece :: "U8 list option \<Rightarrow> piece" where
  "cstr_piece s = (case s of None \<Rightarrow> Cnull | Some cs \<Rightarrow> Cstr (butlast cs))"

lemma level_piece:
  "piece_args (cstr_piece (log_level_strings level)) = [Va_Cstr (log_level_strings level)]"
  "piece_text (cstr_piece (log_level_strings level)) = STR_of (level_name level)"
  "piece_ok (cstr_piece (log_level_strings level))"
  by (cases level; simp add: cstr_piece_def c_literal_def STR_of_def)+

lemma subsystem_piece:
  "piece_args (cstr_piece (log_subsystem_strings subsystem)) = [Va_Cstr (log_subsystem_strings subsystem)]"
  "piece_text (cstr_piece (log_subsystem_strings subsystem)) = STR_of (subsystem_name subsystem)"
  "piece_ok (cstr_piece (log_subsystem_strings subsystem))"
  by (cases subsystem; simp add: cstr_piece_def c_literal_def STR_of_def)+

lemma cstr_piece_format: "piece_format (cstr_piece s) = STR_of ''%S''"
  by (simp add: cstr_piece_def split: option.splits)

context console_output
begin

lemma logger_writes:
  assumes path: "path = cs @ [0]" "0 \<notin> set cs" and fmt: "string_from_char fmt = Inr (pieces_format ps)" "\<forall>p \<in> set ps. piece_ok p"
  shows "writes ready view (logger_printf data level subsystem \<lparr> log_line = line, log_file = Some path \<rparr> fmt (pieces_args ps)) ()
     (shown (STR_of (subsystem_name subsystem) @ STR_of '': '' @ STR_of (level_name level) @ STR_of '' - '' @ cs @ STR_of '':''
       @ signed_text (word_of_int line) 0 @ STR_of '' - '' @ pieces_text ps @ STR_of [newline]))"
proof -
  define qs where "qs = [cstr_piece (log_subsystem_strings subsystem)] @ plain '': '' @ [cstr_piece (log_level_strings level)] @ plain '' - ''
    @ [Cstr cs] @ plain '':'' @ [Num CHR ''i'' 0 (word_of_int line)] @ plain '' - ''"
  have ok: "\<forall>p \<in> set qs. piece_ok p"
    using path(2) level_piece(3) subsystem_piece(3) by (simp add: qs_def ball_Un)
  have f: "STR_of ''%S: %S - %S:%i - '' = pieces_format qs" by (simp add: qs_def cstr_piece_format) (simp add: STR_of_def)
  have a: "[Va_Cstr (log_subsystem_strings subsystem), Va_Cstr (log_level_strings level), Va_Cstr (Some path), Va_Word (word_of_int line)]
      = pieces_args qs" by (simp add: qs_def level_piece subsystem_piece path)
  have t: "pieces_text qs = STR_of (subsystem_name subsystem) @ STR_of '': '' @ STR_of (level_name level) @ STR_of '' - '' @ cs
      @ STR_of '':'' @ signed_text (word_of_int line) 0 @ STR_of '' - ''"
    by (simp add: qs_def level_piece subsystem_piece)
  have "writes ready view (printf [newline] []) () (shown (pieces_text (plain [newline])))"
    by (rule printf_writes) (simp_all add: newline_def)
  then have nl: "writes ready view (printf [newline] []) () (shown (STR_of [newline]))" by simp
  have "writes ready view (logger_printf data level subsystem \<lparr> log_line = line, log_file = Some path \<rparr> fmt (pieces_args ps)) ()
      (shown (pieces_text qs) @ shown (pieces_text ps) @ shown (STR_of [newline]))"
    unfolding logger_printf_def Log_Position.simps
    by (rule printf_then [OF f _ a ok], simp) (rule writes_bind [OF vprintf_writes [OF fmt] nl])
  then show ?thesis by (simp only: t shown_append append_assoc)
qed

end

section \<open>Property\<close>

text \<open>(C25) A log message is the subsystem (nothing for none), the level, the file and line and then the message itself, followed by a
  line feed.\<close>

theorem logger_log_correct:
  assumes "console_ready port s" and "0 \<notin> set cs" and "string_from_char fmt = Inr (pieces_format ps)" and "\<forall>p \<in> set ps. piece_ok p"
  shows "\<exists>l. logger_log LOGGER_DEFAULT level subsystem \<lparr> log_line = line, log_file = Some (cs @ [0]) \<rparr> fmt (pieces_args ps) s
       = (Inr (), s\<lparr> port_log := l \<rparr>)
     \<and> sent port l = sent port (port_log s) @ STR_of (subsystem_name subsystem) @ STR_of '': '' @ STR_of (level_name level) @ STR_of '' - '' @ cs @ STR_of '':''
         @ signed_text (word_of_int line) 0 @ STR_of '' - '' @ pieces_text ps @ STR_of [newline]"
  using writes_run [OF com.logger_writes [OF refl assms(2-4)], of port s 0 level subsystem line] assms(1)
  by (simp add: logger_log_def logger_call_def LOGGER_DEFAULT_def serial_text_def)

theorem logger_log_correct_witness:
  "\<exists>l. LOG_INFO LOGS_NONE 62 ''src/main.c'' ''hi'' [] quiet_console = (Inr (), quiet_console\<lparr> port_log := l \<rparr>)
     \<and> sent SERIAL_COM1 l = STR_of '': '' @ STR_of ''INFO'' @ STR_of '' - '' @ STR_of ''src/main.c'' @ STR_of '':'' @ signed_text 62 0 @ STR_of '' - '' @ STR_of ''hi'' @ STR_of [newline]"
proof -
  have "string_from_char (c_literal ''hi'') = Inr (pieces_format (plain ''hi''))" by (simp add: string_from_char_literal)
  moreover have "0 \<notin> set (STR_of ''src/main.c'')" by (simp add: STR_of_def)
  moreover have "\<forall>p \<in> set (plain ''hi''). piece_ok p" by simp
  ultimately show ?thesis
    using logger_log_correct [OF quiet_console_ready, of "STR_of ''src/main.c''" "c_literal ''hi''" "plain ''hi''" LOGL_INFO LOGS_NONE 62]
    by (simp add: LOG_INFO_def c_literal_def [of "''src/main.c''"] quiet_console_def STR_of_def [of "[]"])
qed

end
