(* ===== verification/Kernel_Idt.thy ===== *)
theory Kernel_Idt
  imports Kernel_Gdt Kernel_Logging
begin

text \<open>
  \<^verbatim>\<open>kernel/src/system/system_idt.c\<close>: gate descriptors, the table of 256 interrupt stubs, and the handler, which prints the
  interrupted state and panics. The stubs (\<^verbatim>\<open>system_idt.S\<close>) push the frame and call the handler; they are
  assembly and appear here only by their addresses, 16 bytes apart.
\<close>

section \<open>The table\<close>

definition SYSTEM_IDT_ENTRIES :: int where "SYSTEM_IDT_ENTRIES = 256"
definition SYSTEM_IDT_ENTRY_SIZE :: int where "SYSTEM_IDT_ENTRY_SIZE = 16"

record System_Idt_Entry =
  idt_offset :: U64
  idt_segment_selector :: U16
  idt_ist :: U8
  idt_flags :: U8

definition system_idt_entry_encode :: "ptr \<Rightarrow> System_Idt_Entry \<Rightarrow> ('s machine_scheme, unit) krun" where
  "system_idt_entry_encode target entry =
     kbind (poke16 (target + 0) (ucast (idt_offset entry) AND 0xFFFF)) (\<lambda>_.
     kbind (poke16 (target + 6) (ucast (drop_bit 16 (idt_offset entry)) AND 0xFFFF)) (\<lambda>_.
     kbind (poke16 (target + 8) (ucast (drop_bit 32 (idt_offset entry)) AND 0xFFFF)) (\<lambda>_.
     kbind (poke16 (target + 10) (ucast (drop_bit 48 (idt_offset entry)) AND 0xFFFF)) (\<lambda>_.
     kbind (poke16 (target + 2) (idt_segment_selector entry)) (\<lambda>_.
     kbind (poke8 (target + 4) (idt_ist entry AND 0x7)) (\<lambda>_.
     kbind (poke8 (target + 5) (idt_flags entry)) (\<lambda>_.
     kbind (poke16 (target + 12) 0) (\<lambda>_.
     poke16 (target + 14) 0))))))))"

definition system_idt_interrupt_entry :: "U8 \<Rightarrow> ptr \<Rightarrow> U8 \<Rightarrow> U8 \<Rightarrow> ('s machine_scheme, unit) krun" where
  "system_idt_interrupt_entry vector handler dpl ist =
     kbind (kget system_idt_data) (\<lambda>data.
     system_idt_entry_encode (data + word_of_int (uint vector * SYSTEM_IDT_ENTRY_SIZE))
       \<lparr> idt_offset = handler, idt_segment_selector = ucast SYSTEM_GDT_KCODE_SELECTOR, idt_ist = ist,
         idt_flags = 0b1110 OR push_bit 5 (dpl AND 0b11) OR push_bit 7 1 \<rparr>)"

definition system_idt_load :: "U16 \<Rightarrow> U64 \<Rightarrow> ('s machine_scheme, unit) krun" where
  "system_idt_load limit base = kmodify (idtr_update (\<lambda>_. (limit, base)))"

text \<open>The loop of \<^verbatim>\<open>system_idt_setup\<close> from vector \<open>i\<close>.\<close>

function system_idt_entries_from :: "int \<Rightarrow> ('s machine_scheme, unit) krun" where
  "system_idt_entries_from i =
     (if i < SYSTEM_IDT_ENTRIES then
        kbind (kget system_idt_isr_stub_0) (\<lambda>stub.
        kbind (system_idt_interrupt_entry (word_of_int i) (stub + word_of_int (i * 16)) 0 0) (\<lambda>_.
        system_idt_entries_from (i + 1)))
      else kret ())"
  by pat_completeness auto
termination
  by (relation "measure (\<lambda>i. nat (256 - i))") (auto simp: SYSTEM_IDT_ENTRIES_def)

declare system_idt_entries_from.simps [simp del]

definition system_idt_setup :: "('s machine_scheme, unit) krun" where
  "system_idt_setup =
     kbind (system_idt_entries_from 0) (\<lambda>_.
     kbind (kget system_idt_data) (\<lambda>data.
     system_idt_load (word_of_int (SYSTEM_IDT_ENTRIES * SYSTEM_IDT_ENTRY_SIZE) - 1) data))"

section \<open>The handler\<close>

definition SYSTEM_IDT_INTERRUPT_VECTOR_NAMES :: U64 where "SYSTEM_IDT_INTERRUPT_VECTOR_NAMES = 22"

definition system_idt_interrupt_vector_short_name :: "string list" where
  "system_idt_interrupt_vector_short_name =
     [''#DE'', ''#DB'', ''NMI'', ''#BP'', ''#OF'', ''#BR'', ''#UD'', ''#NM'', ''#DF'', ''N/A'', ''#TS'', ''#NP'', ''#SS'', ''#GP'',
      ''#PF'', ''N/A'', ''#MF'', ''#AC'', ''#MC'', ''#XM'', ''#VE'', ''#CP'']"

definition system_idt_interrupt_vector_name :: "string list" where
  "system_idt_interrupt_vector_name =
     [''Divide Error'', ''Debug Exception'', ''NMI Interrupt'', ''Breakpoint'', ''Overflow'', ''BOUND Range Exceeded'',
      ''Invalid Opcode (Undefined Opcode)'', ''Device Not Available (No Math Coprocessor)'', ''Double Fault'',
      ''Coprocessor Segment Overrun (reserved)'', ''Invalid TSS'', ''Segment Not Present'', ''Stack-Segment Fault'',
      ''General Protection'', ''Page Fault'', ''Intel reserved. Do not use.'', ''x87 FPU Floating-Point Error (Math Fault)'',
      ''Alignment Check'', ''Machine Check'', ''SIMD Floating-Point Exception'', ''Virtualization Exception'',
      ''Control Protection Exception'']"

record System_Idt_Interrupt_Stack_Frame =
  f_r15 :: U64
  f_r14 :: U64
  f_r13 :: U64
  f_r12 :: U64
  f_r11 :: U64
  f_r10 :: U64
  f_r9 :: U64
  f_r8 :: U64
  f_rbp :: U64
  f_rdi :: U64
  f_rsi :: U64
  f_rdx :: U64
  f_rcx :: U64
  f_rbx :: U64
  f_rax :: U64
  f_vector :: U64
  f_error_code :: U64
  f_rip :: U64
  f_cs :: U64
  f_rflags :: U64
  f_rsp :: U64
  f_ss :: U64

text \<open>Lines of the dump: the format of each \<^verbatim>\<open>printf\<close> and its one argument.\<close>

fun print_registers :: "(string \<times> U64) list \<Rightarrow> ('s console_scheme, unit) krun" where
  "print_registers [] = kret ()"
| "print_registers ((label, v) # rs) =
     kbind (printf (label @ ''%xU'' @ [newline]) [Va_Word v]) (\<lambda>_. print_registers rs)"

definition system_idt_interrupt_handler :: "System_Idt_Interrupt_Stack_Frame \<Rightarrow> ('s machine_scheme, unit) krun" where
  "system_idt_interrupt_handler frame =
     kbind (if f_vector frame < SYSTEM_IDT_INTERRUPT_VECTOR_NAMES then
              kbind (klift (array_get system_idt_interrupt_vector_short_name (uint (f_vector frame)))) (\<lambda>short.
              kbind (klift (array_get system_idt_interrupt_vector_name (uint (f_vector frame)))) (\<lambda>name.
              printf (''interrupt %s(%s) (error: %U):'' @ [newline])
                [Va_String (STR_of short), Va_String (STR_of name), Va_Word (f_error_code frame)]))
            else
              printf (''interrupt (vector %U, error: %U):'' @ [newline]) [Va_Word (f_vector frame), Va_Word (f_error_code frame)]) (\<lambda>_.
     kbind (if f_vector frame = 14
            then kbind (kget cr2) (\<lambda>v. printf (''cr2: %xU'' @ [newline]) [Va_Word v])
            else kret ()) (\<lambda>_.
     kbind (print_registers
       [(''r15: '', f_r15 frame), (''r14: '', f_r14 frame), (''r13: '', f_r13 frame), (''r12: '', f_r12 frame),
        (''r11: '', f_r11 frame), (''r10: '', f_r10 frame), (''r9:  '', f_r9 frame), (''r8:  '', f_r8 frame),
        (''rbp: '', f_rbp frame), (''rdi: '', f_rdi frame), (''rsi: '', f_rsi frame), (''rdx: '', f_rdx frame),
        (''rcx: '', f_rcx frame), (''rbx: '', f_rbx frame), (''rax: '', f_rax frame)]) (\<lambda>_.
     kbind (printf [newline] []) (\<lambda>_.
     kbind (print_registers [(''rip:    '', f_rip frame), (''cs:     '', f_cs frame), (''rflags: '', f_rflags frame)]) (\<lambda>_.
     kbind (if f_cs frame AND 0x3 \<noteq> 0
            then print_registers [(''rsp:    '', f_rsp frame), (''ss:     '', f_ss frame)]
            else kret ()) (\<lambda>_.
     kpanic ''interrupt handler called''))))))"

section \<open>What the processor reads\<close>

text \<open>A 64-bit interrupt gate (AMD64 manual, volume 2, long-mode interrupt descriptors).\<close>

definition idt_decode :: "mem \<Rightarrow> ptr \<Rightarrow> System_Idt_Entry" where
  "idt_decode m a =
     \<lparr> idt_offset = ucast (load_u16 m a) OR push_bit 16 (ucast (load_u16 m (a + 6))) OR push_bit 32 (ucast (load_u32 m (a + 8))),
       idt_segment_selector = load_u16 m (a + 2),
       idt_ist = m (a + 4) AND 0x7,
       idt_flags = m (a + 5) \<rparr>"

definition idt_stored :: "mem \<Rightarrow> ptr \<Rightarrow> System_Idt_Entry \<Rightarrow> mem" where
  "idt_stored m a e =
     (let w = (\<lambda>n. ucast (drop_bit n (idt_offset e)) :: U8) in
      m(a := w 0, a + 1 := w 8, a + 2 := ucast (idt_segment_selector e), a + 3 := ucast (drop_bit 8 (idt_segment_selector e)),
        a + 4 := idt_ist e AND 0x7, a + 5 := idt_flags e, a + 6 := w 16, a + 7 := w 24, a + 8 := w 32, a + 9 := w 40,
        a + 10 := w 48, a + 11 := w 56, a + 12 := 0, a + 13 := 0, a + 14 := 0, a + 15 := 0))"

lemma and_FFFF: "(w :: U16) AND 0xFFFF = w"
proof -
  have "(0xFFFF :: U16) = mask 16" by (simp add: mask_eq_exp_minus_1)
  then show ?thesis by (simp only: flip: take_bit_eq_mask) (simp add: take_bit_word_eq_self)
qed

lemma ucast_U16_U8: "ucast (ucast (w :: U64) :: U16) = (ucast w :: U8)" "ucast (drop_bit 8 (ucast (w :: U64) :: U16)) = (ucast (drop_bit 8 w) :: U8)"
  by (rule bit_word_eqI; auto simp: bit_simps)+

lemma idt_entry_encode_run: "system_idt_entry_encode a e s = (Inr (), s\<lparr> memory := idt_stored (memory s) a e \<rparr>)"
  by (simp add: system_idt_entry_encode_def store_u16_upd idt_stored_def Let_def and_FFFF ucast_U16_U8 drop_bit_drop_bit add.assoc fun_eq_iff)

lemma load_u16_bytes: "load_u16 m a = ucast (m a) OR push_bit 8 (ucast (m (a + 1)))"
  by (simp add: load_u16_def numeral_2_eq_2)

lemma join_16: "ucast (ucast w :: U8) OR push_bit 8 (ucast (ucast (drop_bit 8 w) :: U8)) = (ucast (w :: 'a::len word) :: U16)"
proof (rule bit_word_eqI)
  show "bit (ucast (ucast w :: U8) OR push_bit 8 (ucast (ucast (drop_bit 8 w) :: U8)) :: U16) n = bit (ucast w :: U16) n" for n
    by (cases "8 \<le> n") (auto simp: bit_simps dest: bit_imp_le_length)
qed

lemma join_32: "ucast (ucast w :: U16) OR push_bit 16 (ucast (ucast (drop_bit 16 w) :: U16)) = (ucast (w :: 'a::len word) :: U32)"
proof (rule bit_word_eqI)
  show "bit (ucast (ucast w :: U16) OR push_bit 16 (ucast (ucast (drop_bit 16 w) :: U16)) :: U32) n = bit (ucast w :: U32) n" for n
    by (cases "16 \<le> n") (auto simp: bit_simps dest: bit_imp_le_length)
qed

lemma load_u32_halves: "load_u32 m a = ucast (load_u16 m a) OR push_bit 16 (ucast (load_u16 m (a + 2)))"
proof (rule bit_word_eqI)
  fix n assume n: "n < LENGTH(32)"
  show "bit (load_u32 m a) n = bit (ucast (load_u16 m a) OR push_bit 16 (ucast (load_u16 m (a + 2))) :: U32) n"
  proof (cases "16 \<le> n")
    case True
    then obtain k where "n = 16 + k" using le_Suc_ex by blast
    moreover from this have "n div 8 = 2 + k div 8" "n mod 8 = k mod 8" by presburger+
    ultimately show ?thesis using n by (auto simp: load_u32_def load_u16_def bit_load_le bit_simps add.assoc)
  next
    case False
    then show ?thesis by (auto simp: load_u32_def load_u16_def bit_load_le bit_simps)
  qed
qed

lemma join_64: "ucast (ucast v :: U16) OR push_bit 16 (ucast (ucast (drop_bit 16 v) :: U16)) OR push_bit 32 (ucast (ucast (drop_bit 32 v) :: U32)) = (v :: U64)"
proof (rule bit_word_eqI)
  show "bit (ucast (ucast v :: U16) OR push_bit 16 (ucast (ucast (drop_bit 16 v) :: U16)) OR push_bit 32 (ucast (ucast (drop_bit 32 v) :: U32)) :: U64) n = bit v n" for n
    by (cases "32 \<le> n"; cases "16 \<le> n") (auto simp: bit_simps dest: bit_imp_le_length)
qed

lemma and_7: "((w :: U8) AND 0x7) AND 0x7 = w AND 0x7"
  by (simp add: and.assoc)

lemma idt_decode_stored: "idt_decode (idt_stored m a e) a = e\<lparr> idt_ist := idt_ist e AND 0x7 \<rparr>"
proof -
  have at: "idt_stored m a e a = ucast (drop_bit 0 (idt_offset e))" "idt_stored m a e (a + 1) = ucast (drop_bit 8 (idt_offset e))"
    "idt_stored m a e (a + 2) = ucast (idt_segment_selector e)" "idt_stored m a e (a + 3) = ucast (drop_bit 8 (idt_segment_selector e))"
    "idt_stored m a e (a + 4) = idt_ist e AND 0x7" "idt_stored m a e (a + 5) = idt_flags e"
    "idt_stored m a e (a + 6) = ucast (drop_bit 16 (idt_offset e))" "idt_stored m a e (a + 7) = ucast (drop_bit 24 (idt_offset e))"
    "idt_stored m a e (a + 8) = ucast (drop_bit 32 (idt_offset e))" "idt_stored m a e (a + 9) = ucast (drop_bit 40 (idt_offset e))"
    "idt_stored m a e (a + 10) = ucast (drop_bit 48 (idt_offset e))" "idt_stored m a e (a + 11) = ucast (drop_bit 56 (idt_offset e))"
    by (simp_all add: idt_stored_def Let_def)
  let ?m = "idt_stored m a e" and ?v = "idt_offset e"
  have load: "load_u16 ?m a = ucast ?v" "load_u16 ?m (a + 6) = ucast (drop_bit 16 ?v)"
    "load_u16 ?m (a + 8) = ucast (drop_bit 32 ?v)" "load_u16 ?m (a + 10) = ucast (drop_bit 16 (drop_bit 32 ?v))" "load_u16 ?m (a + 2) = idt_segment_selector e"
    using at join_16 [of ?v] join_16 [of "drop_bit 16 ?v"] join_16 [of "drop_bit 32 ?v"] join_16 [of "drop_bit 48 ?v"] join_16 [of "idt_segment_selector e"]
    by (simp_all add: load_u16_bytes add.assoc drop_bit_drop_bit)
  then have "load_u32 ?m (a + 8) = ucast (drop_bit 32 ?v)"
    using join_32 [of "drop_bit 32 ?v"] by (simp add: load_u32_halves add.assoc)
  then show ?thesis
    unfolding idt_decode_def load at and_7 by (simp only: join_64) simp
qed

lemma idt_stored_other: "\<not> in_region a 16 x \<Longrightarrow> idt_stored m a e x = m x"
proof -
  assume "\<not> in_region a 16 x"
  then have "x \<noteq> a + of_nat k" if "k < 16" for k
    using that in_region_of_nat [of k a 16] by auto
  from this [of 0] this [of 1] this [of 2] this [of 3] this [of 4] this [of 5] this [of 6] this [of 7]
    this [of 8] this [of 9] this [of 10] this [of 11] this [of 12] this [of 13] this [of 14] this [of 15]
  show ?thesis by (simp add: idt_stored_def Let_def)
qed

lemma idt_decode_skip:
  assumes "16 \<le> unat (y - x)" "16 \<le> unat (x - y)"
  shows "idt_decode (idt_stored m (d + x) e) (d + y) = idt_decode m (d + y)"
proof -
  have "idt_stored m (d + x) e (d + y + of_nat k) = m (d + y + of_nat k)" if "k < 16" for k
    using apart_not_in_region [OF assms that] by (rule idt_stored_other)
  from this [of 0] this [of 1] this [of 2] this [of 3] this [of 4] this [of 5] this [of 6] this [of 7]
    this [of 8] this [of 9] this [of 10] this [of 11]
  show ?thesis by (simp add: idt_decode_def load_u32_halves load_u16_bytes add.assoc)
qed

section \<open>The whole table\<close>

text \<open>The gate of a vector: present, ring 0, 64-bit interrupt gate, kernel code, at its stub.\<close>

definition idt_gate :: "ptr \<Rightarrow> nat \<Rightarrow> System_Idt_Entry" where
  "idt_gate stub v = \<lparr> idt_offset = stub + of_nat (v * 16), idt_segment_selector = 0x8, idt_ist = 0, idt_flags = 0x8E \<rparr>"

lemma interrupt_entry_run:
  "v < 256 \<Longrightarrow> system_idt_interrupt_entry (word_of_int (int v)) (stub + word_of_int (int v * 16)) 0 0 s
     = (Inr (), s\<lparr> memory := idt_stored (memory s) (system_idt_data s + of_nat (v * 16)) (idt_gate stub v) \<rparr>)"
proof -
  assume "v < 256"
  then have "uint (word_of_int (int v) :: U8) = int v" unfolding uint_word_of_int by simp
  then show ?thesis
    unfolding system_idt_interrupt_entry_def kbind_kget idt_entry_encode_run
    by (simp add: idt_gate_def SYSTEM_IDT_ENTRY_SIZE_def SYSTEM_GDT_KCODE_SELECTOR_def SYSTEM_GDT_SEGMENT_SELECTOR_def SYSTEM_GDT_KCODE_SEGMENT_def
        del: word_of_int_uint)
qed

lemma vectors_apart:
  assumes "v < 256" "w < 256" "v \<noteq> w"
  shows "16 \<le> unat (of_nat (v * 16) - of_nat (w * 16) :: U64)"
proof -
  have "unat (of_nat (v * 16) :: U64) = v * 16" "unat (of_nat (w * 16) :: U64) = w * 16"
    using assms by (intro unat_of_nat64; simp)+
  then show ?thesis using assms unat_sub_if' [of "of_nat (v * 16) :: U64" "of_nat (w * 16)"] by auto
qed

lemma idt_entries_from_run:
  "i \<le> 256 \<Longrightarrow> \<exists>m. system_idt_entries_from (int i) s = (Inr (), s\<lparr> memory := m \<rparr>)
     \<and> (\<forall>x. \<not> in_region (system_idt_data s) 4096 x \<longrightarrow> m x = memory s x)
     \<and> (\<forall>v < 256. idt_decode m (system_idt_data s + of_nat (v * 16)) =
          (if i \<le> v then idt_gate (system_idt_isr_stub_0 s) v else idt_decode (memory s) (system_idt_data s + of_nat (v * 16))))"
proof (induction "256 - i" arbitrary: i s)
  case 0
  then have "system_idt_entries_from (int i) s = (Inr (), s)"
    by (subst system_idt_entries_from.simps) (simp add: SYSTEM_IDT_ENTRIES_def)
  then show ?case using 0 by (intro exI [of _ "memory s"]) auto
next
  case (Suc k)
  let ?d = "system_idt_data s" and ?stub = "system_idt_isr_stub_0 s"
  let ?m = "idt_stored (memory s) (?d + of_nat (i * 16)) (idt_gate ?stub i)"
  let ?s = "s\<lparr> memory := ?m \<rparr>"
  have i: "i < 256" using Suc(2) by simp
  have run: "system_idt_entries_from (int i) s = system_idt_entries_from (int (Suc i)) ?s"
    using i by (subst system_idt_entries_from.simps) (simp add: SYSTEM_IDT_ENTRIES_def kbind_def interrupt_entry_run [simplified] add.commute)
  have sel: "system_idt_data ?s = ?d" "system_idt_isr_stub_0 ?s = ?stub" "memory ?s = ?m" "\<And>m. ?s\<lparr> memory := m \<rparr> = s\<lparr> memory := m \<rparr>" by simp_all
  have "k = 256 - Suc i" "Suc i \<le> 256" using Suc(2) i by simp_all
  note IH = Suc(1) [OF this, of ?s]
  obtain m where m: "system_idt_entries_from (int (Suc i)) ?s = (Inr (), s\<lparr> memory := m \<rparr>)"
      "\<And>x. \<not> in_region ?d 4096 x \<Longrightarrow> m x = ?m x"
      "\<And>v. v < 256 \<Longrightarrow> idt_decode m (?d + of_nat (v * 16)) =
          (if Suc i \<le> v then idt_gate ?stub v else idt_decode ?m (?d + of_nat (v * 16)))"
    using IH unfolding sel by blast
  have out: "?m x = memory s x" if "\<not> in_region ?d 4096 x" for x
    using in_region_offset [of ?d "i * 16" 16 x 4096] i that by (intro idt_stored_other) auto
  have dec: "idt_decode ?m (?d + of_nat (v * 16)) = (if v = i then idt_gate ?stub i else idt_decode (memory s) (?d + of_nat (v * 16)))" if "v < 256" for v
    using idt_decode_skip [OF vectors_apart [of v i] vectors_apart [of i v]] idt_decode_stored [of "memory s" "?d + of_nat (i * 16)" "idt_gate ?stub i"] that i
    by (auto simp: idt_gate_def)
  have "idt_decode m (?d + of_nat (v * 16)) = (if i \<le> v then idt_gate ?stub v else idt_decode (memory s) (?d + of_nat (v * 16)))" if "v < 256" for v
    using m(3) [OF that] dec [OF that] by (cases "v = i") auto
  then show ?case unfolding run m(1) using m(2) out by (intro exI [of _ m]) auto
qed

section \<open>Properties\<close>

text \<open>A gate descriptor is encoded as the processor decodes it: for every entry the eight fields round trip (of the IST index the three bits the
  format has), and only the 16 bytes of the target are written.\<close>

lemma system_idt_entry_encode_roundtrip:
  "\<exists>m. system_idt_entry_encode a e s = (Inr (), s\<lparr> memory := m \<rparr>) \<and> idt_decode m a = e\<lparr> idt_ist := idt_ist e AND 0x7 \<rparr>
     \<and> (\<forall>x. \<not> in_region a 16 x \<longrightarrow> m x = memory s x)"
  using idt_entry_encode_run idt_decode_stored idt_stored_other by blast

lemma system_idt_entry_encode_roundtrip_witness:
  "\<exists>m. system_idt_entry_encode 0x20000 (idt_gate 0xFFFFFFFF80001000 3) quiet_machine = (Inr (), quiet_machine\<lparr> memory := m \<rparr>)
     \<and> idt_offset (idt_decode m 0x20000) = 0xFFFFFFFF80001030 \<and> m 0x20010 = 0"
proof -
  have "\<not> in_region 0x20000 16 (0x20010 :: ptr)" by (simp add: in_region_def)
  then show ?thesis
    using system_idt_entry_encode_roundtrip [of "0x20000" "idt_gate 0xFFFFFFFF80001000 3" quiet_machine]
    by (fastforce simp: quiet_machine_def idt_gate_def)
qed

text \<open>(C26) After \<^verbatim>\<open>system_idt_setup\<close> the processor is pointed to a table in which each of the 256 vectors is an interrupt gate to its own stub,
  with kernel code and ring 0, and no byte outside the table has changed.\<close>

theorem system_idt_setup_correct:
  "\<exists>m. system_idt_setup s = (Inr (), s\<lparr> memory := m, idtr := (4095, system_idt_data s) \<rparr>)
     \<and> (\<forall>v < 256. idt_decode m (system_idt_data s + of_nat (v * 16)) =
          \<lparr> idt_offset = system_idt_isr_stub_0 s + of_nat (v * 16), idt_segment_selector = 0x8, idt_ist = 0, idt_flags = 0x8E \<rparr>)
     \<and> (\<forall>x. \<not> in_region (system_idt_data s) 4096 x \<longrightarrow> m x = memory s x)"
proof -
  obtain m where m: "system_idt_entries_from 0 s = (Inr (), s\<lparr> memory := m \<rparr>)"
      "\<forall>x. \<not> in_region (system_idt_data s) 4096 x \<longrightarrow> m x = memory s x"
      "\<forall>v < 256. idt_decode m (system_idt_data s + of_nat (v * 16)) = idt_gate (system_idt_isr_stub_0 s) v"
    using idt_entries_from_run [of 0 s] by auto
  then have "system_idt_setup s = (Inr (), s\<lparr> memory := m, idtr := (4095, system_idt_data s) \<rparr>)"
    by (simp add: system_idt_setup_def system_idt_load_def kbind_def [of "system_idt_entries_from _"] SYSTEM_IDT_ENTRIES_def SYSTEM_IDT_ENTRY_SIZE_def)
  then show ?thesis using m(2,3) by (auto simp: idt_gate_def)
qed

theorem system_idt_setup_correct_witness:
  "\<exists>s. system_idt_setup quiet_machine = (Inr (), s) \<and> idtr s = (4095, 0x20000)
     \<and> idt_offset (idt_decode (memory s) (0x20000 + of_nat (14 * 16))) = 0x30000 + of_nat (14 * 16)"
proof -
  have d: "system_idt_data quiet_machine = 0x20000" "system_idt_isr_stub_0 quiet_machine = 0x30000" by (simp_all add: quiet_machine_def)
  obtain m where m: "system_idt_setup quiet_machine = (Inr (), quiet_machine\<lparr> memory := m, idtr := (4095, 0x20000) \<rparr>)"
      "\<forall>v < 256. idt_decode m (0x20000 + of_nat (v * 16)) =
          \<lparr> idt_offset = 0x30000 + of_nat (v * 16), idt_segment_selector = 0x8, idt_ist = 0, idt_flags = 0x8E \<rparr>"
    using system_idt_setup_correct [of quiet_machine] unfolding d by blast
  have "idt_offset (idt_decode m (0x20000 + of_nat (14 * 16))) = 0x30000 + of_nat (14 * 16)"
    using m(2) [rule_format, of 14] by simp
  then show ?thesis unfolding m(1) by simp
qed

section \<open>The report of an interrupt\<close>

definition register_line :: "string \<times> U64 \<Rightarrow> U8 list" where
  "register_line r = STR_of (fst r) @ number_text (snd r) False 16 @ STR_of [newline]"

definition interrupt_header :: "System_Idt_Interrupt_Stack_Frame \<Rightarrow> U8 list" where
  "interrupt_header frame =
     (if f_vector frame < 22 then
        STR_of ''interrupt '' @ STR_of (system_idt_interrupt_vector_short_name ! unat (f_vector frame)) @ STR_of ''(''
        @ STR_of (system_idt_interrupt_vector_name ! unat (f_vector frame)) @ STR_of '') (error: '' @ number_text (f_error_code frame) False 0
      else STR_of ''interrupt (vector '' @ number_text (f_vector frame) False 0 @ STR_of '', error: '' @ number_text (f_error_code frame) False 0)
     @ STR_of (''):'' @ [newline])"

definition interrupt_report :: "System_Idt_Interrupt_Stack_Frame \<Rightarrow> U64 \<Rightarrow> U8 list" where
  "interrupt_report frame fault_address =
     interrupt_header frame
     @ (if f_vector frame = 14 then register_line (''cr2: '', fault_address) else [])
     @ concat (map register_line
         [(''r15: '', f_r15 frame), (''r14: '', f_r14 frame), (''r13: '', f_r13 frame), (''r12: '', f_r12 frame),
          (''r11: '', f_r11 frame), (''r10: '', f_r10 frame), (''r9:  '', f_r9 frame), (''r8:  '', f_r8 frame),
          (''rbp: '', f_rbp frame), (''rdi: '', f_rdi frame), (''rsi: '', f_rsi frame), (''rdx: '', f_rdx frame),
          (''rcx: '', f_rcx frame), (''rbx: '', f_rbx frame), (''rax: '', f_rax frame)])
     @ STR_of [newline]
     @ concat (map register_line [(''rip:    '', f_rip frame), (''cs:     '', f_cs frame), (''rflags: '', f_rflags frame)])
     @ (if f_cs frame AND 0x3 \<noteq> 0
        then concat (map register_line [(''rsp:    '', f_rsp frame), (''ss:     '', f_ss frame)]) else [])"

context console_output
begin

lemma register_writes:
  assumes "CHR ''%'' \<notin> set label" "CHR 0x00 \<notin> set label"
  shows "writes ready view (printf (label @ ''%xU'' @ [newline]) [Va_Word v]) () (shown (register_line (label, v)))"
proof -
  let ?ps = "plain label @ [Num CHR ''U'' 16 v] @ plain [newline]"
  have "writes ready view (printf (label @ ''%xU'' @ [newline]) [Va_Word v]) () (shown (pieces_text ?ps))"
  proof (rule printf_writes)
    show "STR_of (label @ ''%xU'' @ [newline]) = pieces_format ?ps" by (simp add: STR_of_def)
    show "\<forall>p \<in> set ?ps. piece_ok p" using assms(1) by (simp add: ball_Un newline_def)
  qed (use assms(2) in \<open>auto simp: newline_def\<close>)
  then show ?thesis by (simp add: register_line_def)
qed

lemma print_registers_writes:
  "\<forall>r \<in> set rs. CHR ''%'' \<notin> set (fst r) \<and> CHR 0x00 \<notin> set (fst r) \<Longrightarrow>
   writes ready view (print_registers rs) () (shown (concat (map register_line rs)))"
proof (induction rs)
  case (Cons r rs)
  obtain label v where r: "r = (label, v)" by (cases r)
  have "writes ready view (print_registers (r # rs)) () (shown (register_line r) @ shown (concat (map register_line rs)))"
    unfolding r print_registers.simps using Cons by (intro writes_bind [OF register_writes]) (auto simp: r)
  then show ?case by (simp add: shown_append)
qed (simp add: shown_Nil writes_kret)

lemma newline_writes: "writes ready view (printf [newline] []) () (shown (STR_of [newline]))"
  using printf_writes [of "[newline]" "plain [newline]" "[]"] by (simp add: newline_def)

end

lemma header_writes:
  "writes (console_ready port) (serial_text port)
     (if f_vector frame < SYSTEM_IDT_INTERRUPT_VECTOR_NAMES then
        kbind (klift (array_get system_idt_interrupt_vector_short_name (uint (f_vector frame)))) (\<lambda>short.
        kbind (klift (array_get system_idt_interrupt_vector_name (uint (f_vector frame)))) (\<lambda>name.
        printf (''interrupt %s(%s) (error: %U):'' @ [newline])
          [Va_String (STR_of short), Va_String (STR_of name), Va_Word (f_error_code frame)]))
      else printf (''interrupt (vector %U, error: %U):'' @ [newline]) [Va_Word (f_vector frame), Va_Word (f_error_code frame)])
     () (interrupt_header frame)"
proof (cases "f_vector frame < 22")
  case True
  let ?short = "system_idt_interrupt_vector_short_name ! unat (f_vector frame)"
    and ?name = "system_idt_interrupt_vector_name ! unat (f_vector frame)"
  have v: "uint (f_vector frame) < 22" using True by (simp add: word_less_def)
  have get: "array_get system_idt_interrupt_vector_short_name (uint (f_vector frame)) = Inr ?short"
    "array_get system_idt_interrupt_vector_name (uint (f_vector frame)) = Inr ?name"
    using v by (simp_all add: array_get_def system_idt_interrupt_vector_short_name_def system_idt_interrupt_vector_name_def)
  let ?ps = "plain ''interrupt '' @ [Str (STR_of ?short)] @ plain ''('' @ [Str (STR_of ?name)] @ plain '') (error: ''
    @ [Num CHR ''U'' 0 (f_error_code frame)] @ plain (''):'' @ [newline])"
  have "writes (console_ready port) (serial_text port) (printf (''interrupt %s(%s) (error: %U):'' @ [newline])
      [Va_String (STR_of ?short), Va_String (STR_of ?name), Va_Word (f_error_code frame)]) () (pieces_text ?ps)"
    by (rule com.printf_writes) (simp_all add: ball_Un newline_def, simp add: STR_of_def)
  then show ?thesis
    using True by (simp add: SYSTEM_IDT_INTERRUPT_VECTOR_NAMES_def get interrupt_header_def)
next
  case False
  let ?ps = "plain ''interrupt (vector '' @ [Num CHR ''U'' 0 (f_vector frame)] @ plain '', error: ''
    @ [Num CHR ''U'' 0 (f_error_code frame)] @ plain (''):'' @ [newline])"
  have "writes (console_ready port) (serial_text port) (printf (''interrupt (vector %U, error: %U):'' @ [newline])
      [Va_Word (f_vector frame), Va_Word (f_error_code frame)]) () (pieces_text ?ps)"
    by (rule com.printf_writes) (simp_all add: ball_Un newline_def, simp add: STR_of_def)
  then show ?thesis using False by (simp add: SYSTEM_IDT_INTERRUPT_VECTOR_NAMES_def interrupt_header_def)
qed

text \<open>While the handler runs, \<^verbatim>\<open>cr2\<close> keeps the address of the fault.\<close>

definition fault_ready :: "U16 \<Rightarrow> U64 \<Rightarrow> 's machine_scheme \<Rightarrow> bool" where
  "fault_ready port c s \<longleftrightarrow> console_ready port s \<and> cr2 s = c"

lemma fault_writes:
  "writes (console_ready port) (serial_text port) m x t \<Longrightarrow> writes (fault_ready port c) (serial_text port) (m :: ('s machine_scheme, 'a) krun) x t"
  by (erule writes_strengthen [where P = "\<lambda>s. cr2 s = c"]) (simp_all add: fault_ready_def)

lemma handler_stops:
  "stops (fault_ready port c) (serial_text port) (system_idt_interrupt_handler frame :: ('s machine_scheme, unit) krun)
     (Kpanic ''interrupt handler called'') (interrupt_report frame c @ STR_of (''KPANIC: '' @ ''interrupt handler called'' @ [newline]))"
proof -
  let ?w = "writes (fault_ready port c) (serial_text port :: 's machine_scheme \<Rightarrow> U8 list)"
  have panic: "stops (fault_ready port c) (serial_text port :: 's machine_scheme \<Rightarrow> U8 list)
      (kpanic ''interrupt handler called'' :: ('s machine_scheme, unit) krun) (Kpanic ''interrupt handler called'')
      (STR_of (''KPANIC: '' @ ''interrupt handler called'' @ [newline]))"
    using com.stops_kpanic [of port "''interrupt handler called''"] unfolding stops_def fault_ready_def by blast
  have regs: "?w (print_registers rs) () (concat (map register_line rs))" if "\<forall>r \<in> set rs. CHR ''%'' \<notin> set (fst r) \<and> CHR 0x00 \<notin> set (fst r)" for rs
    by (rule fault_writes [OF com.print_registers_writes [OF that]])
  have nl: "?w (printf [newline] []) () (STR_of [newline])" by (rule fault_writes [OF com.newline_writes])
  have "?w (kget cr2) c []" unfolding writes_def by (intro allI impI, rule_tac x = "port_log s" in exI) (simp add: fault_ready_def)
  moreover have "?w (printf (''cr2: '' @ ''%xU'' @ [newline]) [Va_Word c]) () (register_line (''cr2: '', c))"
    by (rule fault_writes [OF com.register_writes]) simp_all
  ultimately have "?w (kbind (kget cr2) (\<lambda>v. printf (''cr2: %xU'' @ [newline]) [Va_Word v])) () ([] @ register_line (''cr2: '', c))"
    by (intro writes_bind) simp_all
  then have cr2: "?w (if f_vector frame = 14 then kbind (kget cr2) (\<lambda>v. printf (''cr2: %xU'' @ [newline]) [Va_Word v]) else kret ()) ()
      (if f_vector frame = 14 then register_line (''cr2: '', c) else [])"
    by (simp add: writes_kret)
  have user: "?w (if f_cs frame AND 0x3 \<noteq> 0 then print_registers [(''rsp:    '', f_rsp frame), (''ss:     '', f_ss frame)] else kret ()) ()
      (if f_cs frame AND 0x3 \<noteq> 0 then concat (map register_line [(''rsp:    '', f_rsp frame), (''ss:     '', f_ss frame)]) else [])"
    using regs [of "[(''rsp:    '', f_rsp frame), (''ss:     '', f_ss frame)]"] by (simp add: writes_kret del: print_registers.simps)
  let ?L1 = "[(''r15: '', f_r15 frame), (''r14: '', f_r14 frame), (''r13: '', f_r13 frame), (''r12: '', f_r12 frame),
        (''r11: '', f_r11 frame), (''r10: '', f_r10 frame), (''r9:  '', f_r9 frame), (''r8:  '', f_r8 frame),
        (''rbp: '', f_rbp frame), (''rdi: '', f_rdi frame), (''rsi: '', f_rsi frame), (''rdx: '', f_rdx frame),
        (''rcx: '', f_rcx frame), (''rbx: '', f_rbx frame), (''rax: '', f_rax frame)]"
    and ?L2 = "[(''rip:    '', f_rip frame), (''cs:     '', f_cs frame), (''rflags: '', f_rflags frame)]"
  have L1: "?w (print_registers ?L1) () (concat (map register_line ?L1))" by (rule regs) simp
  have L2: "?w (print_registers ?L2) () (concat (map register_line ?L2))" by (rule regs) simp
  note tail = stops_bind [where f = "\<lambda>_. kpanic ''interrupt handler called''", OF user panic]
  note tail = stops_bind [where f = "\<lambda>_. kbind _ _", OF L2 tail]
  note tail = stops_bind [where f = "\<lambda>_. kbind _ _", OF nl tail]
  note tail = stops_bind [where f = "\<lambda>_. kbind _ _", OF L1 tail]
  note tail = stops_bind [where f = "\<lambda>_. kbind _ _", OF cr2 tail]
  note tail = stops_bind [where f = "\<lambda>_. kbind _ _", OF fault_writes [OF header_writes] tail]
  show ?thesis
    unfolding system_idt_interrupt_handler_def interrupt_report_def append_assoc by (rule tail)
qed

text \<open>(C27) Every interrupt ends in a panic after a complete report on the serial line: the name of the exception or its number, the error code, the faulting
  address of a page fault, all registers, and the stack of the interrupted code when it ran in user mode.\<close>

theorem system_idt_interrupt_handler_correct:
  assumes "console_ready port s"
  shows "\<exists>l. system_idt_interrupt_handler frame s = (Inl (Kpanic ''interrupt handler called''), s\<lparr> port_log := l \<rparr>)
     \<and> sent port l = sent port (port_log s) @ interrupt_report frame (cr2 s) @ STR_of (''KPANIC: '' @ ''interrupt handler called'' @ [newline])"
  using stops_run [OF handler_stops [of port "cr2 s" frame], of s] assms unfolding fault_ready_def serial_text_def by simp

theorem system_idt_interrupt_handler_correct_witness:
  "\<exists>frame l. f_vector frame = 14 \<and> fst (system_idt_interrupt_handler frame quiet_machine) = Inl (Kpanic ''interrupt handler called'')
     \<and> port_log (snd (system_idt_interrupt_handler frame quiet_machine)) = l
     \<and> sent SERIAL_COM1 l = interrupt_report frame 0 @ STR_of (''KPANIC: '' @ ''interrupt handler called'' @ [newline])"
proof -
  define frame where "frame = \<lparr> f_r15 = 0, f_r14 = 0, f_r13 = 0, f_r12 = 0, f_r11 = 0, f_r10 = 0, f_r9 = 0, f_r8 = 0, f_rbp = 0, f_rdi = 0,
    f_rsi = 0, f_rdx = 0, f_rcx = 0, f_rbx = 0, f_rax = 0, f_vector = 14, f_error_code = 2, f_rip = 0x1000, f_cs = 8, f_rflags = 2, f_rsp = 0, f_ss = 0x10 \<rparr>"
  have "f_vector frame = 14" by (simp add: frame_def)
  moreover have q: "cr2 quiet_machine = 0" "port_log quiet_machine = []" by (simp_all add: quiet_machine_def)
  ultimately show ?thesis
    using system_idt_interrupt_handler_correct [OF quiet_machine_ready, of frame] unfolding q sent.simps append_Nil by fastforce
qed

end
