(* ===== verification/Kernel_Acpi.thy ===== *)
theory Kernel_Acpi
  imports Kernel_Machine Kernel_Logging
begin

text \<open>
  \<^verbatim>\<open>kernel/src/system/system_acpi.c\<close>, and the state of the kernel that the boot loader fills in. The Limine responses are \<open>None\<close> when
  the request was not answered; reading through such a pointer is a \<open>Fault\<close>.

  The tables are bytes in memory, read at the offsets of the packed structs of the code. The struct for the header of a
  system description table declares \<^verbatim>\<open>oem_table_id\<close> as one byte where ACPI has eight, so its size is 29 instead of 36; the
  model keeps the size of the code.
\<close>

section \<open>State\<close>

record System_Acpi =
  use_extended :: bool
  acpi_rsdp :: ptr
  acpi_sdt :: ptr

record limine_memmap_entry =
  entry_base :: U64
  entry_length :: U64
  entry_type :: U64

text \<open>The requests and responses: revision and payload.\<close>

record kernel = machine +
  hhdm_response :: "(U64 \<times> U64) option"
  rsdp_request_revision :: U64
  rsdp_response :: "(U64 \<times> ptr) option"
  memmap_response :: "limine_memmap_entry list option"
  exe_addr_response :: "(U64 \<times> U64) option"
  system_acpi :: System_Acpi

definition hhdm_offset :: "('s kernel_scheme, U64) krun" where
  "hhdm_offset =
     kbind (kget hhdm_response) (\<lambda>r.
     case r of None \<Rightarrow> kstop (Fault ''system_hhdm_request.response'') | Some (_, offset) \<Rightarrow> kret offset)"

section \<open>The code\<close>

text \<open>Sizes and offsets of the packed structs.\<close>

definition size_of_Rsdp_Descriptor :: int where
  "size_of_Rsdp_Descriptor = 8 + 1 + 6 + 1 + 4"

definition size_of_Xsdp_Descriptor :: int where
  "size_of_Xsdp_Descriptor = size_of_Rsdp_Descriptor + 4 + 8 + 1 + 3"

definition size_of_Sdt_Header :: int where
  "size_of_Sdt_Header = 4 + 4 + 1 + 1 + 6 + 1 + 4 + 4 + 4"

definition rsdp_revision :: "mem \<Rightarrow> ptr \<Rightarrow> U8" where
  "rsdp_revision m rsdp = m (rsdp + 15)"

definition rsdp_rsdt_address :: "mem \<Rightarrow> ptr \<Rightarrow> U32" where
  "rsdp_rsdt_address m rsdp = load_u32 m (rsdp + 16)"

definition xsdp_xsdt_address :: "mem \<Rightarrow> ptr \<Rightarrow> U64" where
  "xsdp_xsdt_address m xsdp = load_u64 m (xsdp + 24)"

definition sdt_length :: "mem \<Rightarrow> ptr \<Rightarrow> U32" where
  "sdt_length m sdt = load_u32 m (sdt + 4)"

text \<open>The bytes a \<^verbatim>\<open>Bytes\<close> with this pointer and length covers.\<close>

definition mem_bytes :: "mem \<Rightarrow> ptr \<Rightarrow> int \<Rightarrow> Bytes" where
  "mem_bytes m a n = map (\<lambda>i. m (a + of_nat i)) [0..<nat n]"

function system_acpi_sum :: "Bytes \<Rightarrow> int \<Rightarrow> U32 \<Rightarrow> U32 result" where
  "system_acpi_sum rsdp_data i acc =
     (if i < int (length rsdp_data)
      then sbind (bytes_get rsdp_data i) (\<lambda>b. system_acpi_sum rsdp_data (i + 1) (acc + ucast b))
      else Inr acc)"
  by pat_completeness auto
termination
  by (relation "measure (\<lambda>(rsdp_data, i, acc). nat (int (length rsdp_data) - i))") auto

declare system_acpi_sum.simps [simp del]

definition system_acpi_validate :: "Bytes \<Rightarrow> bool result" where
  "system_acpi_validate rsdp_data =
     sbind (system_acpi_sum rsdp_data 0 0) (\<lambda>sum. Inr (sum AND 0xFF = 0))"

definition system_acpi_sdt_validate :: "mem \<Rightarrow> ptr \<Rightarrow> bool result" where
  "system_acpi_sdt_validate m sdt = system_acpi_validate (mem_bytes m sdt (uint (sdt_length m sdt)))"

text \<open>The part of \<^verbatim>\<open>system_acpi_setup\<close> after its assertions.\<close>

definition system_acpi_find :: "mem \<Rightarrow> ptr \<Rightarrow> U64 \<Rightarrow> ('s kernel_scheme, unit) krun" where
  "system_acpi_find m rsdp offset =
     kbind (printf (''ACPI: got rsdp address %p'' @ [newline]) [Va_Word rsdp]) (\<lambda>_.
     kbind (klift (system_acpi_validate (mem_bytes m rsdp size_of_Rsdp_Descriptor))) (\<lambda>valid.
     kbind (if \<not> valid then kpanic ''ACPI: rsdp checksum failed'' else kret ()) (\<lambda>_.
     kbind (if rsdp_revision m rsdp = 2 then
              kbind (klift (system_acpi_validate (mem_bytes m rsdp size_of_Xsdp_Descriptor))) (\<lambda>valid.
              if \<not> valid then kpanic ''ACPI: xsdp checksum failed'' else kret rsdp)
            else kret 0) (\<lambda>xsdp.
     let sdt_address = ucast (rsdp_rsdt_address m rsdp) + offset in
     kbind (if xsdp \<noteq> 0 then
              let sdt_address = xsdp_xsdt_address m xsdp + offset in
              kbind (printf (''ACPI: found xsdt at %p'' @ [newline]) [Va_Word sdt_address]) (\<lambda>_. kret sdt_address)
            else kbind (printf (''ACPI: found rsdt at %p'' @ [newline]) [Va_Word sdt_address]) (\<lambda>_. kret sdt_address)) (\<lambda>sdt_address.
     kbind (klift (system_acpi_sdt_validate m sdt_address)) (\<lambda>valid.
     kbind (if \<not> valid then kpanic ''ACPI: rsdt checksum failed'' else kret ()) (\<lambda>_.
     kmodify (\<lambda>s. s\<lparr> system_acpi := \<lparr> use_extended = xsdp \<noteq> 0, acpi_rsdp = rsdp, acpi_sdt = sdt_address \<rparr> \<rparr>))))))))"

definition system_acpi_setup :: "('s kernel_scheme, unit) krun" where
  "system_acpi_setup =
     kbind (kget (\<lambda>s. (rsdp_request_revision s, rsdp_response s, hhdm_response s, memory s))) (\<lambda>(revision, rsdp_resp, hhdm_resp, m).
     kbind (klift (kassert (revision = 0) ''system_acpi_rsdp_request.revision == 0'')) (\<lambda>_.
     case rsdp_resp of
       None \<Rightarrow> klift (kassert False ''system_acpi_rsdp_request.response != NULL'')
     | Some (rsdp_resp_revision, rsdp) \<Rightarrow>
         kbind (klift (kassert (rsdp_resp_revision = 0) ''system_acpi_rsdp_request.response->revision == 0'')) (\<lambda>_.
         case hhdm_resp of
           None \<Rightarrow> klift (kassert False ''system_hhdm_request.response != NULL'')
         | Some (hhdm_revision, offset) \<Rightarrow>
             kbind (klift (kassert (hhdm_revision = 0) ''system_hhdm_request.response->revision == 0'')) (\<lambda>_.
             system_acpi_find m rsdp offset))))"

definition system_acpi_sdt_count :: "'s kernel_scheme \<Rightarrow> int" where
  "system_acpi_sdt_count s =
     (uint (sdt_length (memory s) (acpi_sdt (system_acpi s))) - size_of_Sdt_Header) sdiv (if use_extended (system_acpi s) then 8 else 4)"

definition system_acpi_sdt_get :: "int \<Rightarrow> ('s kernel_scheme, Uintptr) krun" where
  "system_acpi_sdt_get item =
     kbind (kget (\<lambda>s. s)) (\<lambda>s.
     kbind (klift (kassert (acpi_rsdp (system_acpi s) \<noteq> 0) ''system_acpi.rsdp != NULL'')) (\<lambda>_.
     let item_count = system_acpi_sdt_count s; entries = acpi_sdt (system_acpi s) + word_of_int size_of_Sdt_Header in
     kbind (klift (kassert (0 \<le> item \<and> item < item_count) ''0 <= item && item < item_count'')) (\<lambda>_.
     kret (if use_extended (system_acpi s) then load_u64 (memory s) (entries + word_of_int (item * 8))
           else ucast (load_u32 (memory s) (entries + word_of_int (item * 4)))))))"

section \<open>The checksum\<close>

lemma acpi_sum_ok: "0 \<le> i \<Longrightarrow> system_acpi_sum b i acc = Inr (acc + sum_list (map ucast (drop (nat i) b)))"
proof (induction "nat (int (length b) - i)" arbitrary: i acc rule: less_induct)
  case less
  show ?case
  proof (cases "i < int (length b)")
    case True
    then have "system_acpi_sum b (i + 1) (acc + ucast (b ! nat i)) = Inr (acc + ucast (b ! nat i) + sum_list (map ucast (drop (nat (i + 1)) b)))"
      using less by simp
    then show ?thesis
      using True less.prems by (subst system_acpi_sum.simps) (simp add: drop_int_Cons add.assoc)
  next
    case False
    then show ?thesis by (subst system_acpi_sum.simps) simp
  qed
qed

lemma unat_sum_mod: "unat (sum_list (map ucast (b :: U8 list)) :: U32) mod 256 = sum_list (map unat b) mod 256"
proof (induction b)
  case (Cons x b)
  have "unat (ucast x :: U32) = unat x" using unsigned_less [of x, where ?'a = nat] by (simp add: unsigned_ucast_eq take_bit_nat_eq_self_iff)
  then have "unat (sum_list (map ucast (x # b)) :: U32) mod 256 = (unat x + unat (sum_list (map ucast b) :: U32)) mod 2 ^ 32 mod 256"
    by (simp add: unat_word_ariths)
  also have "\<dots> = (unat x + unat (sum_list (map ucast b) :: U32)) mod 256" by (simp add: mod_mod_cancel)
  also have "\<dots> = (unat x + sum_list (map unat b)) mod 256" using Cons.IH by (metis mod_add_right_eq)
  finally show ?case by simp
qed simp

lemma acpi_validate_sum: "system_acpi_validate b = Inr (sum_list (map unat b) mod 256 = 0)"
proof -
  have "(w AND 0xFF = 0) = (unat w mod 256 = 0)" for w :: U32
  proof -
    have "w AND 0xFF = take_bit 8 w" by (simp add: take_bit_eq_mask mask_eq_exp_minus_1)
    then have "unat (w AND 0xFF) = unat w mod 256" by (simp add: unat_mod_distrib take_bit_eq_mod)
    then show ?thesis by (metis unat_eq_zero)
  qed
  then show ?thesis by (simp add: system_acpi_validate_def acpi_sum_ok unat_sum_mod)
qed

section \<open>The tables\<close>

definition sums_to_zero :: "mem \<Rightarrow> ptr \<Rightarrow> nat \<Rightarrow> bool" where
  "sums_to_zero m a n \<longleftrightarrow> (\<Sum>i < n. unat (m (a + of_nat i))) mod 256 = 0"

lemma validate_mem_bytes: "system_acpi_validate (mem_bytes m a n) = Inr (sums_to_zero m a (nat n))"
  by (simp add: acpi_validate_sum mem_bytes_def sums_to_zero_def comp_def interv_sum_list_conv_sum_set_nat atLeast0LessThan)

text \<open>What \<^verbatim>\<open>system_acpi_setup\<close> looks for: the table, or why there is none.\<close>

definition acpi_tables :: "mem \<Rightarrow> ptr \<Rightarrow> U64 \<Rightarrow> string + System_Acpi" where
  "acpi_tables m rsdp offset =
     (let extended = rsdp_revision m rsdp = 2 \<and> rsdp \<noteq> 0;
          sdt = (if extended then xsdp_xsdt_address m rsdp else ucast (rsdp_rsdt_address m rsdp)) + offset
      in if \<not> sums_to_zero m rsdp 20 then Inl ''ACPI: rsdp checksum failed''
         else if rsdp_revision m rsdp = 2 \<and> \<not> sums_to_zero m rsdp 36 then Inl ''ACPI: xsdp checksum failed''
         else if \<not> sums_to_zero m sdt (unat (sdt_length m sdt)) then Inl ''ACPI: rsdt checksum failed''
         else Inr \<lparr> use_extended = extended, acpi_rsdp = rsdp, acpi_sdt = sdt \<rparr>)"

lemmas sizes = size_of_Rsdp_Descriptor_def size_of_Xsdp_Descriptor_def

context console_output
begin

lemma address_line_writes:
  assumes "CHR ''%'' \<notin> set label" "CHR 0x00 \<notin> set label"
  shows "writes ready view (printf (label @ ''%p'' @ [newline]) [Va_Word v]) () (shown (STR_of label @ number_text v False 16 @ STR_of [newline]))"
proof -
  let ?ps = "plain label @ [Num CHR ''p'' 0 v] @ plain [newline]"
  have "writes ready view (printf (label @ ''%p'' @ [newline]) [Va_Word v]) () (shown (pieces_text ?ps))"
  proof (rule printf_writes)
    show "STR_of (label @ ''%p'' @ [newline]) = pieces_format ?ps" by (simp add: STR_of_def)
    show "\<forall>p \<in> set ?ps. piece_ok p" using assms(1) by (simp add: ball_Un newline_def)
  qed (use assms(2) in \<open>auto simp: newline_def\<close>)
  then show ?thesis by simp
qed

end

lemma acpi_find_run:
  assumes "console_ready port s"
  shows "\<exists>l. system_acpi_find m rsdp offset s =
     (case acpi_tables m rsdp offset of
        Inl message \<Rightarrow> (Inl (Kpanic message), s\<lparr> port_log := l \<rparr>)
      | Inr acpi \<Rightarrow> (Inr (), s\<lparr> port_log := l, system_acpi := acpi \<rparr>))"
proof -
  let ?w = "\<lambda>m. writes (console_ready port) (serial_text port :: 'a kernel_scheme \<Rightarrow> U8 list) m"
  have print: "\<exists>l. printf (label @ ''%p'' @ [newline]) [Va_Word v] (t :: 'a kernel_scheme) = (Inr (), t\<lparr> port_log := l \<rparr>)"
    if "console_ready port t" "CHR ''%'' \<notin> set label" "CHR 0x00 \<notin> set label" for t label v
    using writes_run [OF com.address_line_writes [OF that(2,3)] that(1)] by blast
  have panic: "\<exists>l. kpanic msg (t :: 'a kernel_scheme) = (Inl (Kpanic msg), t\<lparr> port_log := l \<rparr>)" if "console_ready port t" for t msg
    using com.kpanic_stops [OF that com.panic_out [OF that]] by blast
  define extended where "extended \<longleftrightarrow> rsdp_revision m rsdp = 2 \<and> rsdp \<noteq> 0"
  define sdt where "sdt = (if extended then xsdp_xsdt_address m rsdp else ucast (rsdp_rsdt_address m rsdp)) + offset"
  obtain l1 where l1: "printf (''ACPI: got rsdp address %p'' @ [newline]) [Va_Word rsdp] s = (Inr (), s\<lparr> port_log := l1 \<rparr>)"
    using print [OF assms, of "''ACPI: got rsdp address ''" rsdp] by auto
  let ?s1 = "s\<lparr> port_log := l1 \<rparr>"
  have r1: "console_ready port ?s1" using assms by simp
  obtain l2 where l2: "printf ((if extended then ''ACPI: found xsdt at %p'' else ''ACPI: found rsdt at %p'') @ [newline]) [Va_Word sdt] ?s1
      = (Inr (), s\<lparr> port_log := l2 \<rparr>)"
    using print [OF r1, of "''ACPI: found xsdt at ''" sdt] print [OF r1, of "''ACPI: found rsdt at ''" sdt] by (cases extended) auto
  have r2: "console_ready port (s\<lparr> port_log := l2 \<rparr>)" using assms by simp
  note first = kbind_run [where m = "printf (''ACPI: got rsdp address %p'' @ [newline]) [Va_Word rsdp]" and s = s, OF l1]
  have find: "system_acpi_find m rsdp offset s =
      kbind (printf ((if extended then ''ACPI: found xsdt at %p'' else ''ACPI: found rsdt at %p'') @ [newline]) [Va_Word sdt]) (\<lambda>_.
      kbind (if \<not> sums_to_zero m sdt (unat (sdt_length m sdt)) then kpanic ''ACPI: rsdt checksum failed'' else kret ()) (\<lambda>_.
      kmodify (\<lambda>s. s\<lparr> system_acpi := \<lparr> use_extended = extended, acpi_rsdp = rsdp, acpi_sdt = sdt \<rparr> \<rparr>))) ?s1"
    if "sums_to_zero m rsdp 20" "rsdp_revision m rsdp = 2 \<longrightarrow> sums_to_zero m rsdp 36"
  proof -
    have xsdp: "(if rsdp_revision m rsdp = 2 then
        kbind (klift (system_acpi_validate (mem_bytes m rsdp size_of_Xsdp_Descriptor))) (\<lambda>valid.
        if \<not> valid then kpanic ''ACPI: xsdp checksum failed'' else kret rsdp) else kret 0)
      = (kret (if rsdp_revision m rsdp = 2 then rsdp else 0) :: ('a kernel_scheme, ptr) krun)"
      using that(2) by (cases "rsdp_revision m rsdp = 2") (simp_all only: sizes validate_mem_bytes klift_Inr kbind_kret simp_thms if_True if_False, simp)
    have valid: "system_acpi_validate (mem_bytes m rsdp size_of_Rsdp_Descriptor) = Inr True" using that(1) by (simp add: sizes validate_mem_bytes)
    have sdt_valid: "system_acpi_sdt_validate m a = Inr (sums_to_zero m a (unat (sdt_length m a)))" for a
      by (simp add: system_acpi_sdt_validate_def validate_mem_bytes)
    have x0: "(if rsdp_revision m rsdp = 2 then rsdp else 0) \<noteq> 0 \<longleftrightarrow> extended" by (simp add: extended_def)
    have xs: "extended \<Longrightarrow> (if rsdp_revision m rsdp = 2 then rsdp else 0) = rsdp" by (simp add: extended_def)
    show ?thesis
      unfolding system_acpi_find_def first valid xsdp klift_Inr kbind_kret simp_thms if_False x0 sdt_valid Let_def
      by (cases extended) (simp_all only: xs if_True if_False sdt_def kbind_assoc kbind_kret simp_thms)
  qed
  have tables: "acpi_tables m rsdp offset = (if \<not> sums_to_zero m sdt (unat (sdt_length m sdt)) then Inl ''ACPI: rsdt checksum failed''
      else Inr \<lparr> use_extended = extended, acpi_rsdp = rsdp, acpi_sdt = sdt \<rparr>)"
    if "sums_to_zero m rsdp 20" "rsdp_revision m rsdp = 2 \<longrightarrow> sums_to_zero m rsdp 36"
    using that by (simp add: acpi_tables_def Let_def extended_def sdt_def)
  consider "\<not> sums_to_zero m rsdp 20" | "sums_to_zero m rsdp 20" "rsdp_revision m rsdp = 2" "\<not> sums_to_zero m rsdp 36"
    | "sums_to_zero m rsdp 20" "rsdp_revision m rsdp = 2 \<longrightarrow> sums_to_zero m rsdp 36" "\<not> sums_to_zero m sdt (unat (sdt_length m sdt))"
    | "sums_to_zero m rsdp 20" "rsdp_revision m rsdp = 2 \<longrightarrow> sums_to_zero m rsdp 36" "sums_to_zero m sdt (unat (sdt_length m sdt))" by blast
  then show ?thesis
  proof cases
    case 1
    obtain l where "(kpanic ''ACPI: rsdp checksum failed'' :: ('a kernel_scheme, unit) krun) ?s1 = (Inl (Kpanic ''ACPI: rsdp checksum failed''), s\<lparr> port_log := l \<rparr>)"
      using panic [OF r1] by auto
    then show ?thesis using 1 l1 by (auto simp: system_acpi_find_def acpi_tables_def sizes validate_mem_bytes kbind_def Let_def)
  next
    case 2
    obtain l where "(kpanic ''ACPI: xsdp checksum failed'' :: ('a kernel_scheme, ptr) krun) ?s1 = (Inl (Kpanic ''ACPI: xsdp checksum failed''), s\<lparr> port_log := l \<rparr>)"
      using panic [OF r1] by auto
    then show ?thesis using 2 l1 by (auto simp: system_acpi_find_def acpi_tables_def sizes validate_mem_bytes kbind_def Let_def)
  next
    case 3
    obtain l where "(kpanic ''ACPI: rsdt checksum failed'' :: ('a kernel_scheme, unit) krun) (s\<lparr> port_log := l2 \<rparr>) = (Inl (Kpanic ''ACPI: rsdt checksum failed''), s\<lparr> port_log := l \<rparr>)"
      using panic [OF r2] by auto
    then show ?thesis using 3 l1 l2 find by (auto simp: tables kbind_def)
  next
    case 4
    then show ?thesis using l1 l2 find by (auto simp: tables kbind_def)
  qed
qed

section \<open>Properties\<close>

definition quiet_kernel :: kernel where
  "quiet_kernel = machine.extend quiet_machine
     \<lparr> hhdm_response = Some (0, 0xFFFF800000000000), rsdp_request_revision = 0, rsdp_response = Some (0, 0x1000),
       memmap_response = None, exe_addr_response = None, system_acpi = \<lparr> use_extended = False, acpi_rsdp = 0, acpi_sdt = 0 \<rparr> \<rparr>"

lemma quiet_kernel_fields [simp]:
  "hhdm_response quiet_kernel = Some (0, 0xFFFF800000000000)" "rsdp_request_revision quiet_kernel = 0"
  "rsdp_response quiet_kernel = Some (0, 0x1000)" "memory quiet_kernel = (\<lambda>_. 0)"
  by (simp_all add: quiet_kernel_def machine.extend_def quiet_machine_def)

lemma quiet_kernel_ready: "console_ready SERIAL_COM1 quiet_kernel"
  by (simp add: console_ready_def transmits_def quiet_kernel_def machine.extend_def quiet_machine_def SERIAL_COM1_def)

text \<open>(C30) \<^verbatim>\<open>system_acpi_setup\<close> with answered requests: every checksum that fails ends in its own panic, the extended descriptor is used exactly for
  revision 2, and otherwise the descriptor and the table it points to are recorded and nothing else but the console changes. A checksum is the sum of
  the bytes modulo 256, although it is accumulated in 32 bits that may wrap. A missing response fails an assertion.\<close>

theorem system_acpi_setup_correct:
  assumes "console_ready port s" and "rsdp_request_revision s = 0"
  shows "\<exists>l. system_acpi_setup s =
     (case rsdp_response s of
        None \<Rightarrow> (Inl (Assert_Failed ''system_acpi_rsdp_request.response != NULL''), s\<lparr> port_log := l \<rparr>)
      | Some (revision, rsdp) \<Rightarrow>
          if revision \<noteq> 0 then (Inl (Assert_Failed ''system_acpi_rsdp_request.response->revision == 0''), s\<lparr> port_log := l \<rparr>)
          else case hhdm_response s of
            None \<Rightarrow> (Inl (Assert_Failed ''system_hhdm_request.response != NULL''), s\<lparr> port_log := l \<rparr>)
          | Some (hhdm_revision, offset) \<Rightarrow>
              if hhdm_revision \<noteq> 0 then (Inl (Assert_Failed ''system_hhdm_request.response->revision == 0''), s\<lparr> port_log := l \<rparr>)
              else case acpi_tables (memory s) rsdp offset of
                Inl message \<Rightarrow> (Inl (Kpanic message), s\<lparr> port_log := l \<rparr>)
              | Inr acpi \<Rightarrow> (Inr (), s\<lparr> port_log := l, system_acpi := acpi \<rparr>))"
proof -
  have fail: "\<exists>l. kassert_trigger_assertion msg s = (Inl (Assert_Failed msg) :: unit result, s\<lparr> port_log := l \<rparr>)" if "CHR 0x00 \<notin> set msg" for msg
    using com.assertion_stops [OF assms(1) com.panic_out [OF assms(1)] that] by blast
  have fail_bind: "\<exists>l. kbind (kassert_trigger_assertion msg) f s = (Inl (Assert_Failed msg) :: unit result, s\<lparr> port_log := l \<rparr>)"
    if "CHR 0x00 \<notin> set msg" for msg and f :: "unit \<Rightarrow> _"
    using com.assertion_stops [OF assms(1) com.panic_out [OF assms(1)] that] kbind_run_Inl [of "kassert_trigger_assertion msg" s] by metis
  show ?thesis
  proof (cases "rsdp_response s")
    case None
    then show ?thesis using fail [of "''system_acpi_rsdp_request.response != NULL''"] assms(2) by (simp add: system_acpi_setup_def)
  next
    case (Some r)
    obtain rev rsdp where r: "r = (rev, rsdp)" by (cases r)
    show ?thesis
    proof (cases "rev = 0")
      case False
      then show ?thesis
        using fail_bind [of "''system_acpi_rsdp_request.response->revision == 0''"] assms(2) Some r by (cases "hhdm_response s") (simp_all add: system_acpi_setup_def)
    next
      case True
      show ?thesis
      proof (cases "hhdm_response s")
        case None
        then show ?thesis using fail [of "''system_hhdm_request.response != NULL''"] assms(2) Some r True by (simp add: system_acpi_setup_def)
      next
        case h: (Some h)
        obtain hrev offset where "h = (hrev, offset)" by (cases h)
        then show ?thesis
          using acpi_find_run [OF assms(1), of "memory s" rsdp offset] fail_bind [of "''system_hhdm_request.response->revision == 0''"] assms(2) Some r True h
          by (cases "hrev = 0") (simp_all add: system_acpi_setup_def)
      qed
    qed
  qed
qed

theorem system_acpi_setup_correct_witness:
  "\<exists>l. system_acpi_setup quiet_kernel = (Inr (), quiet_kernel\<lparr> port_log := l,
     system_acpi := \<lparr> use_extended = False, acpi_rsdp = 0x1000, acpi_sdt = 0xFFFF800000000000 \<rparr> \<rparr>)"
proof -
  have zero: "load_le (\<lambda>_. 0) a n = (0 :: 'a::len word)" for a n by (induction n arbitrary: a) simp_all
  have "acpi_tables (memory quiet_kernel) 0x1000 0xFFFF800000000000 = Inr \<lparr> use_extended = False, acpi_rsdp = 0x1000, acpi_sdt = 0xFFFF800000000000 \<rparr>"
    by (simp add: acpi_tables_def sums_to_zero_def rsdp_revision_def rsdp_rsdt_address_def load_u32_def zero sdt_length_def)
  then show ?thesis using system_acpi_setup_correct [OF quiet_kernel_ready] by simp
qed

text \<open>(C31) Defect. The table header of the code is 7 bytes shorter than that of ACPI (36 bytes), so for a root table with \<open>n\<close> 32-bit entries the kernel
  counts \<open>n + 1\<close>, and entry \<open>i\<close> is read 7 bytes before the place where it lies; only the count of an extended table is right.\<close>

theorem system_acpi_sdt_header_too_short:
  assumes "console_ready port s" and "acpi_rsdp (system_acpi s) \<noteq> 0" and "n < 2 ^ 28"
    and "sdt_length (memory s) (acpi_sdt (system_acpi s)) = of_nat (36 + (if use_extended (system_acpi s) then 8 else 4) * n)"
  shows "system_acpi_sdt_count s = (if use_extended (system_acpi s) then int n else int n + 1)
     \<and> (\<forall>i < n. system_acpi_sdt_get (int i) s = (Inr (
          if use_extended (system_acpi s) then load_u64 (memory s) (acpi_sdt (system_acpi s) + 36 - 7 + of_nat (8 * i))
          else ucast (load_u32 (memory s) (acpi_sdt (system_acpi s) + 36 - 7 + of_nat (4 * i)))), s))"
proof -
  have small: "uint (of_nat k :: U32) = int k" if "k < 2 ^ 32" for k
    using uint_word_of_int [of "int k", where ?'a = 32] that by simp
  have len: "uint (sdt_length (memory s) (acpi_sdt (system_acpi s))) = int (36 + (if use_extended (system_acpi s) then 8 else 4) * n)"
    unfolding assms(4) by (rule small) (use assms(3) in auto)
  have "(7 + 8 * int n) div 8 = int n" "(7 + 4 * int n) div 4 = int n + 1" by presburger+
  then have count: "system_acpi_sdt_count s = (if use_extended (system_acpi s) then int n else int n + 1)"
    unfolding system_acpi_sdt_count_def len size_of_Sdt_Header_def by (simp add: add.commute)
  have "system_acpi_sdt_get (int i) s = (Inr (
          if use_extended (system_acpi s) then load_u64 (memory s) (acpi_sdt (system_acpi s) + 36 - 7 + of_nat (8 * i))
          else ucast (load_u32 (memory s) (acpi_sdt (system_acpi s) + 36 - 7 + of_nat (4 * i)))), s)" if "i < n" for i
  proof -
    have "int i < system_acpi_sdt_count s" using count that by simp
    then show ?thesis using assms(2) unfolding system_acpi_sdt_get_def Let_def by (simp add: size_of_Sdt_Header_def ac_simps)
  qed
  with count show ?thesis by simp
qed

theorem system_acpi_sdt_header_too_short_witness:
  "\<exists>s :: kernel. sdt_length (memory s) (acpi_sdt (system_acpi s)) = 36 + 4 * 1 \<and> system_acpi_sdt_count s = 2
     \<and> system_acpi_sdt_get 0 s = (Inr (ucast (load_u32 (memory s) (acpi_sdt (system_acpi s) + 29))), s)"
proof -
  define s where "s = quiet_kernel\<lparr> memory := (\<lambda>a. if a = 0x2004 then 40 else 0),
    system_acpi := \<lparr> use_extended = False, acpi_rsdp = 0x1000, acpi_sdt = 0x2000 \<rparr> \<rparr>"
  have ready: "console_ready SERIAL_COM1 s"
    using quiet_kernel_ready by (simp add: s_def console_ready_def transmits_def)
  have len: "sdt_length (memory s) (acpi_sdt (system_acpi s)) = of_nat (36 + (if use_extended (system_acpi s) then 8 else 4) * 1)"
    by (simp add: s_def sdt_length_def load_u32_def load_le_numeral)
  have "acpi_rsdp (system_acpi s) \<noteq> 0" "\<not> use_extended (system_acpi s)" by (simp_all add: s_def)
  then show ?thesis
    using system_acpi_sdt_header_too_short [OF ready _ _ len] len by (auto simp: add.commute intro!: exI [of _ s])
qed

end
