(* ===== verification/Kernel_Apic.thy ===== *)
theory Kernel_Apic
  imports Kernel_Idt Kernel_Acpi
begin

text \<open>
  \<^verbatim>\<open>kernel/src/system/system_apic.c\<close>: the two legacy interrupt controllers are remapped and masked, and the base of the local APIC is read
  from its model specific register.
\<close>

section \<open>The code\<close>

definition SYSTEM_APIC_PIC_COMMAND_MASTER :: U16 where "SYSTEM_APIC_PIC_COMMAND_MASTER = 0x20"
definition SYSTEM_APIC_PIC_DATA_MASTER :: U16 where "SYSTEM_APIC_PIC_DATA_MASTER = 0x21"
definition SYSTEM_APIC_PIC_COMMAND_SLAVE :: U16 where "SYSTEM_APIC_PIC_COMMAND_SLAVE = 0xA0"
definition SYSTEM_APIC_PIC_DATA_SLAVE :: U16 where "SYSTEM_APIC_PIC_DATA_SLAVE = 0xA1"
definition SYSTEM_APIC_PIC_ICW_1 :: U8 where "SYSTEM_APIC_PIC_ICW_1 = 0x11"
definition SYSTEM_APIC_PIC_ICW_2_M :: U8 where "SYSTEM_APIC_PIC_ICW_2_M = 0x20"
definition SYSTEM_APIC_PIC_ICW_2_S :: U8 where "SYSTEM_APIC_PIC_ICW_2_S = 0x28"
definition SYSTEM_APIC_PIC_ICW_3_M :: U8 where "SYSTEM_APIC_PIC_ICW_3_M = 0x4"
definition SYSTEM_APIC_PIC_ICW_3_S :: U8 where "SYSTEM_APIC_PIC_ICW_3_S = 0x2"
definition SYSTEM_APIC_PIC_ICW_4 :: U8 where "SYSTEM_APIC_PIC_ICW_4 = 0x1"

lemmas pic_constants = SYSTEM_APIC_PIC_COMMAND_MASTER_def SYSTEM_APIC_PIC_DATA_MASTER_def SYSTEM_APIC_PIC_COMMAND_SLAVE_def
  SYSTEM_APIC_PIC_DATA_SLAVE_def SYSTEM_APIC_PIC_ICW_1_def SYSTEM_APIC_PIC_ICW_2_M_def SYSTEM_APIC_PIC_ICW_2_S_def
  SYSTEM_APIC_PIC_ICW_3_M_def SYSTEM_APIC_PIC_ICW_3_S_def SYSTEM_APIC_PIC_ICW_4_def

definition system_apic_pic_disable :: "('s console_scheme, unit) krun" where
  "system_apic_pic_disable =
     kbind (asm_port_outb SYSTEM_APIC_PIC_COMMAND_MASTER SYSTEM_APIC_PIC_ICW_1) (\<lambda>_.
     kbind (asm_port_outb SYSTEM_APIC_PIC_COMMAND_SLAVE SYSTEM_APIC_PIC_ICW_1) (\<lambda>_.
     kbind (asm_port_outb SYSTEM_APIC_PIC_DATA_MASTER SYSTEM_APIC_PIC_ICW_2_M) (\<lambda>_.
     kbind (asm_port_outb SYSTEM_APIC_PIC_DATA_SLAVE SYSTEM_APIC_PIC_ICW_2_S) (\<lambda>_.
     kbind (asm_port_outb SYSTEM_APIC_PIC_DATA_MASTER SYSTEM_APIC_PIC_ICW_3_M) (\<lambda>_.
     kbind (asm_port_outb SYSTEM_APIC_PIC_DATA_SLAVE SYSTEM_APIC_PIC_ICW_3_S) (\<lambda>_.
     kbind (asm_port_outb SYSTEM_APIC_PIC_DATA_MASTER SYSTEM_APIC_PIC_ICW_4) (\<lambda>_.
     kbind (asm_port_outb SYSTEM_APIC_PIC_DATA_SLAVE SYSTEM_APIC_PIC_ICW_4) (\<lambda>_.
     kbind (asm_port_outb SYSTEM_APIC_PIC_DATA_MASTER 0xFF) (\<lambda>_.
     kbind (asm_port_outb SYSTEM_APIC_PIC_DATA_SLAVE 0xFF) (\<lambda>_.
     printf (''APIC: disabled pic'' @ [newline]) []))))))))))"

definition system_apic_setup :: "('s kernel_scheme, unit) krun" where
  "system_apic_setup =
     kbind system_apic_pic_disable (\<lambda>_.
     kbind (asm_read_msr ASM_MSR_APIC_BASE) (\<lambda>apic_base.
     kbind (if push_bit 8 1 AND apic_base \<noteq> 0
            then printf (''APIC: this is the bootstrap processor'' @ [newline]) [] else kret ()) (\<lambda>_.
     kbind (if push_bit 11 1 AND apic_base \<noteq> 0
            then printf (''APIC: apic is enabled'' @ [newline]) [] else kpanic ''APIC: apic is disabled'') (\<lambda>_.
     let base_address_mask = (push_bit 36 1 - 1) AND NOT (push_bit 12 1 - 1);
         base_address = apic_base AND base_address_mask in
     kbind hhdm_offset (\<lambda>offset.
     let address = base_address + offset in
     kbind (printf (''APIC: base address = %xU'' @ [newline]) [Va_Word base_address]) (\<lambda>_.
     printf (''APIC: virtual address = %p'' @ [newline]) [Va_Word address]))))))"

section \<open>Every port at once\<close>

text \<open>What the console writes is seen on its own port and on no other one: the contract of a stream, with the view of an arbitrary port \<open>q\<close>.\<close>

definition on_port :: "U16 \<Rightarrow> U16 \<Rightarrow> U8 list \<Rightarrow> U8 list" where
  "on_port q port b = (if q = port then b else [])"

lemma on_port_append: "on_port q port (b @ c) = on_port q port b @ on_port q port c"
  by (simp add: on_port_def)

lemma on_port_Nil [simp]: "on_port q port [] = []"
  by (simp add: on_port_def)

lemma console_call_any_port:
  "\<exists>n. writes (console_ready port) (serial_text q :: 's console_scheme \<Rightarrow> _) (stream_call (serial_stream_make port) STREAM_OP_WRITE b) (n, b)
     (on_port q port b)"
proof -
  have "\<exists>l. kbind (write_each port b) (\<lambda>_. kret (int (length b), b)) s = (Inr (int (length b), b), s\<lparr> port_log := l \<rparr>)
      \<and> sent q l = sent q (port_log s) @ on_port q port b" if "transmits port s" for s :: "'s console_scheme"
    using write_each_ok [OF that, of b] by (auto simp: kbind_def on_port_def)
  then show ?thesis
    unfolding serial_call by (intro exI [of _ "int (length b)"]) (simp add: writes_def console_ready_def serial_text_def)
qed

interpretation ports: console_output "serial_stream_make port" "console_ready port" "serial_text q" "on_port q port" for port q
  by unfold_locales (rule console_call_any_port, rule on_port_append, simp_all add: console_ready_def)

context console_output
begin

lemma printf_plain:
  "CHR ''%'' \<notin> set t \<Longrightarrow> CHR 0x00 \<notin> set t \<Longrightarrow> writes ready view (printf t []) () (shown (STR_of t))"
  using printf_writes [of t "plain t" "[]"] by simp

end

section \<open>The setup\<close>

text \<open>While the setup runs, the register and the response of the boot loader stay as they are.\<close>

definition apic_ready :: "U16 \<Rightarrow> U64 \<Rightarrow> U64 \<Rightarrow> 's kernel_scheme \<Rightarrow> bool" where
  "apic_ready port v offset s \<longleftrightarrow> console_ready port s \<and> msr s ASM_MSR_APIC_BASE = v \<and> (\<exists>r. hhdm_response s = Some (r, offset))"

lemma apic_writes:
  "writes (console_ready port) (serial_text q) m x t \<Longrightarrow> writes (apic_ready port v offset) (serial_text q) (m :: ('s kernel_scheme, 'a) krun) x t"
  by (erule writes_strengthen [where P = "\<lambda>s. msr s ASM_MSR_APIC_BASE = v \<and> (\<exists>r. hhdm_response s = Some (r, offset))"])
    (simp_all add: apic_ready_def)

lemma apic_reads:
  "writes (apic_ready port v offset) (serial_text q) (asm_read_msr ASM_MSR_APIC_BASE) v []"
  "writes (apic_ready port v offset) (serial_text q) hhdm_offset offset []"
  unfolding writes_def using read_msr_run [of ASM_MSR_APIC_BASE kret]
  by (intro allI impI, rule_tac x = "port_log s" in exI, force simp: apic_ready_def hhdm_offset_def)+

definition apic_base_address :: "U64 \<Rightarrow> U64" where
  "apic_base_address v = v AND ((push_bit 36 1 - 1) AND NOT (push_bit 12 1 - 1))"

definition apic_report :: "U64 \<Rightarrow> U64 \<Rightarrow> U8 list" where
  "apic_report v offset =
     (if bit v 8 then STR_of (''APIC: this is the bootstrap processor'' @ [newline]) else [])
     @ (if bit v 11 then STR_of (''APIC: apic is enabled'' @ [newline])
          @ STR_of ''APIC: base address = '' @ number_text (apic_base_address v) False 16 @ STR_of [newline]
          @ STR_of ''APIC: virtual address = '' @ number_text (apic_base_address v + offset) False 16 @ STR_of [newline]
        else STR_of (''KPANIC: '' @ ''APIC: apic is disabled'' @ [newline]))"

text \<open>The part of \<^verbatim>\<open>system_apic_setup\<close> after the old controllers are masked.\<close>

definition apic_rest :: "('s kernel_scheme, unit) krun" where
  "apic_rest =
     kbind (asm_read_msr ASM_MSR_APIC_BASE) (\<lambda>apic_base.
     kbind (if bit apic_base 8 then printf (''APIC: this is the bootstrap processor'' @ [newline]) [] else kret ()) (\<lambda>_.
     kbind (if bit apic_base 11 then printf (''APIC: apic is enabled'' @ [newline]) [] else kpanic ''APIC: apic is disabled'') (\<lambda>_.
     kbind hhdm_offset (\<lambda>offset.
     kbind (printf (''APIC: base address = %xU'' @ [newline]) [Va_Word (apic_base_address apic_base)]) (\<lambda>_.
     printf (''APIC: virtual address = %p'' @ [newline]) [Va_Word (apic_base_address apic_base + offset)])))))"

lemma bit_test: "(push_bit n 1 AND v \<noteq> 0) = bit (v :: U64) n" if "n < 64"
proof -
  have "push_bit n 1 AND v = (if bit v n then push_bit n 1 else 0)"
    using that by (intro bit_word_eqI) (auto simp: bit_simps)
  moreover have "bit (push_bit n (1 :: U64)) n" using that by (simp add: bit_simps)
  then have "push_bit n (1 :: U64) \<noteq> 0" by (metis bit_0_eq bot_apply bot_bool_def)
  ultimately show ?thesis by simp
qed

lemma apic_setup_rest: "system_apic_setup = kbind system_apic_pic_disable (\<lambda>_. apic_rest)"
  unfolding system_apic_setup_def apic_rest_def apic_base_address_def Let_def using bit_test [of 8] bit_test [of 11] by simp

text \<open>What a port sees of the setup: the controllers their commands, the console its text.\<close>

lemma apic_rest_run:
  fixes s :: "'s kernel_scheme"
  assumes ready: "apic_ready port v offset s"
  shows "\<exists>l. apic_rest s = ((if bit v 11 then Inr () else Inl (Kpanic ''APIC: apic is disabled'')), s\<lparr> port_log := l \<rparr>)
     \<and> sent q l = sent q (port_log s) @ on_port q port (apic_report v offset)"
proof -
  let ?w = "writes (apic_ready port v offset) (serial_text q :: 's kernel_scheme \<Rightarrow> U8 list)"
  let ?st = "stops (apic_ready port v offset) (serial_text q :: 's kernel_scheme \<Rightarrow> U8 list)"
  let ?sh = "on_port q port"
  define bootstrap where "bootstrap = ''APIC: this is the bootstrap processor'' @ [newline]"
  define enabled where "enabled = ''APIC: apic is enabled'' @ [newline]"
  define base where "base = ''APIC: base address = %xU'' @ [newline]"
  define virt where "virt = ''APIC: virtual address = %p'' @ [newline]"
  let ?boot = "if bit v 8 then printf bootstrap [] else kret ()"
  have line: "?w (printf t []) () (?sh (STR_of t))" if "CHR ''%'' \<notin> set t" "CHR 0x00 \<notin> set t" for t
    by (rule apic_writes [OF ports.printf_plain [OF that]])
  have boot: "?w ?boot () (?sh (if bit v 8 then STR_of bootstrap else []))"
    using line [of bootstrap] by (simp add: bootstrap_def newline_def writes_kret)
  have rest: "apic_rest = kbind (asm_read_msr ASM_MSR_APIC_BASE) (\<lambda>b.
      kbind (if bit b 8 then printf bootstrap [] else kret ()) (\<lambda>_.
      kbind (if bit b 11 then printf enabled [] else kpanic ''APIC: apic is disabled'') (\<lambda>_.
      kbind hhdm_offset (\<lambda>o'. kbind (printf base [Va_Word (apic_base_address b)]) (\<lambda>_. printf virt [Va_Word (apic_base_address b + o')])))))"
    unfolding apic_rest_def bootstrap_def enabled_def base_def virt_def ..
  show ?thesis
  proof (cases "bit v 11")
    case True
    have on: "?w (if bit v 11 then printf enabled [] else kpanic ''APIC: apic is disabled'') () (?sh (STR_of enabled))"
      using True line [of enabled] by (simp add: enabled_def newline_def)
    have w_base: "?w (printf base [Va_Word w]) () (?sh (register_line (''APIC: base address = '', w)))" for w
      using apic_writes [OF ports.register_writes [of "''APIC: base address = ''"]] by (simp add: base_def)
    have w_virt: "?w (printf virt [Va_Word w]) () (?sh (STR_of ''APIC: virtual address = '' @ number_text w False 16 @ STR_of [newline]))" for w
      using apic_writes [OF ports.address_line_writes [of "''APIC: virtual address = ''"]] by (simp add: virt_def)
    have shape: "?sh (apic_report v offset) = [] @ ?sh (if bit v 8 then STR_of bootstrap else []) @ ?sh (STR_of enabled) @ []
        @ ?sh (register_line (''APIC: base address = '', apic_base_address v))
        @ ?sh (STR_of ''APIC: virtual address = '' @ number_text (apic_base_address v + offset) False 16 @ STR_of [newline])"
      using True by (simp add: apic_report_def register_line_def on_port_append bootstrap_def enabled_def)
    have "?w apic_rest () (?sh (apic_report v offset))"
      unfolding shape rest
      by (rule writes_bind [OF apic_reads(1)], rule writes_bind [OF boot], rule writes_bind [OF on],
          rule writes_bind [OF apic_reads(2)], rule writes_bind [OF w_base w_virt])
    from writes_run [OF this ready] True show ?thesis by (auto simp: serial_text_def)
  next
    case False
    have "?st (kpanic ''APIC: apic is disabled'' :: ('s kernel_scheme, unit) krun) (Kpanic ''APIC: apic is disabled'')
        (?sh (STR_of (''KPANIC: '' @ ''APIC: apic is disabled'' @ [newline])))"
      using ports.stops_kpanic [of port q "''APIC: apic is disabled''"] unfolding stops_def apic_ready_def by blast
    then have off: "?st (if bit v 11 then printf enabled [] else kpanic ''APIC: apic is disabled'') (Kpanic ''APIC: apic is disabled'')
        (?sh (STR_of (''KPANIC: '' @ ''APIC: apic is disabled'' @ [newline])))"
      using False by simp
    have shape: "?sh (apic_report v offset) = [] @ ?sh (if bit v 8 then STR_of bootstrap else [])
        @ ?sh (STR_of (''KPANIC: '' @ ''APIC: apic is disabled'' @ [newline]))"
      using False by (simp add: apic_report_def on_port_append bootstrap_def)
    have "?st apic_rest (Kpanic ''APIC: apic is disabled'') (?sh (apic_report v offset))"
      unfolding shape rest by (rule stops_bind [OF apic_reads(1)], rule stops_bind [OF boot], rule stops_left [OF off])
    from stops_run [OF this ready] False show ?thesis by (simp add: serial_text_def)
  qed
qed

lemma port_log_inj: "s\<lparr> port_log := l \<rparr> = s\<lparr> port_log := l' \<rparr> \<Longrightarrow> l = l'"
proof -
  assume "s\<lparr> port_log := l \<rparr> = s\<lparr> port_log := l' \<rparr>"
  then have "port_log (s\<lparr> port_log := l \<rparr>) = port_log (s\<lparr> port_log := l' \<rparr>)" by simp
  then show "l = l'" by simp
qed

text \<open>The commands each controller receives.\<close>

definition pic_commands :: "U16 \<Rightarrow> U8 list" where
  "pic_commands q = (if q = 0x20 \<or> q = 0xA0 then [0x11] else if q = 0x21 then [0x20, 0x4, 0x1, 0xFF] else if q = 0xA1 then [0x28, 0x2, 0x1, 0xFF] else [])"



end
