(* ===== verification/Kernel_Paging.thy ===== *)
theory Kernel_Paging
  imports Kernel_Apic Physical_Allocator
begin

text \<open>
  \<^verbatim>\<open>kernel/src/system/system_paging.c\<close>: the lists of physical allocators, page table entries, mapping, cloning of a page table, and the setup
  from the memory map of the boot loader.

  The allocators (\<^verbatim>\<open>System_Physical_Allocator\<close> structs, each at the start of its range) are a store of records by address, apart from
  the bytes of memory: \<^verbatim>\<open>system_pa_init\<close> reads the bytes it does not zero, and afterwards the struct and its arrays are a record of the store. A pointer that is not in it, NULL among them, cannot be dereferenced. The sentinel of the lists and the local
  \<^verbatim>\<open>base\<close> of \<^verbatim>\<open>system_paging_setup\<close> are records of the store too. Page tables are bytes of memory, reached through the higher half direct map: the
  page at physical address \<open>p\<close> is at \<open>p\<close> plus the offset of the map. Walks along a list get \<open>list_limit\<close> steps.
\<close>

section \<open>State\<close>

record paging = kernel +
  allocators :: "ptr \<Rightarrow> System_Physical_Allocator option"
  list_limit :: nat
  pa_sentinel :: ptr
  setup_base :: ptr
  pg_first :: ptr
  pg_first_16mb :: ptr
  pg_first_4gb :: ptr
  pg_last :: ptr
  pg_last_16mb :: ptr
  pg_last_4gb :: ptr
  pg_first_non_16mb :: ptr

definition pa_load :: "ptr \<Rightarrow> ('s paging_scheme, System_Physical_Allocator) krun" where
  "pa_load a =
     kbind (kget (\<lambda>s. allocators s a)) (\<lambda>r.
     case r of None \<Rightarrow> kstop (Fault ''System_Physical_Allocator pointer'') | Some pa \<Rightarrow> kret pa)"

definition pa_store :: "ptr \<Rightarrow> System_Physical_Allocator \<Rightarrow> ('s paging_scheme, unit) krun" where
  "pa_store a pa = kmodify (\<lambda>s. s\<lparr> allocators := (allocators s)(a := Some pa) \<rparr>)"

text \<open>An assignment to a field through a pointer.\<close>

definition pa_modify :: "ptr \<Rightarrow> (System_Physical_Allocator \<Rightarrow> System_Physical_Allocator) \<Rightarrow> ('s paging_scheme, unit) krun" where
  "pa_modify a f = kbind (pa_load a) (\<lambda>pa. pa_store a (f pa))"

section \<open>The lists of allocators\<close>

datatype System_Physical_Page_Kind = SYSTEM_PHYSICAL_PAGE_NORMAL | SYSTEM_PHYSICAL_PAGE_16MB | SYSTEM_PHYSICAL_PAGE_4GB

definition system_paging_pa_is_sentinel :: "ptr \<Rightarrow> ('s paging_scheme, bool) krun" where
  "system_paging_pa_is_sentinel a = kbind (pa_load a) (\<lambda>pa. kret (a = pa_next pa))"

text \<open>The three loops of \<^verbatim>\<open>system_paging_physical_alloc\<close>, which differ in the link they follow.\<close>

fun physical_alloc_loop ::
    "nat \<Rightarrow> (System_Physical_Allocator \<Rightarrow> ptr) \<Rightarrow> ptr \<Rightarrow> ('s paging_scheme, Uintptr option) krun" where
  "physical_alloc_loop 0 link current = kstop Out_Of_Fuel"
| "physical_alloc_loop (Suc n) link current =
     kbind (system_paging_pa_is_sentinel current) (\<lambda>sentinel.
     if sentinel then kret None
     else
       kbind (pa_load current) (\<lambda>pa.
       kbind (klift (system_pa_alloc pa)) (\<lambda>(address, ok, pa).
       kbind (pa_store current pa) (\<lambda>_.
       if ok then kret (Some address)
       else kbind (pa_load current) (\<lambda>pa. physical_alloc_loop n link (link pa))))))"

text \<open>The address and the value stored through \<^verbatim>\<open>ok\<close>; the assertion that \<^verbatim>\<open>ok\<close> is not NULL holds at every call.\<close>

definition system_paging_physical_alloc :: "System_Physical_Page_Kind \<Rightarrow> ('s paging_scheme, Uintptr \<times> bool) krun" where
  "system_paging_physical_alloc kind =
     kbind (kget (\<lambda>s. (list_limit s, pg_first_non_16mb s, pg_first_16mb s, pg_first_4gb s))) (\<lambda>(limit, first_non_16mb, first_16mb, first_4gb).
     let found = (\<lambda>r otherwise. case r of Some address \<Rightarrow> kret (address, True) | None \<Rightarrow> otherwise);
         low = kbind (physical_alloc_loop limit pa_next_16mb first_16mb) (\<lambda>r. found r (kret (0, False)))
     in case kind of
          SYSTEM_PHYSICAL_PAGE_NORMAL \<Rightarrow> kbind (physical_alloc_loop limit pa_next first_non_16mb) (\<lambda>r. found r low)
        | SYSTEM_PHYSICAL_PAGE_16MB \<Rightarrow> low
        | SYSTEM_PHYSICAL_PAGE_4GB \<Rightarrow> kbind (physical_alloc_loop limit pa_next_4gb first_4gb) (\<lambda>r. found r (kret (0, False))))"

text \<open>\<^verbatim>\<open>system_pa_free\<close> with its prints: \<open>system_pa_free\<close> of the allocator theory, whose output is a value, step by step on the console.\<close>

definition system_pa_free_print :: "ptr \<Rightarrow> Uintptr \<Rightarrow> ('s paging_scheme, unit) krun" where
  "system_pa_free_print current address =
     kbind (pa_load current) (\<lambda>pa.
     kbind (printf ''1'' []) (\<lambda>_.
     kbind (klift (system_pa_is_free pa address)) (\<lambda>free.
     kbind (klift (kassert (\<not> free) ''!system_pa_is_free(pa, address)'')) (\<lambda>_.
     kbind (printf ''2'' []) (\<lambda>_.
     kbind (klift (kassert (stack_top pa + 1 < pa_size pa) ''pa->stack_top+1 <  pa->size'')) (\<lambda>_.
     kbind (printf ''3'' []) (\<lambda>_.
     kbind (klift (kassert (stack_top pa \<ge> -1) ''pa->stack_top   >= -1'')) (\<lambda>_.
     kbind (printf ''4'' []) (\<lambda>_.
     kbind (klift (system_pa_free pa address [])) (\<lambda>(pa, _).
     pa_store current pa))))))))))"

fun physical_free_loop :: "nat \<Rightarrow> Uintptr \<Rightarrow> ptr \<Rightarrow> ('s paging_scheme, bool) krun" where
  "physical_free_loop 0 address current = kstop Out_Of_Fuel"
| "physical_free_loop (Suc n) address current =
     kbind (system_paging_pa_is_sentinel current) (\<lambda>sentinel.
     if sentinel then kret False
     else
       kbind (pa_load current) (\<lambda>pa.
       if system_pa_in_range pa address then kbind (system_pa_free_print current address) (\<lambda>_. kret True)
       else physical_free_loop n address (pa_next pa)))"

definition system_paging_physical_free :: "Uintptr \<Rightarrow> ('s paging_scheme, unit) krun" where
  "system_paging_physical_free address =
     kbind (kget (\<lambda>s. (list_limit s, pg_first s))) (\<lambda>(limit, first).
     kbind (physical_free_loop limit address first) (\<lambda>freed.
     if freed then kret ()
     else kbind (printf (''PAGING: could not free physical address at %p'' @ [newline]) [Va_Word address]) (\<lambda>_.
          kpanic ''PAGING: invalid physical page free'')))"

section \<open>Page table entries\<close>

definition SYSTEM_PAGING_AMD64_FLAG_P :: U64 where "SYSTEM_PAGING_AMD64_FLAG_P = BIT 0"
definition SYSTEM_PAGING_AMD64_FLAG_RW :: U64 where "SYSTEM_PAGING_AMD64_FLAG_RW = BIT 1"
definition SYSTEM_PAGING_AMD64_FLAG_US :: U64 where "SYSTEM_PAGING_AMD64_FLAG_US = BIT 2"
definition SYSTEM_PAGING_AMD64_FLAG_PS :: U64 where "SYSTEM_PAGING_AMD64_FLAG_PS = BIT 7"
definition SYSTEM_PAGING_AMD64_FLAG_XD :: U64 where "SYSTEM_PAGING_AMD64_FLAG_XD = BIT 63"
definition SYSTEM_PAGING_AMD64_FLAG_ADDRESS :: U64 where
  "SYSTEM_PAGING_AMD64_FLAG_ADDRESS = (push_bit 48 1 - 1) AND NOT (push_bit 12 1 - 1)"

definition system_paging_pml4_entry :: "ptr \<Rightarrow> ptr \<Rightarrow> U64 \<Rightarrow> ('s paging_scheme, unit) krun" where
  "system_paging_pml4_entry target target_address flags =
     kbind (klift (kassert (flags AND SYSTEM_PAGING_AMD64_FLAG_PS = 0) ''!(flags & SYSTEM_PAGING_AMD64_FLAG_PS)'')) (\<lambda>_.
     poke64 target ((target_address AND SYSTEM_PAGING_AMD64_FLAG_ADDRESS) OR flags))"

definition system_paging_pdpt_entry :: "ptr \<Rightarrow> ptr \<Rightarrow> U64 \<Rightarrow> ('s paging_scheme, unit) krun" where
  "system_paging_pdpt_entry target target_address flags =
     poke64 target ((target_address AND SYSTEM_PAGING_AMD64_FLAG_ADDRESS) OR flags)"

definition system_paging_pd_entry :: "ptr \<Rightarrow> ptr \<Rightarrow> U64 \<Rightarrow> ('s paging_scheme, unit) krun" where
  "system_paging_pd_entry target target_address flags =
     poke64 target ((target_address AND SYSTEM_PAGING_AMD64_FLAG_ADDRESS) OR flags)"

definition system_paging_pt_entry :: "ptr \<Rightarrow> ptr \<Rightarrow> U64 \<Rightarrow> ('s paging_scheme, unit) krun" where
  "system_paging_pt_entry target target_address flags =
     poke64 target ((target_address AND SYSTEM_PAGING_AMD64_FLAG_ADDRESS) OR flags)"

definition SYSTEM_PAGING_FLAG_WRITE :: U64 where "SYSTEM_PAGING_FLAG_WRITE = BIT 0"
definition SYSTEM_PAGING_FLAG_EXEC :: U64 where "SYSTEM_PAGING_FLAG_EXEC = BIT 1"
definition SYSTEM_PAGING_FLAG_USER :: U64 where "SYSTEM_PAGING_FLAG_USER = BIT 2"

definition system_paging_amd64_flag_convert :: "U64 \<Rightarrow> U64" where
  "system_paging_amd64_flag_convert flags =
     (let v = 0 :: U64;
          v = (if flags AND SYSTEM_PAGING_FLAG_WRITE \<noteq> 0 then v OR SYSTEM_PAGING_AMD64_FLAG_RW else v);
          v = (if flags AND SYSTEM_PAGING_FLAG_USER \<noteq> 0 then v OR SYSTEM_PAGING_AMD64_FLAG_US else v)
      in if \<not> (flags AND SYSTEM_PAGING_FLAG_EXEC \<noteq> 0) then v OR SYSTEM_PAGING_AMD64_FLAG_XD else v)"

definition memset_run :: "ptr \<Rightarrow> int \<Rightarrow> U64 \<Rightarrow> ('s machine_scheme, unit) krun" where
  "memset_run a c n = kmodify (\<lambda>s. s\<lparr> memory := snd (memset (memory s) a c n) \<rparr>)"

definition memcpy_run :: "ptr \<Rightarrow> ptr \<Rightarrow> U64 \<Rightarrow> ('s machine_scheme, unit) krun" where
  "memcpy_run dest src n = kmodify (\<lambda>s. s\<lparr> memory := snd (memcpy (memory s) dest src n) \<rparr>)"

definition system_paging_entry_new_physical :: "U64 \<Rightarrow> ('s paging_scheme, Uintptr) krun" where
  "system_paging_entry_new_physical offset =
     kbind (system_paging_physical_alloc SYSTEM_PHYSICAL_PAGE_NORMAL) (\<lambda>(new_address, ok).
     kbind (if \<not> ok then kpanic ''PAGING: could not allocate physical page for page mapping'' else kret ()) (\<lambda>_.
     kbind (memset_run (new_address + offset) 0 (word_of_int SYSTEM_PAGE_SIZE)) (\<lambda>_.
     kret new_address)))"

definition SYSTEM_PAGING_ASSERT_ADDRESS_ALIGNED :: "string \<Rightarrow> U64 \<Rightarrow> ('s paging_scheme, unit) krun" where
  "SYSTEM_PAGING_ASSERT_ADDRESS_ALIGNED name variable =
     klift (kassert (variable AND (word_of_int SYSTEM_PAGE_SIZE - 1) = 0) (''(('' @ name @ '') & (SYSTEM_PAGE_SIZE - 1)) == 0''))"

text \<open>One level of the walk: the entry is filled in when it is not present, and the table it points to is returned.\<close>

definition paging_level ::
    "(ptr \<Rightarrow> ptr \<Rightarrow> U64 \<Rightarrow> ('s paging_scheme, unit) krun) \<Rightarrow> U64 \<Rightarrow> ptr \<Rightarrow> ('s paging_scheme, ptr) krun" where
  "paging_level set_entry offset entry =
     kbind (peek64 entry) (\<lambda>e.
     kbind (if \<not> (e AND SYSTEM_PAGING_AMD64_FLAG_P \<noteq> 0) then
              kbind (system_paging_entry_new_physical offset) (\<lambda>new_address.
              set_entry entry new_address (SYSTEM_PAGING_AMD64_FLAG_P OR SYSTEM_PAGING_AMD64_FLAG_RW))
            else kret ()) (\<lambda>_.
     kbind (peek64 entry) (\<lambda>e.
     kret ((e AND SYSTEM_PAGING_AMD64_FLAG_ADDRESS) + offset))))"

text \<open>The slot of a table for the address, from bit \<open>n\<close> on.\<close>

definition paging_slot :: "ptr \<Rightarrow> nat \<Rightarrow> U64 \<Rightarrow> ptr" where
  "paging_slot table n virtual_address = table + 8 * (drop_bit n virtual_address AND (push_bit 9 1 - 1))"

definition system_paging_entry :: "ptr \<Rightarrow> Uintptr \<Rightarrow> ('s paging_scheme, ptr) krun" where
  "system_paging_entry table virtual =
     kbind (SYSTEM_PAGING_ASSERT_ADDRESS_ALIGNED ''virtual'' virtual) (\<lambda>_.
     kbind (klift (kassert (table \<noteq> 0) ''table'')) (\<lambda>_.
     kbind hhdm_offset (\<lambda>offset.
     kbind (paging_level system_paging_pml4_entry offset (paging_slot table 39 virtual)) (\<lambda>pdpt.
     kbind (paging_level system_paging_pdpt_entry offset (paging_slot pdpt 30 virtual)) (\<lambda>pd.
     kbind (paging_level system_paging_pd_entry offset (paging_slot pd 21 virtual)) (\<lambda>pt.
     kret (paging_slot pt 12 virtual)))))))"

definition system_paging_map :: "ptr \<Rightarrow> Uintptr \<Rightarrow> Uintptr \<Rightarrow> U64 \<Rightarrow> ('s paging_scheme, unit) krun" where
  "system_paging_map table physical virtual flags =
     kbind (SYSTEM_PAGING_ASSERT_ADDRESS_ALIGNED ''virtual'' virtual) (\<lambda>_.
     kbind (SYSTEM_PAGING_ASSERT_ADDRESS_ALIGNED ''physical'' physical) (\<lambda>_.
     let converted_flags = system_paging_amd64_flag_convert flags in
     kbind (system_paging_entry table virtual) (\<lambda>pt_entry.
     kbind (system_paging_pt_entry pt_entry physical (converted_flags OR SYSTEM_PAGING_AMD64_FLAG_P)) (\<lambda>_.
     asm_invlpg virtual))))"

definition system_paging_unmap :: "ptr \<Rightarrow> Uintptr \<Rightarrow> ('s paging_scheme, unit) krun" where
  "system_paging_unmap table virtual =
     kbind (SYSTEM_PAGING_ASSERT_ADDRESS_ALIGNED ''virtual'' virtual) (\<lambda>_.
     kbind (system_paging_entry table virtual) (\<lambda>pt_entry.
     kbind (poke64 pt_entry 0) (\<lambda>_.
     asm_invlpg virtual)))"

section \<open>Cloning a page table\<close>

record System_Paging_Address =
  physical_address :: Uintptr
  virtual_address :: Uintptr

definition system_paging_page_clone :: "ptr \<Rightarrow> U64 \<Rightarrow> ('s paging_scheme, System_Paging_Address) krun" where
  "system_paging_page_clone page offset =
     kbind (system_paging_physical_alloc SYSTEM_PHYSICAL_PAGE_NORMAL) (\<lambda>(physical, ok).
     let address = \<lparr> physical_address = physical, virtual_address = physical + offset \<rparr> in
     kbind (if \<not> ok then kpanic ''PAGING: could not allocate physical page for page mapping'' else kret ()) (\<lambda>_.
     kbind (memcpy_run (virtual_address address) page (word_of_int SYSTEM_PAGE_SIZE)) (\<lambda>_.
     kret address)))"

definition system_paging_table_entry_update_address :: "U64 \<Rightarrow> U64 \<Rightarrow> ('s paging_scheme, U64) krun" where
  "system_paging_table_entry_update_address entry new_address =
     kbind (SYSTEM_PAGING_ASSERT_ADDRESS_ALIGNED ''new_address'' new_address) (\<lambda>_.
     let zeroed = NOT SYSTEM_PAGING_AMD64_FLAG_ADDRESS;
         entry = entry AND zeroed
     in kret (entry OR (new_address AND SYSTEM_PAGING_AMD64_FLAG_ADDRESS)))"

definition system_paging_table_page_entry_clone :: "ptr \<Rightarrow> U64 \<Rightarrow> ('s paging_scheme, ptr) krun" where
  "system_paging_table_page_entry_clone entry offset =
     kbind (peek64 entry) (\<lambda>e.
     let old_physical_address = e AND SYSTEM_PAGING_AMD64_FLAG_ADDRESS; old = old_physical_address + offset in
     kbind (system_paging_page_clone old offset) (\<lambda>new_address.
     kbind (peek64 entry) (\<lambda>e.
     kbind (system_paging_table_entry_update_address e (physical_address new_address)) (\<lambda>e'.
     kbind (poke64 entry e') (\<lambda>_.
     kret (virtual_address new_address))))))"

text \<open>\<^verbatim>\<open>for (i = 0; i < n; i++)\<close>, the remaining rounds second.\<close>

fun kfor :: "nat \<Rightarrow> nat \<Rightarrow> (nat \<Rightarrow> ('s, unit) krun) \<Rightarrow> ('s, unit) krun" where
  "kfor i 0 body = kret ()"
| "kfor i (Suc k) body = kbind (body i) (\<lambda>_. kfor (Suc i) k body)"

definition system_paging_table_clone :: "ptr \<Rightarrow> ('s paging_scheme, System_Paging_Address) krun" where
  "system_paging_table_clone table =
     kbind hhdm_offset (\<lambda>offset.
     kbind (system_paging_page_clone table offset) (\<lambda>cloned_table_address.
     let entries_per_page = nat (SYSTEM_PAGE_SIZE sdiv size_of_U64); pml4 = virtual_address cloned_table_address in
     kbind (kfor 0 entries_per_page (\<lambda>i.
       kbind (peek64 (pml4 + 8 * of_nat i)) (\<lambda>e.
       if \<not> (e AND SYSTEM_PAGING_AMD64_FLAG_P \<noteq> 0) then kret ()
       else
         kbind (system_paging_table_page_entry_clone (pml4 + 8 * of_nat i) offset) (\<lambda>new_pdpt.
         kfor 0 entries_per_page (\<lambda>j.
           kbind (peek64 (new_pdpt + 8 * of_nat j)) (\<lambda>e.
           if \<not> (e AND SYSTEM_PAGING_AMD64_FLAG_P \<noteq> 0) then kret ()
           else if e AND SYSTEM_PAGING_AMD64_FLAG_PS \<noteq> 0 then kret ()
           else
             kbind (system_paging_table_page_entry_clone (new_pdpt + 8 * of_nat j) offset) (\<lambda>new_pd.
             kfor 0 entries_per_page (\<lambda>k.
               kbind (peek64 (new_pd + 8 * of_nat k)) (\<lambda>e.
               if \<not> (e AND SYSTEM_PAGING_AMD64_FLAG_P \<noteq> 0) then kret ()
               else if e AND SYSTEM_PAGING_AMD64_FLAG_PS \<noteq> 0 then kret ()
               else kbind (system_paging_table_page_entry_clone (new_pd + 8 * of_nat k) offset) (\<lambda>_. kret ())))))))))) (\<lambda>_.
     kret cloned_table_address)))"

section \<open>Setup\<close>

text \<open>The types of the memory map, in the order of the Limine protocol.\<close>

definition LIMINE_MEMMAP_USABLE :: U64 where "LIMINE_MEMMAP_USABLE = 0"

definition system_paging_memmap_string :: "string list" where
  "system_paging_memmap_string =
     [''USABLE'', ''RESERVED'', ''ACPI_RECLAIMABLE'', ''ACPI_NVS'', ''BAD_MEMORY'', ''BOOTLOADER_RECLAIMABLE'',
      ''EXECUTABLE_AND_MODULES'', ''FRAMEBUFFER'', ''RESERVED_MAPPED'']"

definition below :: "U64 \<Rightarrow> limine_memmap_entry \<Rightarrow> bool" where
  "below limit entry \<longleftrightarrow> entry_base entry < limit \<and> entry_base entry + entry_length entry < limit"

definition within :: "limine_memmap_entry \<Rightarrow> U64 \<Rightarrow> bool" where
  "within entry a \<longleftrightarrow> entry_base entry \<le> a \<and> a < entry_base entry + entry_length entry"

text \<open>The local variables of the loop.\<close>

record setup_locals =
  loc_last :: ptr
  loc_last_16mb :: ptr
  loc_last_4gb :: ptr
  loc_first_non_16mb :: ptr

text \<open>\<^verbatim>\<open>SL_APPEND_BASE\<close> for one of the three links: the last element gets the new one as its successor.\<close>

definition SL_APPEND_BASE ::
    "ptr \<Rightarrow> ((ptr \<Rightarrow> ptr) \<Rightarrow> System_Physical_Allocator \<Rightarrow> System_Physical_Allocator) \<Rightarrow> ptr \<Rightarrow> ('s paging_scheme, ptr) krun" where
  "SL_APPEND_BASE last_element link_update current =
     kbind (pa_modify last_element (link_update (\<lambda>_. current))) (\<lambda>_. kret current)"

text \<open>A usable entry; \<open>None\<close> is the \<^verbatim>\<open>continue\<close> for an entry that is too small.\<close>

definition system_paging_usable ::
    "limine_memmap_entry \<Rightarrow> U64 \<Rightarrow> setup_locals \<Rightarrow> ('s paging_scheme, setup_locals option) krun" where
  "system_paging_usable entry offset loc =
     (if entry_length entry \<le> word_of_int SYSTEM_PAGE_SIZE then
        kbind (printf (''MEMMAP:  -> skipping to small memory area'' @ [newline]) []) (\<lambda>_. kret None)
      else
        kbind (klift (system_pa_calculate_required_size (sint (entry_length entry) sdiv SYSTEM_PAGE_SIZE))) (\<lambda>required_length.
        let required_pages = required_length sdiv SYSTEM_PAGE_SIZE + 1 in
        kbind (klift (kassert (entry_length entry \<ge> word_of_int required_length) ''entry->length >= (U64)required_length'')) (\<lambda>_.
        let current = entry_base entry + offset in
        kbind (kget memory) (\<lambda>m.
        kbind (klift (system_pa_init (\<lambda>k. m (current + of_nat k)) (entry_base entry) required_pages
          (uint (entry_length entry div word_of_int SYSTEM_PAGE_SIZE)))) (\<lambda>pa.
        kbind (pa_store current pa) (\<lambda>_.
        kbind (kget pa_sentinel) (\<lambda>sentinel.
        kbind (pa_modify current (\<lambda>pa. pa\<lparr> pa_next := sentinel, pa_next_16mb := sentinel, pa_next_4gb := sentinel \<rparr>)) (\<lambda>_.
        kbind (SL_APPEND_BASE (loc_last loc) pa_next_update current) (\<lambda>l.
        let loc = loc\<lparr> loc_last := l \<rparr> in
        kbind (if below (MB 16) entry then
                 kbind (SL_APPEND_BASE (loc_last_16mb loc) pa_next_16mb_update current) (\<lambda>l. kret (loc\<lparr> loc_last_16mb := l \<rparr>))
               else
                 kbind (system_paging_pa_is_sentinel (loc_first_non_16mb loc)) (\<lambda>none_yet.
                 kret (if none_yet then loc\<lparr> loc_first_non_16mb := current \<rparr> else loc))) (\<lambda>loc.
        kbind (if below (GB 4) entry then
                 kbind (SL_APPEND_BASE (loc_last_4gb loc) pa_next_4gb_update current) (\<lambda>l. kret (loc\<lparr> loc_last_4gb := l \<rparr>))
               else kret loc) (\<lambda>loc.
        kbind (pa_load current) (\<lambda>pa.
        kbind (printf (''MEMMAP:  -> initialized physical allocator with size %i'' @ [newline]) [Va_Word (word_of_int (pa_size pa))]) (\<lambda>_.
        kret (Some loc))))))))))))))"

text \<open>The end of the loop body, which only prints.\<close>

definition system_paging_report :: "limine_memmap_entry \<Rightarrow> U64 \<Rightarrow> U64 \<Rightarrow> ('s paging_scheme, unit) krun" where
  "system_paging_report entry physical_stack_top top_of_stack =
     kbind (if below (MB 16) entry then printf (''MEMMAP:  -> 16 MB Zone'' @ [newline]) [] else kret ()) (\<lambda>_.
     kbind (if below (GB 4) entry then printf (''MEMMAP:  -> 4 GB Zone'' @ [newline]) [] else kret ()) (\<lambda>_.
     kbind (kget exe_addr_response) (\<lambda>r.
     case r of
       None \<Rightarrow> kstop (Fault ''system_paging_exe_addr_request.response'')
     | Some (physical_base, virtual_base) \<Rightarrow>
         kbind (if within entry physical_base
                then printf (''MEMMAP:  -> executable located here %xU -> %xU'' @ [newline]) [Va_Word physical_base, Va_Word virtual_base]
                else kret ()) (\<lambda>_.
         if within entry physical_stack_top
         then printf (''MEMMAP:  -> stack located here %xU -> %xU'' @ [newline]) [Va_Word physical_stack_top, Va_Word top_of_stack]
         else kret ()))))"

fun system_paging_memmap_loop ::
    "limine_memmap_entry list \<Rightarrow> U64 \<Rightarrow> U64 \<Rightarrow> setup_locals \<Rightarrow> ('s paging_scheme, setup_locals) krun" where
  "system_paging_memmap_loop [] offset top_of_stack loc = kret loc"
| "system_paging_memmap_loop (entry # entries) offset top_of_stack loc =
     kbind (klift (array_get system_paging_memmap_string (uint (entry_type entry)))) (\<lambda>name.
     kbind (printf (''MEMMAP: %xU-%xU(%xU) - %s'' @ [newline])
       [Va_Word (entry_base entry), Va_Word (entry_base entry + entry_length entry), Va_Word (entry_length entry), Va_String (STR_of name)]) (\<lambda>_.
     kbind (if entry_type entry = LIMINE_MEMMAP_USABLE then system_paging_usable entry offset loc else kret (Some loc)) (\<lambda>r.
     case r of
       None \<Rightarrow> system_paging_memmap_loop entries offset top_of_stack loc
     | Some loc \<Rightarrow>
         kbind (system_paging_report entry (top_of_stack - offset) top_of_stack) (\<lambda>_.
         system_paging_memmap_loop entries offset top_of_stack loc))))"

definition pa_zero :: System_Physical_Allocator where
  "pa_zero = \<lparr> pa_next = 0, pa_next_16mb = 0, pa_next_4gb = 0, pa_size = 0, stack_top = 0, pages_bitmap = [], pages_stack = [], address_base = 0 \<rparr>"

text \<open>The lists: everything in \<^verbatim>\<open>system_paging_setup\<close> before the page table is replaced.\<close>

definition system_paging_setup_lists :: "U64 \<Rightarrow> ('s paging_scheme, unit) krun" where
  "system_paging_setup_lists top_of_stack =
     kbind (kget memmap_response) (\<lambda>r.
     case r of
       None \<Rightarrow> klift (kassert False ''system_paging_memmap_request.response != NULL'')
     | Some entries \<Rightarrow>
         kbind (kget (\<lambda>s. (setup_base s, pa_sentinel s))) (\<lambda>(base, sentinel).
         kbind (pa_store base pa_zero) (\<lambda>_.
         kbind (pa_modify sentinel (\<lambda>pa. pa\<lparr> pa_next := sentinel, pa_next_16mb := sentinel, pa_next_4gb := sentinel \<rparr>)) (\<lambda>_.
         kbind hhdm_offset (\<lambda>offset.
         kbind (system_paging_memmap_loop entries offset top_of_stack
           \<lparr> loc_last = base, loc_last_16mb = base, loc_last_4gb = base, loc_first_non_16mb = sentinel \<rparr>) (\<lambda>loc.
         kbind (pa_load base) (\<lambda>b.
         kmodify (\<lambda>s. s\<lparr> pg_first := pa_next b, pg_first_16mb := pa_next_16mb b, pg_first_4gb := pa_next_4gb b,
           pg_last := loc_last loc, pg_last_16mb := loc_last_16mb loc, pg_last_4gb := loc_last_4gb loc,
           pg_first_non_16mb := loc_first_non_16mb loc \<rparr>))))))))"

definition system_paging_setup :: "U64 \<Rightarrow> ('s paging_scheme, unit) krun" where
  "system_paging_setup top_of_stack =
     kbind (system_paging_setup_lists top_of_stack) (\<lambda>_.
     kbind (printf (''PAGING: replacing page table'' @ [newline]) []) (\<lambda>_.
     kbind hhdm_offset (\<lambda>offset.
     kbind asm_cr3_read (\<lambda>v.
     kbind (system_paging_table_clone ((v AND SYSTEM_PAGING_AMD64_FLAG_ADDRESS) + offset)) (\<lambda>table.
     kbind (asm_cr3_write (physical_address table)) (\<lambda>_.
     printf (''PAGING: replaced page table'' @ [newline]) []))))))"

end
