(* ===== verification/Kernel_Walk.thy ===== *)
theory Kernel_Walk
  imports Kernel_Paging
begin

text \<open>
  What the processor reads in a page table, as the specification for \<^verbatim>\<open>kernel/src/system/system_paging.c\<close>. A table is a physical page of
  512 entries; \<open>E p i\<close> is entry \<open>i\<close> of the page \<open>p\<close>. \<open>mmu_walk\<close> is the walk of the four-level AMD64 format, with large pages and
  the access rights combined over the levels. The lemmas say what a new table and what a new last-level entry change in
  a tree of tables in which no table is reached by two paths.
\<close>

section \<open>Entries and walks\<close>

type_synonym index = "9 word"
type_synonym entries = "U64 \<Rightarrow> index \<Rightarrow> U64"

definition present :: "U64 \<Rightarrow> bool" where
  "present e \<longleftrightarrow> e AND SYSTEM_PAGING_AMD64_FLAG_P \<noteq> 0"

definition large :: "U64 \<Rightarrow> bool" where
  "large e \<longleftrightarrow> e AND SYSTEM_PAGING_AMD64_FLAG_PS \<noteq> 0"

definition page_of :: "U64 \<Rightarrow> U64" where
  "page_of e = e AND SYSTEM_PAGING_AMD64_FLAG_ADDRESS"

text \<open>The physical pages that an entry can name.\<close>

definition frame :: "U64 \<Rightarrow> bool" where
  "frame p \<longleftrightarrow> page_of p = p"

record access =
  writable :: bool
  user :: bool
  executable :: bool

definition access_of :: "U64 \<Rightarrow> access" where
  "access_of e = \<lparr> writable = e AND SYSTEM_PAGING_AMD64_FLAG_RW \<noteq> 0, user = e AND SYSTEM_PAGING_AMD64_FLAG_US \<noteq> 0,
     executable = (e AND SYSTEM_PAGING_AMD64_FLAG_XD = 0) \<rparr>"

definition access_and :: "access \<Rightarrow> access \<Rightarrow> access" where
  "access_and a b = \<lparr> writable = writable a \<and> writable b, user = user a \<and> user b, executable = executable a \<and> executable b \<rparr>"

text \<open>The page, the number of levels below the entry (0 for a page of 4 KiB) and the rights. A large page in the first level is reserved.\<close>

fun mmu_walk :: "entries \<Rightarrow> U64 \<Rightarrow> index list \<Rightarrow> (U64 \<times> nat \<times> access) option" where
  "mmu_walk E p [] = None"
| "mmu_walk E p (i # path) =
     (let e = E p i in
      if \<not> present e then None
      else if path = [] then Some (page_of e, 0, access_of e)
      else if large e then (if length path < 3 then Some (page_of e, length path, access_of e) else None)
      else case mmu_walk E (page_of e) path of
             None \<Rightarrow> None
           | Some (a, n, r) \<Rightarrow> Some (a, n, access_and (access_of e) r))"

definition path_of :: "U64 \<Rightarrow> index list" where
  "path_of va = [ucast (drop_bit 39 va), ucast (drop_bit 30 va), ucast (drop_bit 21 va), ucast (drop_bit 12 va)]"

definition mmu_translate :: "entries \<Rightarrow> U64 \<Rightarrow> U64 \<Rightarrow> (U64 \<times> access) option" where
  "mmu_translate E root va =
     (case mmu_walk E root (path_of va) of
        None \<Rightarrow> None
      | Some (a, n, r) \<Rightarrow> Some ((a AND NOT (push_bit (12 + 9 * n) 1 - 1)) OR take_bit (12 + 9 * n) va, r))"

definition in_large_page :: "entries \<Rightarrow> U64 \<Rightarrow> U64 \<Rightarrow> bool" where
  "in_large_page E root va \<longleftrightarrow> (case mmu_walk E root (path_of va) of None \<Rightarrow> False | Some (a, n, r) \<Rightarrow> n \<noteq> 0)"

text \<open>
  The rights that the tables along a path give to a page below them when a table that is missing is created: a new table
  is writable and executable, without user access, and so is everything below it.
\<close>

definition new_table_rights :: access where
  "new_table_rights = \<lparr> writable = True, user = False, executable = True \<rparr>"

fun table_rights :: "entries \<Rightarrow> U64 \<Rightarrow> index list \<Rightarrow> access" where
  "table_rights E p [] = \<lparr> writable = True, user = True, executable = True \<rparr>"
| "table_rights E p (i # path) =
     (let e = E p i in
      if \<not> present e then new_table_rights
      else if large e then access_of e
      else access_and (access_of e) (table_rights E (page_of e) path))"

section \<open>Trees of tables\<close>

definition next_table :: "entries \<Rightarrow> U64 \<Rightarrow> index \<Rightarrow> U64 option" where
  "next_table E p i = (if present (E p i) \<and> \<not> large (E p i) then Some (page_of (E p i)) else None)"

fun table_at :: "entries \<Rightarrow> U64 \<Rightarrow> index list \<Rightarrow> U64 option" where
  "table_at E p [] = Some p"
| "table_at E p (i # path) = Option.bind (next_table E p i) (\<lambda>q. table_at E q path)"

lemma table_at_append: "table_at E p (xs @ ys) = Option.bind (table_at E p xs) (\<lambda>q. table_at E q ys)"
  by (induction xs arbitrary: p) (simp_all split: Option.bind_split)

lemma table_at_snoc [simp]: "table_at E p (xs @ [i]) = Option.bind (table_at E p xs) (\<lambda>q. next_table E q i)"
  by (simp add: table_at_append)

lemma next_table_frame: "next_table E p i = Some q \<Longrightarrow> frame q"
  by (auto simp: next_table_def frame_def page_of_def and.assoc split: if_splits)

lemma table_at_frame: "table_at E root path = Some p \<Longrightarrow> frame root \<Longrightarrow> frame p"
  by (cases path rule: rev_cases) (auto simp: bind_eq_Some_conv dest: next_table_frame)

text \<open>No table is reached by two paths, and the reserved bit of the first level is clear.\<close>

definition unshared :: "entries \<Rightarrow> U64 \<Rightarrow> bool" where
  "unshared E root \<longleftrightarrow> frame root \<and> (\<forall>i. \<not> large (E root i)) \<and>
     (\<forall>xs ys p. length xs \<le> 3 \<longrightarrow> length ys \<le> 3 \<longrightarrow> table_at E root xs = Some p \<longrightarrow> table_at E root ys = Some p \<longrightarrow> xs = ys)"

lemma unsharedD:
  "unshared E root \<Longrightarrow> table_at E root xs = Some p \<Longrightarrow> table_at E root ys = Some p \<Longrightarrow> length xs \<le> 3 \<Longrightarrow> length ys \<le> 3 \<Longrightarrow> xs = ys"
  unfolding unshared_def by blast

definition tables :: "entries \<Rightarrow> U64 \<Rightarrow> U64 set" where
  "tables E root = {p. \<exists>xs. length xs \<le> 3 \<and> table_at E root xs = Some p}"

lemma tablesI: "table_at E root xs = Some p \<Longrightarrow> length xs \<le> 3 \<Longrightarrow> p \<in> tables E root"
  unfolding tables_def by blast

lemma finite_tables: "finite (tables E root)"
proof (rule finite_subset)
  show "tables E root \<subseteq> (\<lambda>xs. the (table_at E root xs)) ` {xs. set xs \<subseteq> UNIV \<and> length xs \<le> 3}"
    unfolding tables_def by force
  show "finite ((\<lambda>xs. the (table_at E root xs)) ` {xs :: index list. set xs \<subseteq> UNIV \<and> length xs \<le> 3})"
    by (intro finite_imageI finite_lists_length_le) simp
qed

text \<open>Only the entries that the walk reads matter.\<close>

lemma mmu_walk_cong:
  assumes "\<And>ys i zs p. path = ys @ i # zs \<Longrightarrow> table_at E root ys = Some p \<Longrightarrow> E' p i = E p i"
  shows "mmu_walk E' root path = mmu_walk E root path"
  using assms
proof (induction path arbitrary: root)
  case (Cons i path)
  have e: "E' root i = E root i" using Cons.prems [of "[]" i path root] by simp
  have "mmu_walk E' (page_of (E root i)) path = mmu_walk E (page_of (E root i)) path" if "present (E root i)" "\<not> large (E root i)"
  proof (rule Cons.IH)
    fix ys j zs p assume "path = ys @ j # zs" "table_at E (page_of (E root i)) ys = Some p"
    then show "E' p j = E p j" using Cons.prems [of "i # ys" j zs p] that by (simp add: next_table_def)
  qed
  then show ?case unfolding mmu_walk.simps e Let_def by (simp cong: if_cong)
qed simp

lemma frame_page_of [simp]: "frame (page_of e)"
  by (simp add: frame_def page_of_def and.assoc)

lemma agree:
  assumes "\<And>r j. frame r \<Longrightarrow> E' r j = E r j"
  shows table_at_agree: "frame root \<Longrightarrow> table_at E' root path = table_at E root path"
    and walk_agree: "frame root \<Longrightarrow> mmu_walk E' root path = mmu_walk E root path"
    and rights_agree: "frame root \<Longrightarrow> table_rights E' root path = table_rights E root path"
proof -
  have nt: "frame r \<Longrightarrow> next_table E' r j = next_table E r j" for r j using assms by (simp add: next_table_def)
  show "frame root \<Longrightarrow> table_at E' root path = table_at E root path"
  proof (induction path arbitrary: root)
    case (Cons i path)
    then show ?case by (simp add: nt) (auto split: Option.bind_split dest: next_table_frame)
  qed simp
  show "frame root \<Longrightarrow> mmu_walk E' root path = mmu_walk E root path"
  proof (induction path arbitrary: root)
    case (Cons i path)
    then show ?case using assms by (simp add: Let_def)
  qed simp
  show "frame root \<Longrightarrow> table_rights E' root path = table_rights E root path"
  proof (induction path arbitrary: root)
    case (Cons i path)
    then show ?case using assms by (simp add: Let_def)
  qed simp
qed

lemma agree_tree:
  assumes "\<And>r j. frame r \<Longrightarrow> E' r j = E r j"
  shows tables_agree: "frame root \<Longrightarrow> tables E' root = tables E root"
    and unshared_agree: "frame root \<Longrightarrow> unshared E' root = unshared E root"
  using table_at_agree [of E' E, OF assms] assms by (simp_all add: tables_def unshared_def)

section \<open>A new table\<close>

text \<open>The page \<open>q\<close> is zeroed and entry \<open>i\<close> of the table at \<open>path\<close> points to it.\<close>

definition with_table :: "entries \<Rightarrow> U64 \<Rightarrow> index \<Rightarrow> U64 \<Rightarrow> U64 \<Rightarrow> entries" where
  "with_table E p i q e = (\<lambda>p' j. if p' = p \<and> j = i then e else if p' = q then 0 else E p' j)"

text \<open>What both stores rely on: where the table is in the tree, and that the entry of a new table points to a page outside it.\<close>

definition fresh_table :: "entries \<Rightarrow> U64 \<Rightarrow> index list \<Rightarrow> U64 \<Rightarrow> index \<Rightarrow> U64 \<Rightarrow> U64 \<Rightarrow> bool" where
  "fresh_table E root path p i q e \<longleftrightarrow>
     unshared E root \<and> table_at E root path = Some p \<and> length path < 3 \<and> \<not> present (E p i) \<and> q \<notin> tables E root
     \<and> present e \<and> \<not> large e \<and> page_of e = q"

lemma fresh_tableD:
  assumes "fresh_table E root path p i q e"
  shows "unshared E root" "table_at E root path = Some p" "length path < 3" "\<not> present (E p i)" "q \<notin> tables E root"
    "present e" "\<not> large e" "page_of e = q"
  using assms by (simp_all add: fresh_table_def)

lemma fresh_neq: "fresh_table E root path p i q e \<Longrightarrow> q \<noteq> p"
  using tablesI [of E root path p] by (auto simp: fresh_table_def)

lemma new_next:
  assumes "fresh_table E root path p i q e"
  shows "next_table (with_table E p i q e) q j = None"
  "next_table (with_table E p i q e) p i = Some q"
  "next_table E p i = None"
  "r \<noteq> q \<Longrightarrow> r \<noteq> p \<or> j \<noteq> i \<Longrightarrow> next_table (with_table E p i q e) r j = next_table E r j"
  using fresh_neq [OF assms] fresh_tableD [OF assms] by (auto simp: next_table_def with_table_def present_def)

lemma new_tables:
  assumes new: "fresh_table E root path p i q e"
  shows "length xs \<le> 3 \<Longrightarrow> table_at (with_table E p i q e) root xs = (if xs = path @ [i] then Some q else table_at E root xs)"
proof (induction xs rule: rev_induct)
  case Nil
  then show ?case by simp
next
  case (snoc j xs)
  then have IH: "table_at (with_table E p i q e) root xs = (if xs = path @ [i] then Some q else table_at E root xs)" by simp
  show ?case
  proof (cases "xs = path @ [i]")
    case True
    have "table_at E root (path @ [i]) = None" using fresh_tableD(2) [OF new] new_next(3) [OF new] by simp
    then have "table_at E root (xs @ [j]) = None" unfolding True by (subst table_at_snoc) simp
    moreover have "table_at (with_table E p i q e) root (xs @ [j]) = None"
      unfolding table_at_snoc IH using True new_next(1) [OF new] by simp
    moreover have "xs @ [j] \<noteq> path @ [i]" using True by simp
    ultimately show ?thesis by simp
  next
    case False
    show ?thesis
    proof (cases "table_at E root xs")
      case None
      then show ?thesis unfolding table_at_snoc IH using fresh_tableD(2) [OF new] False by auto
    next
      case (Some r)
      have "r \<noteq> q" using fresh_tableD(5) [OF new] tablesI [OF Some] snoc.prems by auto
      moreover have "r = p \<longleftrightarrow> xs = path" using unsharedD [OF fresh_tableD(1) [OF new] Some, of path] fresh_tableD(2,3) [OF new] Some snoc.prems by auto
      ultimately show ?thesis
        unfolding table_at_snoc IH using False Some new_next(2) [OF new] new_next(4) [OF new, of r j] by auto
    qed
  qed
qed

lemma new_tables_set:
  assumes new: "fresh_table E root path p i q e"
  shows "tables (with_table E p i q e) root = insert q (tables E root)"
proof (rule set_eqI, rule iffI)
  fix r
  have none: "table_at E root (path @ [i]) = None" using fresh_tableD(2) [OF new] new_next(3) [OF new] by simp
  show "r \<in> insert q (tables E root)" if r: "r \<in> tables (with_table E p i q e) root"
  proof -
    obtain xs where xs: "length xs \<le> 3" "table_at (with_table E p i q e) root xs = Some r"
      using r unfolding tables_def by blast
    then show ?thesis using new_tables [OF new xs(1)] tablesI [of E root xs r] by (auto split: if_splits)
  qed
  show "r \<in> tables (with_table E p i q e) root" if r: "r \<in> insert q (tables E root)"
  proof (cases "r = q")
    case True
    then show ?thesis using tablesI [of _ root "path @ [i]"] new_tables [OF new, of "path @ [i]"] fresh_tableD(3) [OF new] by simp
  next
    case False
    then obtain xs where xs: "length xs \<le> 3" "table_at E root xs = Some r" using r unfolding tables_def by blast
    moreover have "xs \<noteq> path @ [i]" using xs(2) none by (metis option.distinct(1))
    ultimately show ?thesis using tablesI [of "with_table E p i q e" root xs r] new_tables [OF new xs(1)] by simp
  qed
qed

lemma new_unshared:
  assumes new: "fresh_table E root path p i q e"
  shows "unshared (with_table E p i q e) root"
proof -
  have "\<not> large 0" by (simp add: large_def)
  moreover have "xs = ys" if len: "length xs \<le> 3" "length ys \<le> 3" and xs: "table_at (with_table E p i q e) root xs = Some r"
      and ys: "table_at (with_table E p i q e) root ys = Some r" for xs ys r
  proof -
    have "table_at E root zs \<noteq> Some q" if "length zs \<le> 3" for zs using fresh_tableD(5) [OF new] tablesI [of E root zs] that by auto
    then show ?thesis
      using len xs ys unsharedD [OF fresh_tableD(1) [OF new], of xs r ys] unfolding new_tables [OF new len(1)] new_tables [OF new len(2)]
      by (metis option.inject)
  qed
  ultimately show ?thesis using fresh_tableD [OF new] unfolding unshared_def with_table_def by auto
qed

lemma new_walk:
  assumes new: "fresh_table E root path p i q e" and len: "length zs = 4"
  shows "mmu_walk (with_table E p i q e) root zs = mmu_walk E root zs"
proof -
  have main: "mmu_walk (with_table E p i q e) r vs = mmu_walk E r vs" if "zs = us @ vs" "table_at E root us = Some r" "vs \<noteq> []" for us vs r
    using that
  proof (induction vs arbitrary: us r)
    case (Cons j vs)
    have us: "length us \<le> 3" using Cons.prems(1) len by simp
    have rq: "r \<noteq> q" using fresh_tableD(5) [OF new] tablesI [OF Cons.prems(2) us] by auto
    show ?case
    proof (cases "r = p \<and> j = i")
      case True
      then have "us = path" using unsharedD [OF fresh_tableD(1) [OF new] Cons.prems(2), of path] fresh_tableD(2,3) [OF new] us by auto
      then have "vs \<noteq> []" using Cons.prems(1) len fresh_tableD(3) [OF new] by auto
      moreover have "mmu_walk (with_table E p i q e) q vs = None"
        by (cases vs) (simp_all add: with_table_def fresh_neq [OF new] present_def)
      ultimately show ?thesis using True fresh_tableD [OF new] by (simp add: with_table_def)
    next
      case False
      then have e: "with_table E p i q e r j = E r j" using rq by (auto simp: with_table_def)
      have "mmu_walk (with_table E p i q e) (page_of (E r j)) vs = mmu_walk E (page_of (E r j)) vs"
        if "present (E r j)" "\<not> large (E r j)" "vs \<noteq> []"
        using Cons.IH [of "us @ [j]" "page_of (E r j)"] Cons.prems that by (simp add: next_table_def)
      then show ?thesis unfolding mmu_walk.simps e Let_def by (simp cong: if_cong)
    qed
  qed simp
  show ?thesis by (rule main [of "[]"]) (use len in auto)
qed

lemma new_rights:
  assumes new: "fresh_table E root path p i q e" and e: "access_of e = new_table_rights" and len: "length zs \<le> 3"
  shows "table_rights (with_table E p i q e) root zs = table_rights E root zs"
proof -
  have main: "table_rights (with_table E p i q e) r vs = table_rights E r vs" if "zs = us @ vs" "table_at E root us = Some r" for us vs r
    using that
  proof (induction vs arbitrary: us r)
    case (Cons j vs)
    have us: "length us \<le> 3" using Cons.prems(1) len by simp
    have rq: "r \<noteq> q" using fresh_tableD(5) [OF new] tablesI [OF Cons.prems(2) us] by auto
    show ?case
    proof (cases "r = p \<and> j = i")
      case True
      have "access_and new_table_rights (table_rights (with_table E p i q e) q vs) = new_table_rights"
        by (cases vs) (simp_all add: with_table_def fresh_neq [OF new] present_def new_table_rights_def access_and_def)
      then show ?thesis using True fresh_tableD [OF new] e by (simp add: with_table_def)
    next
      case False
      then have e: "with_table E p i q e r j = E r j" using rq by (auto simp: with_table_def)
      have "table_rights (with_table E p i q e) (page_of (E r j)) vs = table_rights E (page_of (E r j)) vs"
        if "present (E r j)" "\<not> large (E r j)"
        using Cons.IH [of "us @ [j]" "page_of (E r j)"] Cons.prems that by (simp add: next_table_def)
      then show ?thesis unfolding table_rights.simps e Let_def by (simp cong: if_cong)
    qed
  qed simp
  show ?thesis by (rule main [of "[]"]) simp_all
qed

section \<open>A new entry in the last level\<close>

definition with_entry :: "entries \<Rightarrow> U64 \<Rightarrow> index \<Rightarrow> U64 \<Rightarrow> entries" where
  "with_entry E p i e = (\<lambda>p' j. if p' = p \<and> j = i then e else E p' j)"

lemma leaf_tables:
  assumes tree: "unshared E root" and at: "table_at E root path = Some p" and depth: "length path = 3"
  shows "length xs \<le> 3 \<Longrightarrow> table_at (with_entry E p i e) root xs = table_at E root xs"
proof (induction xs rule: rev_induct)
  case (snoc j xs)
  then show ?case
  proof (cases "table_at E root xs")
    case (Some r)
    then have "r \<noteq> p" using unsharedD [OF tree Some, of path] at depth snoc.prems by auto
    then show ?thesis using Some snoc by (simp add: next_table_def with_entry_def)
  qed simp
qed simp

lemma leaf_unshared:
  assumes tree: "unshared E root" and at: "table_at E root path = Some p" and depth: "length path = 3"
  shows "unshared (with_entry E p i e) root"
proof -
  have "root \<noteq> p" using unsharedD [OF tree, of "[]" root path] at depth by auto
  then have "\<not> large (with_entry E p i e root j)" for j using tree by (auto simp: with_entry_def unshared_def)
  then show ?thesis using tree leaf_tables [OF tree at depth] unfolding unshared_def by simp
qed

lemma leaf_tables_set:
  assumes tree: "unshared E root" and at: "table_at E root path = Some p" and depth: "length path = 3"
  shows "tables (with_entry E p i e) root = tables E root"
  unfolding tables_def using leaf_tables [OF tree at depth] by auto

lemma leaf_walk_other:
  assumes tree: "unshared E root" and at: "table_at E root path = Some p" and depth: "length path = 3"
    and other: "length zs = 4" "zs \<noteq> path @ [i]"
  shows "mmu_walk (with_entry E p i e) root zs = mmu_walk E root zs"
proof (rule mmu_walk_cong)
  fix us j vs r assume zs: "zs = us @ j # vs" and r: "table_at E root us = Some r"
  then have "r = p \<Longrightarrow> us = path" using unsharedD [OF tree r, of path] at depth other(1) by auto
  then show "with_entry E p i e r j = E r j" using zs other depth by (auto simp: with_entry_def)
qed

text \<open>The walk to a last-level entry, with the rights of the tables above it.\<close>

fun path_access :: "entries \<Rightarrow> U64 \<Rightarrow> index list \<Rightarrow> access" where
  "path_access E p [] = \<lparr> writable = True, user = True, executable = True \<rparr>"
| "path_access E p (i # path) = access_and (access_of (E p i)) (path_access E (page_of (E p i)) path)"

lemma path_access_rights: "table_at E root path = Some p \<Longrightarrow> path_access E root path = table_rights E root path"
  by (induction path arbitrary: root) (auto simp: next_table_def Let_def split: if_splits)

lemma path_access_cong:
  "table_at E root path = Some p \<Longrightarrow> (\<And>ys i zs r. path = ys @ i # zs \<Longrightarrow> table_at E root ys = Some r \<Longrightarrow> E' r i = E r i) \<Longrightarrow>
   path_access E' root path = path_access E root path"
proof (induction path arbitrary: root)
  case (Cons i path)
  have e: "E' root i = E root i" using Cons.prems(2) [of "[]" i path root] by simp
  obtain q where q: "next_table E root i = Some q" "table_at E q path = Some p" "page_of (E root i) = q"
    using Cons.prems(1) by (auto simp: bind_eq_Some_conv next_table_def split: if_splits)
  have "path_access E' q path = path_access E q path"
  proof (rule Cons.IH [OF q(2)])
    fix ys j zs r assume "path = ys @ j # zs" "table_at E q ys = Some r"
    then show "E' r j = E r j" using Cons.prems(2) [of "i # ys" j zs r] q(1) by simp
  qed
  then show ?case using e q(3) by simp
qed simp

lemma mmu_walk_leaf:
  "table_at E root path = Some p \<Longrightarrow>
   mmu_walk E root (path @ [i]) = (if present (E p i) then Some (page_of (E p i), 0, access_and (path_access E root path) (access_of (E p i))) else None)"
proof (induction path arbitrary: root)
  case (Cons j path)
  then show ?case
    by (auto simp: next_table_def Let_def access_and_def split: if_splits)
qed (simp add: access_and_def access_of_def Let_def)

lemma mmu_walk_large:
  "table_at E root path = Some p \<Longrightarrow> present (E p i) \<Longrightarrow> large (E p i) \<Longrightarrow> vs \<noteq> [] \<Longrightarrow> length vs < 3 \<Longrightarrow>
   \<exists>r. mmu_walk E root (path @ i # vs) = Some (page_of (E p i), length vs, r)"
proof (induction path arbitrary: root)
  case (Cons j path)
  then have "table_at E (page_of (E root j)) path = Some p" "present (E root j)" "\<not> large (E root j)"
    by (auto simp: next_table_def split: if_splits)
  then show ?case using Cons by (fastforce simp: Let_def)
qed (simp add: Let_def)

lemma mmu_walk_small: "mmu_walk E root (path @ [i]) = Some (a, 0, r) \<Longrightarrow> \<exists>p. table_at E root path = Some p"
proof (induction path arbitrary: root r)
  case (Cons j path)
  then obtain r' where "mmu_walk E (page_of (E root j)) (path @ [i]) = Some (a, 0, r')" "present (E root j)" "\<not> large (E root j)"
    by (auto simp: Let_def split: if_splits option.splits)
  then show ?case using Cons.IH by (simp add: next_table_def)
qed simp

end
