(* ===== verification/Kernel_Frames.thy ===== *)
theory Kernel_Frames
  imports Kernel_Paging
begin

text \<open>
  Physical pages from the lists of allocators. \<open>frame_inv\<close> says that the lists are well formed: each link leads to the sentinel, every
  allocator satisfies its own invariant, and the ranges do not overlap. The interface \<open>frame_source\<close> is what page tables
  rely on: a page comes out of the set of free pages and leaves it. \<^verbatim>\<open>system_paging_physical_alloc\<close> for normal pages is an
  interpretation of it.
\<close>

section \<open>Lists of allocators\<close>

fun chain :: "(ptr \<Rightarrow> System_Physical_Allocator option) \<Rightarrow> (System_Physical_Allocator \<Rightarrow> ptr) \<Rightarrow> ptr \<Rightarrow> ptr list \<Rightarrow> bool" where
  "chain A link a [] \<longleftrightarrow> (\<exists>pa. A a = Some pa \<and> pa_next pa = a)"
| "chain A link a (x # xs) \<longleftrightarrow> a = x \<and> (\<exists>pa. A x = Some pa \<and> pa_next pa \<noteq> x \<and> chain A link (link pa) xs)"

definition same_links :: "System_Physical_Allocator \<Rightarrow> System_Physical_Allocator \<Rightarrow> bool" where
  "same_links pa pa' \<longleftrightarrow> pa_next pa' = pa_next pa \<and> pa_next_16mb pa' = pa_next_16mb pa \<and> pa_next_4gb pa' = pa_next_4gb pa
     \<and> address_base pa' = address_base pa \<and> pa_size pa' = pa_size pa"

lemma same_links_refl [simp]: "same_links pa pa"
  by (simp add: same_links_def)

lemma set_used_same_links: "system_pa_set_used pa p = Inr pa' \<Longrightarrow> same_links pa pa'"
  by (auto simp: system_pa_set_used_def same_links_def result_simps)

lemma alloc_same_links: "system_pa_alloc pa = Inr (a, ok, pa') \<Longrightarrow> same_links pa pa'"
  by (auto simp: system_pa_alloc_def Let_def result_simps split: if_splits dest!: set_used_same_links) (auto simp: same_links_def)

lemma chain_update:
  assumes "A x = Some pa" "same_links pa pa'" "link \<in> {pa_next, pa_next_16mb, pa_next_4gb}"
  shows "chain (A(x := Some pa')) link a zs = chain A link a zs"
proof -
  have "pa_next pa' = pa_next pa" "link pa' = link pa" using assms(2,3) by (auto simp: same_links_def)
  then show ?thesis using assms(1) by (induction zs arbitrary: a) auto
qed

text \<open>What an allocator of a list must satisfy for page tables: its own invariant, page alignment, and addresses of at most 48 bits.\<close>

definition frame_ok :: "System_Physical_Allocator \<Rightarrow> bool" where
  "frame_ok pa \<longleftrightarrow> pa_small pa \<and> 4096 dvd unat (address_base pa) \<and> uint (address_base pa) + pa_size pa * 4096 \<le> 2 ^ 48"

lemma frame_ok_links: "frame_ok pa \<Longrightarrow> same_links pa pa' \<Longrightarrow> pa_small pa' \<Longrightarrow> frame_ok pa'"
  by (simp add: frame_ok_def same_links_def)

lemma pa_load_run: "allocators s a = Some pa \<Longrightarrow> pa_load a s = (Inr pa, s)"
  by (simp add: pa_load_def)

lemma kbind_pa_load: "allocators s a = Some pa \<Longrightarrow> kbind (pa_load a) f s = f pa s"
  by (simp add: kbind_def pa_load_run)

lemma kbind_pa_store [simp]: "kbind (pa_store a pa) f s = f () (s\<lparr> allocators := (allocators s)(a := Some pa) \<rparr>)"
  by (simp add: pa_store_def)

lemma is_sentinel_run: "allocators s a = Some pa \<Longrightarrow> kbind (system_paging_pa_is_sentinel a) f s = f (a = pa_next pa) s"
  by (simp add: system_paging_pa_is_sentinel_def kbind_assoc kbind_pa_load)

text \<open>One loop of the allocation: the first allocator with a free page gives one. \<open>taken\<close> is that outcome.\<close>

definition taken :: "ptr set \<Rightarrow> 's paging_scheme \<Rightarrow> Uintptr \<Rightarrow> 's paging_scheme \<Rightarrow> bool" where
  "taken X s p s' \<longleftrightarrow> (\<exists>x \<in> X. \<exists>pa pa'. allocators s x = Some pa \<and> p \<in> pa_free_pages pa \<and> pa_small pa' \<and> same_links pa pa'
     \<and> pa_free_pages pa' = pa_free_pages pa - {p} \<and> pa_pages pa' = pa_pages pa
     \<and> s' = s\<lparr> allocators := (allocators s)(x := Some pa') \<rparr>)"

lemma taken_mono: "taken X s p s' \<Longrightarrow> X \<subseteq> Y \<Longrightarrow> taken Y s p s'"
  unfolding taken_def by blast

lemma physical_alloc_loop_run:
  assumes "chain (allocators s) link a zs" "length zs < n" "link \<in> {pa_next, pa_next_16mb, pa_next_4gb}"
    "\<And>x pa. x \<in> set zs \<Longrightarrow> allocators s x = Some pa \<Longrightarrow> pa_small pa"
  shows "(physical_alloc_loop n link a s = (Inr None, s) \<and> (\<forall>x \<in> set zs. pa_free_pages (the (allocators s x)) = {}))
    \<or> (\<exists>p s'. taken (set zs) s p s' \<and> physical_alloc_loop n link a s = (Inr (Some p), s'))"
  using assms
proof (induction zs arbitrary: a n)
  case Nil
  then obtain pa m where "allocators s a = Some pa" "pa_next pa = a" "n = Suc m" by (cases n) auto
  then show ?case by (simp add: is_sentinel_run)
next
  case (Cons x zs)
  obtain pa m where pa: "allocators s x = Some pa" "pa_next pa \<noteq> x" "chain (allocators s) link (link pa) zs" "a = x" "n = Suc m"
    using Cons.prems(1,2) by (cases n) auto
  have small: "pa_small pa" using Cons.prems(4) [of x pa] pa(1) by simp
  have step: "physical_alloc_loop n link a s = kbind (klift (system_pa_alloc pa)) (\<lambda>(address, ok, pa).
      kbind (pa_store x pa) (\<lambda>_. if ok then kret (Some address) else kbind (pa_load x) (\<lambda>pa. physical_alloc_loop m link (link pa)))) s"
    using pa by (simp add: is_sentinel_run kbind_pa_load)
  from small show ?case
  proof (cases rule: pa.alloc_cases)
    case none
    then have "physical_alloc_loop n link a s = physical_alloc_loop m link (link pa) s"
      unfolding step using pa(1) by (simp add: kbind_pa_load fun_upd_idem)
    moreover have "length zs < m" using Cons.prems(2) pa(5) by simp
    moreover have "pa_small q" if "y \<in> set zs" "allocators s y = Some q" for y q using Cons.prems(4) [of y q] that by simp
    ultimately consider "physical_alloc_loop n link a s = (Inr None, s)" "\<forall>y \<in> set zs. pa_free_pages (the (allocators s y)) = {}"
      | p s' where "taken (set zs) s p s'" "physical_alloc_loop n link a s = (Inr (Some p), s')"
      using Cons.IH [OF pa(3) _ Cons.prems(3)] by metis
    then show ?thesis
    proof cases
      case 1
      then show ?thesis using none(1) pa(1) by simp
    next
      case 2
      then show ?thesis using taken_mono [of "set zs" s _ _ "set (x # zs)"] by auto
    qed
  next
    case (some p pa')
    have "physical_alloc_loop n link a s = (Inr (Some p), s\<lparr> allocators := (allocators s)(x := Some pa') \<rparr>)"
      unfolding step some(1) by simp
    moreover have "taken (set (x # zs)) s p (s\<lparr> allocators := (allocators s)(x := Some pa') \<rparr>)"
      unfolding taken_def using some alloc_same_links [OF some(1)] pa(1) by auto
    ultimately show ?thesis by blast
  qed
qed

section \<open>The invariant\<close>

definition frame_inv :: "ptr list \<Rightarrow> ptr list \<Rightarrow> 's paging_scheme \<Rightarrow> bool" where
  "frame_inv xs ys s \<longleftrightarrow>
     chain (allocators s) pa_next (pg_first_non_16mb s) xs \<and> chain (allocators s) pa_next_16mb (pg_first_16mb s) ys
     \<and> length xs < list_limit s \<and> length ys < list_limit s
     \<and> (\<forall>x \<in> set xs \<union> set ys. frame_ok (the (allocators s x)))
     \<and> (\<forall>x \<in> set xs \<union> set ys. \<forall>y \<in> set xs \<union> set ys. x \<noteq> y \<longrightarrow> pa_pages (the (allocators s x)) \<inter> pa_pages (the (allocators s y)) = {})"

definition frame_free :: "ptr list \<Rightarrow> ptr list \<Rightarrow> 's paging_scheme \<Rightarrow> Uintptr set" where
  "frame_free xs ys s = (\<Union>x \<in> set xs \<union> set ys. pa_free_pages (the (allocators s x)))"

lemma chain_defined: "chain A link a zs \<Longrightarrow> x \<in> set zs \<Longrightarrow> \<exists>pa. A x = Some pa"
  by (induction zs arbitrary: a) auto

lemma frame_small:
  assumes "frame_inv xs ys s" "x \<in> set xs \<union> set ys" "allocators s x = Some pa"
  shows "frame_ok pa"
proof -
  have "frame_ok (the (allocators s x))" using assms(1,2) unfolding frame_inv_def by blast
  then show ?thesis using assms(3) by simp
qed

text \<open>Everything but the allocators stays as it is.\<close>

lemma frame_inv_update:
  assumes inv: "frame_inv xs ys s" and x: "x \<in> set xs \<union> set ys" "allocators s x = Some pa"
    and pa': "pa_small pa'" "same_links pa pa'" "p \<in> pa_free_pages pa" "pa_free_pages pa' = pa_free_pages pa - {p}" "pa_pages pa' = pa_pages pa"
  shows "frame_inv xs ys (s\<lparr> allocators := (allocators s)(x := Some pa') \<rparr>)"
    and "frame_free xs ys (s\<lparr> allocators := (allocators s)(x := Some pa') \<rparr>) = frame_free xs ys s - {p}"
proof -
  let ?A = "(allocators s)(x := Some pa')"
  note okx = frame_small [OF inv x]
  have ok: "frame_ok (the (?A y))" if "y \<in> set xs \<union> set ys" for y
    using inv that frame_ok_links [OF okx pa'(2,1)] by (cases "y = x") (auto simp: frame_inv_def)
  have pages: "pa_pages (the (?A y)) = pa_pages (the (allocators s y))" for y using x(2) pa'(5) by simp
  show "frame_inv xs ys (s\<lparr> allocators := ?A \<rparr>)"
    using inv ok chain_update [where A = "allocators s" and x = x, OF x(2) pa'(2)] pages by (simp add: frame_inv_def)
  have "p \<notin> pa_free_pages (the (allocators s y))" if "y \<in> set xs \<union> set ys" "y \<noteq> x" for y
  proof -
    have "frame_ok (the (allocators s y))" using inv that(1) unfolding frame_inv_def by blast
    then have "pa_free_pages (the (allocators s y)) \<subseteq> pa_pages (the (allocators s y))" "p \<in> pa_pages pa"
      using pa.free_sub pa'(3) okx by (auto simp: frame_ok_def)
    moreover have "pa_pages (the (allocators s y)) \<inter> pa_pages (the (allocators s x)) = {}"
      using inv that x(1) unfolding frame_inv_def by blast
    then have "pa_pages (the (allocators s y)) \<inter> pa_pages pa = {}" using x(2) by simp
    ultimately show ?thesis by blast
  qed
  then have "pa_free_pages (the (?A y)) = pa_free_pages (the (allocators s y)) - {p}" if "y \<in> set xs \<union> set ys" for y
    using that x(2) pa'(4) by (cases "y = x") auto
  then show "frame_free xs ys (s\<lparr> allocators := ?A \<rparr>) = frame_free xs ys s - {p}"
    by (simp add: frame_free_def UN_extend_simps(6) cong: SUP_cong_simp)
qed

lemma frame_inv_taken:
  assumes "frame_inv xs ys s" "taken (set xs \<union> set ys) s p s'"
  shows "frame_inv xs ys s' \<and> frame_free xs ys s' = frame_free xs ys s - {p} \<and> p \<in> frame_free xs ys s
    \<and> (\<exists>A. s' = s\<lparr> allocators := A \<rparr>)"
proof -
  obtain x pa pa' where x: "x \<in> set xs \<union> set ys" "allocators s x = Some pa"
      "pa_small pa'" "same_links pa pa'" "p \<in> pa_free_pages pa" "pa_free_pages pa' = pa_free_pages pa - {p}" "pa_pages pa' = pa_pages pa"
      "s' = s\<lparr> allocators := (allocators s)(x := Some pa') \<rparr>"
    using assms(2) unfolding taken_def by blast
  have "pa_free_pages (the (allocators s x)) \<subseteq> frame_free xs ys s" unfolding frame_free_def using x(1) by blast
  then show ?thesis using frame_inv_update [OF assms(1) x(1-7)] x(2,5,8) by auto
qed

lemma finite_frame_free: "frame_inv xs ys s \<Longrightarrow> finite (frame_free xs ys s)"
proof -
  assume inv: "frame_inv xs ys s"
  have "finite (pa_free_pages (the (allocators s x)))" if "x \<in> set xs \<union> set ys" for x
  proof -
    have "pa_small (the (allocators s x))" using inv that unfolding frame_inv_def frame_ok_def by blast
    then show ?thesis using pa.free_sub pa.finite_pages finite_subset by blast
  qed
  then show ?thesis unfolding frame_free_def by blast
qed

section \<open>Normal pages\<close>

lemma physical_alloc_normal:
  assumes inv: "frame_inv xs ys s"
  shows "(frame_free xs ys s = {} \<and> system_paging_physical_alloc SYSTEM_PHYSICAL_PAGE_NORMAL s = (Inr (0, False), s))
    \<or> (\<exists>p s'. taken (set xs \<union> set ys) s p s' \<and> system_paging_physical_alloc SYSTEM_PHYSICAL_PAGE_NORMAL s = (Inr (p, True), s'))"
proof -
  let ?high = "physical_alloc_loop (list_limit s) pa_next (pg_first_non_16mb s) s"
  let ?low = "physical_alloc_loop (list_limit s) pa_next_16mb (pg_first_16mb s) s"
  have links: "chain (allocators s) pa_next (pg_first_non_16mb s) xs" "chain (allocators s) pa_next_16mb (pg_first_16mb s) ys"
      "length xs < list_limit s" "length ys < list_limit s"
    using inv by (auto simp: frame_inv_def)
  have small: "pa_small pa" if "x \<in> set xs \<union> set ys" "allocators s x = Some pa" for x pa
    using frame_small [OF inv that] by (simp add: frame_ok_def)
  note high = physical_alloc_loop_run [OF links(1,3)] and low = physical_alloc_loop_run [OF links(2,4)]
  have alloc: "system_paging_physical_alloc SYSTEM_PHYSICAL_PAGE_NORMAL s =
      (case ?high of (Inr (Some p), s') \<Rightarrow> (Inr (p, True), s') | _ \<Rightarrow>
       (case ?low of (Inr (Some p), s') \<Rightarrow> (Inr (p, True), s') | _ \<Rightarrow> (Inr (0, False), s)))"
    if "?high = (Inr None, s) \<or> (\<exists>p s'. ?high = (Inr (Some p), s'))" "?low = (Inr None, s) \<or> (\<exists>p s'. ?low = (Inr (Some p), s'))"
    using that by (auto simp: system_paging_physical_alloc_def kbind_def kget_def Let_def)
  have h: "(?high = (Inr None, s) \<and> (\<forall>x \<in> set xs. pa_free_pages (the (allocators s x)) = {}))
      \<or> (\<exists>p s'. taken (set xs) s p s' \<and> ?high = (Inr (Some p), s'))"
    using small by (intro high) auto
  have l: "(?low = (Inr None, s) \<and> (\<forall>x \<in> set ys. pa_free_pages (the (allocators s x)) = {}))
      \<or> (\<exists>p s'. taken (set ys) s p s' \<and> ?low = (Inr (Some p), s'))"
    using small by (intro low) auto
  have alloc': "system_paging_physical_alloc SYSTEM_PHYSICAL_PAGE_NORMAL s =
      (case ?high of (Inr (Some p), s') \<Rightarrow> (Inr (p, True), s') | _ \<Rightarrow>
       (case ?low of (Inr (Some p), s') \<Rightarrow> (Inr (p, True), s') | _ \<Rightarrow> (Inr (0, False), s)))"
    using h l by (intro alloc) blast+
  from h show ?thesis
  proof (elim disjE conjE exE)
    fix p s' assume "taken (set xs) s p s'" "?high = (Inr (Some p), s')"
    then show ?thesis using alloc' taken_mono [of "set xs" s p s' "set xs \<union> set ys"] by auto
  next
    assume none: "?high = (Inr None, s)" "\<forall>x \<in> set xs. pa_free_pages (the (allocators s x)) = {}"
    from l show ?thesis
    proof (elim disjE conjE exE)
      fix p s' assume "taken (set ys) s p s'" "?low = (Inr (Some p), s')"
      then show ?thesis using alloc' none(1) taken_mono [of "set ys" s p s' "set xs \<union> set ys"] by auto
    next
      assume "?low = (Inr None, s)" "\<forall>x \<in> set ys. pa_free_pages (the (allocators s x)) = {}"
      then show ?thesis using alloc' none by (auto simp: frame_free_def)
    qed
  qed
qed

section \<open>The interface\<close>

text \<open>A sequence of \<open>k\<close> allocations, which stops at the first one that fails.\<close>

fun alloc_many :: "('s, Uintptr \<times> bool) krun \<Rightarrow> nat \<Rightarrow> ('s, Uintptr list) krun" where
  "alloc_many alloc 0 = kret []"
| "alloc_many alloc (Suc k) =
     kbind alloc (\<lambda>(p, ok). if ok then kbind (alloc_many alloc k) (\<lambda>ps. kret (p # ps)) else kret [])"

locale frame_source =
  fixes alloc :: "('s, Uintptr \<times> bool) krun"
    and inv :: "'s \<Rightarrow> bool"
    and free :: "'s \<Rightarrow> Uintptr set"
  assumes finite_free: "inv s \<Longrightarrow> finite (free s)"
    and alloc_some: "inv s \<Longrightarrow> free s \<noteq> {} \<Longrightarrow>
      \<exists>p s'. alloc s = (Inr (p, True), s') \<and> p \<in> free s \<and> inv s' \<and> free s' = free s - {p}"
    and alloc_none: "inv s \<Longrightarrow> free s = {} \<Longrightarrow> alloc s = (Inr (0, False), s)"
begin

lemma many_distinct:
  assumes "inv s"
  shows "\<exists>ps s'. alloc_many alloc k s = (Inr ps, s') \<and> distinct ps \<and> set ps \<subseteq> free s \<and> length ps = min k (card (free s))
    \<and> inv s' \<and> free s' = free s - set ps"
  using assms
proof (induction k arbitrary: s)
  case 0
  then show ?case by simp
next
  case (Suc k)
  show ?case
  proof (cases "free s = {}")
    case True
    then show ?thesis using Suc.prems alloc_none [OF Suc.prems] by (simp add: kbind_def)
  next
    case False
    then obtain p t where p: "alloc s = (Inr (p, True), t)" "p \<in> free s" "inv t" "free t = free s - {p}"
      using alloc_some [OF Suc.prems] by blast
    obtain ps s' where ps: "alloc_many alloc k t = (Inr ps, s')" "distinct ps" "set ps \<subseteq> free t" "length ps = min k (card (free t))"
        "inv s'" "free s' = free t - set ps"
      using Suc.IH [OF p(3)] by blast
    have "card (free s) = Suc (card (free t))"
      using p(2,4) finite_free [OF Suc.prems] card.remove by metis
    moreover have "alloc_many alloc (Suc k) s = (Inr (p # ps), s')" using p(1) ps(1) by (simp add: kbind_def)
    ultimately show ?thesis using p ps by (intro exI [of _ "p # ps"] exI [of _ s']) auto
  qed
qed

end

interpretation frames: frame_source "system_paging_physical_alloc SYSTEM_PHYSICAL_PAGE_NORMAL" "frame_inv xs ys" "frame_free xs ys"
  for xs ys
proof
  fix s :: "'a paging_scheme" assume inv: "frame_inv xs ys s"
  show "finite (frame_free xs ys s)" by (rule finite_frame_free [OF inv])
  show "\<exists>p s'. system_paging_physical_alloc SYSTEM_PHYSICAL_PAGE_NORMAL s = (Inr (p, True), s') \<and> p \<in> frame_free xs ys s
      \<and> frame_inv xs ys s' \<and> frame_free xs ys s' = frame_free xs ys s - {p}" if "frame_free xs ys s \<noteq> {}"
    using physical_alloc_normal [OF inv] that frame_inv_taken [OF inv] by blast
  show "system_paging_physical_alloc SYSTEM_PHYSICAL_PAGE_NORMAL s = (Inr (0, False), s)" if "frame_free xs ys s = {}"
    using physical_alloc_normal [OF inv] that frame_inv_taken [OF inv] by blast
qed

end
