(* ===== verification/Kernel_Translate.thy ===== *)
theory Kernel_Translate
  imports Kernel_Walk Kernel_Frames
begin

text \<open>
  Page tables in memory: \<^verbatim>\<open>system_paging_entry\<close>, \<^verbatim>\<open>system_paging_map\<close> and \<^verbatim>\<open>system_paging_unmap\<close> against the walk of the processor.
  \<open>entry_at\<close> reads a table through the higher half direct map; \<open>paging_inv\<close> says that the allocators are well formed, that the
  tables form a tree and that no table is a free page.
\<close>

section \<open>Tables in memory\<close>

definition entry_at :: "mem \<Rightarrow> U64 \<Rightarrow> entries" where
  "entry_at m offset p i = load_u64 m (p + offset + 8 * ucast i)"

lemma flag_address: "SYSTEM_PAGING_AMD64_FLAG_ADDRESS = 0x0000FFFFFFFFF000"
  by (simp add: SYSTEM_PAGING_AMD64_FLAG_ADDRESS_def)

lemma bit_flag_address: "bit SYSTEM_PAGING_AMD64_FLAG_ADDRESS k \<longleftrightarrow> 12 \<le> k \<and> k < 48"
proof -
  have "SYSTEM_PAGING_AMD64_FLAG_ADDRESS = mask 48 AND NOT (mask 12)"
    by (simp add: SYSTEM_PAGING_AMD64_FLAG_ADDRESS_def mask_eq_exp_minus_1)
  show ?thesis unfolding \<open>SYSTEM_PAGING_AMD64_FLAG_ADDRESS = _\<close> by (auto simp: bit_simps)
qed

lemma page_of_idem [simp]: "page_of (page_of e) = page_of e"
  by (simp add: page_of_def and.assoc)

lemma unat_take_bit64: "unat (take_bit n (w :: U64)) = unat w mod 2 ^ n"
  by (subst unsigned_take_bit_eq) (simp add: take_bit_eq_mod)

lemma frame_dvd: "frame p \<Longrightarrow> 4096 dvd unat p"
proof -
  assume "frame p"
  then have "p AND SYSTEM_PAGING_AMD64_FLAG_ADDRESS = p" by (simp add: frame_def page_of_def)
  then have low: "bit p k \<Longrightarrow> 12 \<le> k" for k using bit_and_iff [of p SYSTEM_PAGING_AMD64_FLAG_ADDRESS k] by (simp add: bit_flag_address)
  have "\<not> bit (take_bit 12 p) k" for k using low [of k] by (auto simp: bit_take_bit_iff)
  then have "take_bit 12 p = 0" by (intro bit_word_eqI) simp
  then have "unat p mod 2 ^ 12 = 0" using unat_take_bit64 [of 12 p] by simp
  then show ?thesis by (simp add: mod_eq_0_iff_dvd)
qed

lemma frameI: "4096 dvd unat p \<Longrightarrow> unat p < 2 ^ 48 \<Longrightarrow> frame p"
proof -
  assume p: "4096 dvd unat p" "unat p < 2 ^ 48"
  have "unat (take_bit 12 p) = 0" "unat (take_bit 48 p) = unat p"
    unfolding unat_take_bit64 using p by simp_all
  then have low: "take_bit 12 p = 0" and high: "take_bit 48 p = p" by (simp_all only: unat_eq_zero word_unat_eq_iff)
  have "12 \<le> k \<and> k < 48" if "bit p k" for k
  proof
    show "12 \<le> k" using bit_take_bit_iff [of 12 p k] that unfolding low by simp
    have "bit (take_bit 48 p) k" using that by (simp only: high)
    then show "k < 48" unfolding bit_take_bit_iff by simp
  qed
  then show "frame p" unfolding frame_def page_of_def by (intro bit_word_eqI) (auto simp: bit_and_iff bit_flag_address)
qed

lemma frame_apart:
  assumes "frame p" "frame q" "p \<noteq> q"
  shows "4096 \<le> unat (p - q)"
proof -
  obtain a b where ab: "unat p = 4096 * a" "unat q = 4096 * b"
    using frame_dvd [OF assms(1)] frame_dvd [OF assms(2)] by (auto elim!: dvdE)
  have "unat (p - q) = (if 4096 * b \<le> 4096 * a then 4096 * (a - b) else 4096 * (2 ^ 52 + a - b))"
    using unat_sub_if' [of p q] ab by (auto simp: diff_mult_distrib2)
  then have "4096 dvd unat (p - q)" by simp
  moreover have "unat (p - q) \<noteq> 0" using assms(3) by (simp add: unat_eq_zero)
  ultimately show ?thesis by (auto dest!: dvd_imp_le)
qed

lemma unat_index: "unat (ucast (i :: index) :: U64) = unat i"
proof -
  have "unat i < 2 ^ 64" using unsigned_less [of i, where ?'a = nat] by simp
  then show ?thesis by (simp add: unsigned_ucast_eq take_bit_nat_eq_self)
qed

lemma slot_offset: "8 * ucast (i :: index) = (of_nat (8 * unat i) :: U64)"
  by (metis of_nat_mult of_nat_numeral of_nat_unat ucast_id unat_index)

lemma slot_bound: "8 * unat (i :: index) + 8 \<le> 4096"
  using unsigned_less [of i, where ?'a = nat] by simp

lemma slot_add: "a + 8 * ucast (i :: index) + of_nat k = a + (of_nat (8 * unat i + k) :: U64)"
  by (simp only: slot_offset of_nat_add add.assoc)

lemma unat_slot: "unat (8 * ucast (i :: index) :: U64) = 8 * unat i"
  unfolding slot_offset by (rule unat_of_nat64) (use slot_bound [of i] in simp)

lemma slot_in_page: "k < 8 \<Longrightarrow> in_region (p + offset) 4096 (p + offset + 8 * ucast (i :: index) + of_nat k)"
proof -
  assume "k < 8"
  then have "8 * unat i + k < 4096" using slot_bound [of i] by linarith
  then show ?thesis unfolding slot_add using in_region_of_nat [of "8 * unat i + k" "p + offset" 4096] by simp
qed

lemma slot_other_page:
  assumes "frame p" "frame q" "p \<noteq> q" "k < 8"
  shows "\<not> in_region (q + offset) 4096 (p + offset + 8 * ucast (i :: index) + of_nat k)"
proof -
  have "8 * unat i + k < 4096" using assms(4) slot_bound [of i] by linarith
  then have "\<not> in_region (offset + q) 4096 (offset + p + of_nat (8 * unat i + k))"
    using frame_apart [OF assms(1-3)] frame_apart [OF assms(2,1)] assms(3) by (intro apart_not_in_region) auto
  then show ?thesis unfolding slot_add add.commute [of _ offset] .
qed

lemma slot_apart: "unat i \<noteq> unat (j :: index) \<Longrightarrow> 8 \<le> unat (8 * ucast (i :: index) - 8 * ucast j :: U64)"
  using slot_bound [of i] slot_bound [of j] unat_sub_if' [of "8 * ucast i :: U64" "8 * ucast j"] unfolding unat_slot
  by (auto split: if_splits)

lemma entry_region: "in_region (a + 8 * ucast (i :: index)) 8 x \<Longrightarrow> in_region a 4096 x"
  unfolding slot_offset by (rule in_region_offset [OF _ slot_bound]) simp_all

lemma slot_other_slot:
  assumes "frame p" "frame q" "p \<noteq> q \<or> i \<noteq> j" "k < 8"
  shows "\<not> in_region (p + offset + 8 * ucast (i :: index)) 8 (q + offset + 8 * ucast j + of_nat k)"
proof (cases "p = q")
  case True
  then have "unat i \<noteq> unat j" using assms(3) by (auto simp: word_unat_eq_iff)
  then show ?thesis
    using apart_not_in_region [of 8 "8 * ucast j" "8 * ucast i" k "p + offset"] slot_apart [of i j] slot_apart [of j i] assms(4) True by simp
next
  case False
  then have "\<not> in_region (p + offset) 4096 (q + offset + 8 * ucast j + of_nat k)"
    using slot_other_page [OF assms(2,1) _ assms(4)] by auto
  then show ?thesis using entry_region by blast
qed

lemma load_u64_cong: "(\<And>k. k < 8 \<Longrightarrow> m' (a + of_nat k) = m (a + of_nat k)) \<Longrightarrow> load_u64 m' a = load_u64 m a"
  unfolding load_u64_def by (rule load_le_cong) simp_all

lemma store_u64_at: "store_u64 m a v b = (if in_region a 8 b then ucast (drop_bit (8 * unat (b - a)) v) else m b)"
  by (simp add: store_u64_def store_le_region)

text \<open>A store into a slot, and a zeroed page, as changes of the entries.\<close>

lemma entry_at_store:
  assumes "frame p" "frame q"
  shows "entry_at (store_u64 m (p + offset + 8 * ucast i) e) offset q j = (if q = p \<and> j = i then e else entry_at m offset q j)"
proof (cases "q = p \<and> j = i")
  case False
  then have "p \<noteq> q \<or> i \<noteq> j" by auto
  then show ?thesis
    unfolding entry_at_def if_not_P [OF False]
    by (intro load_u64_cong) (simp add: store_u64_at slot_other_slot [OF assms])
qed (simp add: entry_at_def)

definition zeroed :: "mem \<Rightarrow> ptr \<Rightarrow> mem" where
  "zeroed m a = (\<lambda>b. if in_region a 4096 b then 0 else m b)"

lemma memset_run_page: "kbind (memset_run a 0 (word_of_int SYSTEM_PAGE_SIZE)) f s = f () (s\<lparr> memory := zeroed (memory s) a \<rparr>)"
proof -
  have "snd (memset m a 0 (word_of_int SYSTEM_PAGE_SIZE)) = zeroed m a" for m
    by (rule ext) (simp add: memset_region zeroed_def SYSTEM_PAGE_SIZE_def)
  then show ?thesis by (simp add: memset_run_def kmodify_def kbind_def)
qed

lemma load_u64_zero: "(\<And>k. k < 8 \<Longrightarrow> m (a + of_nat k) = 0) \<Longrightarrow> load_u64 m a = 0"
proof -
  assume z: "\<And>k. k < 8 \<Longrightarrow> m (a + of_nat k) = 0"
  show ?thesis unfolding load_u64_def by (rule bit_word_eqI) (auto simp: bit_load_le z less_mult_imp_div_less)
qed

lemma entry_at_zeroed:
  assumes "frame p" "frame q"
  shows "entry_at (zeroed m (q + offset)) offset p j = (if p = q then 0 else entry_at m offset p j)"
proof (cases "p = q")
  case True
  then show ?thesis unfolding entry_at_def by (simp add: load_u64_zero zeroed_def slot_in_page)
next
  case False
  then show ?thesis
    unfolding entry_at_def if_not_P [OF False] by (intro load_u64_cong) (simp add: zeroed_def slot_other_page [OF assms])
qed

lemma paging_slot_index: "paging_slot (p + offset) n va = p + offset + 8 * ucast (ucast (drop_bit n va) :: index)"
proof -
  have "drop_bit n va AND (push_bit 9 1 - 1) = take_bit 9 (drop_bit n va)"
    by (simp add: take_bit_eq_mask mask_eq_exp_minus_1)
  also have "\<dots> = ucast (ucast (drop_bit n va) :: index)"
    by (rule bit_word_eqI) (auto simp: bit_simps)
  finally show ?thesis by (simp add: paging_slot_def)
qed

section \<open>The invariant\<close>

text \<open>\<open>xs\<close> and \<open>ys\<close> are the lists of allocators, \<open>root\<close> is the physical address of the first level.\<close>

definition paging_inv :: "ptr list \<Rightarrow> ptr list \<Rightarrow> U64 \<Rightarrow> U64 \<Rightarrow> 's paging_scheme \<Rightarrow> bool" where
  "paging_inv xs ys offset root s \<longleftrightarrow>
     frame_inv xs ys s \<and> (\<exists>revision. hhdm_response s = Some (revision, offset))
     \<and> unshared (entry_at (memory s) offset) root \<and> tables (entry_at (memory s) offset) root \<inter> frame_free xs ys s = {}
     \<and> root + offset \<noteq> 0"

abbreviation entries_of :: "U64 \<Rightarrow> 's paging_scheme \<Rightarrow> entries" where
  "entries_of offset s \<equiv> entry_at (memory s) offset"

text \<open>Everything else is as it was: only memory and the allocators differ, and memory only in tables of the new state.\<close>

definition only_tables :: "U64 \<Rightarrow> U64 \<Rightarrow> 's paging_scheme \<Rightarrow> 's paging_scheme \<Rightarrow> bool" where
  "only_tables offset root s s' \<longleftrightarrow>
     s' = s\<lparr> memory := memory s', allocators := allocators s' \<rparr> \<and> tables (entries_of offset s) root \<subseteq> tables (entries_of offset s') root
     \<and> (\<forall>a. (\<forall>p \<in> tables (entries_of offset s') root. \<not> in_region (p + offset) 4096 a) \<longrightarrow> memory s' a = memory s a)"

lemma only_tables_refl [simp]: "only_tables offset root s s"
  by (simp add: only_tables_def)

lemma only_tables_fields:
  assumes "only_tables offset root s s'"
  shows "invalidated s' = invalidated s" "hhdm_response s' = hhdm_response s"
proof -
  have eq: "s' = s\<lparr> memory := memory s', allocators := allocators s' \<rparr>" using assms by (simp add: only_tables_def)
  from arg_cong [OF eq, of invalidated] show "invalidated s' = invalidated s" by simp
  from arg_cong [OF eq, of hhdm_response] show "hhdm_response s' = hhdm_response s" by simp
qed

lemma only_tables_trans:
  assumes "only_tables offset root s t" "only_tables offset root t u"
  shows "only_tables offset root s u"
proof -
  have s: "t = s\<lparr> memory := memory t, allocators := allocators t \<rparr>" and t: "u = t\<lparr> memory := memory u, allocators := allocators u \<rparr>"
    using assms by (simp_all add: only_tables_def)
  have "u = s\<lparr> memory := memory u, allocators := allocators u \<rparr>" by (subst t, subst s) simp
  then show ?thesis using assms unfolding only_tables_def by (metis (no_types, lifting) subset_eq)
qed

lemma frame_free_frame:
  assumes "frame_inv xs ys s" "q \<in> frame_free xs ys s"
  shows "frame q"
proof -
  obtain x where x: "x \<in> set xs \<union> set ys" "q \<in> pa_free_pages (the (allocators s x))"
    using assms(2) unfolding frame_free_def by blast
  then obtain pa where pa: "allocators s x = Some pa"
    using assms(1) chain_defined unfolding frame_inv_def by blast
  have ok: "frame_ok pa" by (rule frame_small [OF assms(1) x(1) pa])
  then have "q \<in> pa_pages pa" using x(2) pa pa.free_sub [of pa] by (auto simp: frame_ok_def)
  then obtain k where k: "q = pa_page_address pa k" "k < nat (pa_size pa)" by (auto simp: pa_pages_def)
  let ?b = "unat (address_base pa)"
  have bound: "?b + nat (pa_size pa) * 4096 \<le> 2 ^ 48"
  proof -
    have "int ?b + pa_size pa * 4096 \<le> 2 ^ 48" using ok by (simp add: frame_ok_def)
    moreover have "int (nat (pa_size pa)) = pa_size pa" using k(2) by simp
    ultimately have "int (?b + nat (pa_size pa) * 4096) \<le> int (2 ^ 48)" by simp
    then show ?thesis by (simp only: of_nat_le_iff)
  qed
  moreover have "4096 * k + 4096 \<le> nat (pa_size pa) * 4096" using k(2) by simp
  ultimately have "?b + 4096 * k < 2 ^ 48" by linarith
  moreover from this have "unat q = ?b + 4096 * k"
    using unat_add_region [of "address_base pa" "k * 4096 + 1" "k * 4096"] unfolding k(1) pa_page_address_def by simp
  moreover have "4096 dvd ?b" using ok by (simp add: frame_ok_def)
  ultimately show ?thesis by (intro frameI) simp_all
qed

lemma frame_inv_memory [simp]:
  "frame_inv xs ys (s\<lparr> memory := m \<rparr>) = frame_inv xs ys s" "frame_free xs ys (s\<lparr> memory := m \<rparr>) = frame_free xs ys s"
  by (simp_all add: frame_inv_def frame_free_def)

text \<open>A state with more tables: the walks and the rights of the tables agree, and the entries that were present have not changed.\<close>

definition extends :: "U64 \<Rightarrow> U64 \<Rightarrow> 's paging_scheme \<Rightarrow> 's paging_scheme \<Rightarrow> bool" where
  "extends offset root s s' \<longleftrightarrow>
     only_tables offset root s s'
     \<and> (\<forall>vs. length vs = 4 \<longrightarrow> mmu_walk (entries_of offset s') root vs = mmu_walk (entries_of offset s) root vs)
     \<and> (\<forall>vs. length vs \<le> 3 \<longrightarrow> table_rights (entries_of offset s') root vs = table_rights (entries_of offset s) root vs)
     \<and> (\<forall>r \<in> tables (entries_of offset s) root. \<forall>j. present (entries_of offset s r j) \<longrightarrow> entries_of offset s' r j = entries_of offset s r j)"

lemma extends_refl [simp]: "extends offset root s s"
  by (simp add: extends_def)

lemma extends_trans:
  assumes "extends offset root s t" "extends offset root t u"
  shows "extends offset root s u"
proof -
  have "only_tables offset root s u" using assms only_tables_trans unfolding extends_def by blast
  moreover have "entries_of offset u r j = entries_of offset s r j"
    if "r \<in> tables (entries_of offset s) root" "present (entries_of offset s r j)" for r j
  proof -
    have "entries_of offset t r j = entries_of offset s r j" "r \<in> tables (entries_of offset t) root"
      using assms(1) that by (auto simp: extends_def only_tables_def)
    then show ?thesis using assms(2) that by (auto simp: extends_def)
  qed
  ultimately show ?thesis using assms by (auto simp: extends_def)
qed

section \<open>One level\<close>

lemma new_physical_run:
  assumes "frame_inv xs ys s" "frame_free xs ys s \<noteq> {}"
  obtains q A where "q \<in> frame_free xs ys s" "frame_inv xs ys (s\<lparr> allocators := A \<rparr>)"
    "frame_free xs ys (s\<lparr> allocators := A \<rparr>) = frame_free xs ys s - {q}"
    "\<And>offset. system_paging_entry_new_physical offset s = (Inr q, s\<lparr> allocators := A, memory := zeroed (memory s) (q + offset) \<rparr>)"
proof -
  obtain q s' where q: "taken (set xs \<union> set ys) s q s'" "system_paging_physical_alloc SYSTEM_PHYSICAL_PAGE_NORMAL s = (Inr (q, True), s')"
    using physical_alloc_normal [OF assms(1)] assms(2) by blast
  obtain A where A: "s' = s\<lparr> allocators := A \<rparr>" using frame_inv_taken [OF assms(1) q(1)] by blast
  have run: "system_paging_entry_new_physical offset s = (Inr q, s\<lparr> allocators := A, memory := zeroed (memory s) (q + offset) \<rparr>)" for offset
    unfolding system_paging_entry_new_physical_def
      kbind_run [where m = "system_paging_physical_alloc SYSTEM_PHYSICAL_PAGE_NORMAL" and s = s, OF q(2)] prod.case
    by (simp add: memset_run_page A)
  show thesis
  proof (rule that [of q A])
    show "q \<in> frame_free xs ys s" "frame_inv xs ys (s\<lparr> allocators := A \<rparr>)"
      "frame_free xs ys (s\<lparr> allocators := A \<rparr>) = frame_free xs ys s - {q}"
      using frame_inv_taken [OF assms(1) q(1)] A by simp_all
  qed (rule run)
qed

text \<open>The three functions that write an entry above the last level do the same when the large-page bit is clear.\<close>

definition entry_writer :: "(ptr \<Rightarrow> ptr \<Rightarrow> U64 \<Rightarrow> ('s paging_scheme, unit) krun) \<Rightarrow> bool" where
  "entry_writer set_entry \<longleftrightarrow>
     (\<forall>target address. set_entry target address (SYSTEM_PAGING_AMD64_FLAG_P OR SYSTEM_PAGING_AMD64_FLAG_RW) = poke64 target (page_of address OR 3))"

lemma table_flags: "SYSTEM_PAGING_AMD64_FLAG_P OR SYSTEM_PAGING_AMD64_FLAG_RW = 3" "3 AND SYSTEM_PAGING_AMD64_FLAG_PS = 0"
  by (simp_all add: SYSTEM_PAGING_AMD64_FLAG_P_def SYSTEM_PAGING_AMD64_FLAG_RW_def SYSTEM_PAGING_AMD64_FLAG_PS_def BIT_def)

lemma entry_writers:
  "entry_writer system_paging_pml4_entry" "entry_writer system_paging_pdpt_entry" "entry_writer system_paging_pd_entry"
  by (simp_all add: entry_writer_def table_flags page_of_def system_paging_pml4_entry_def system_paging_pdpt_entry_def system_paging_pd_entry_def fun_eq_iff)

lemma bit_BIT: "bit (BIT n) k \<longleftrightarrow> k = n \<and> n < 64"
  by (auto simp: BIT_def bit_simps)

lemma bit_flag: "bit SYSTEM_PAGING_AMD64_FLAG_P k \<longleftrightarrow> k = 0" "bit SYSTEM_PAGING_AMD64_FLAG_RW k \<longleftrightarrow> k = 1"
  "bit SYSTEM_PAGING_AMD64_FLAG_US k \<longleftrightarrow> k = 2" "bit SYSTEM_PAGING_AMD64_FLAG_PS k \<longleftrightarrow> k = 7" "bit SYSTEM_PAGING_AMD64_FLAG_XD k \<longleftrightarrow> k = 63"
  by (auto simp: SYSTEM_PAGING_AMD64_FLAG_P_def SYSTEM_PAGING_AMD64_FLAG_RW_def SYSTEM_PAGING_AMD64_FLAG_US_def
      SYSTEM_PAGING_AMD64_FLAG_PS_def SYSTEM_PAGING_AMD64_FLAG_XD_def bit_BIT)

lemma and_BIT: "(e :: U64) AND BIT k = 0 \<longleftrightarrow> \<not> bit e k"
  by (simp add: BIT_def push_bit_eq_mult and_exp_eq_0_iff_not_bit)

lemma flag_bits:
  "present e \<longleftrightarrow> bit e 0" "large e \<longleftrightarrow> bit e 7"
  "access_of e = \<lparr> writable = bit e 1, user = bit e 2, executable = \<not> bit e 63 \<rparr>"
  by (simp_all add: present_def large_def access_of_def and_BIT SYSTEM_PAGING_AMD64_FLAG_P_def SYSTEM_PAGING_AMD64_FLAG_RW_def
      SYSTEM_PAGING_AMD64_FLAG_US_def SYSTEM_PAGING_AMD64_FLAG_PS_def SYSTEM_PAGING_AMD64_FLAG_XD_def)

lemma bit_page_of: "bit (page_of e) k \<longleftrightarrow> bit e k \<and> 12 \<le> k \<and> k < 48"
  by (simp add: page_of_def bit_and_iff bit_flag_address)

lemma table_entry:
  assumes "frame q"
  shows "present (q OR 3)" "\<not> large (q OR 3)" "page_of (q OR 3) = q"
    "access_of (q OR 3) = new_table_rights"
proof -
  have three: "bit (3 :: U64) k \<longleftrightarrow> k = 0 \<or> k = 1" for k using bit_or_iff [of SYSTEM_PAGING_AMD64_FLAG_P SYSTEM_PAGING_AMD64_FLAG_RW k]
    by (auto simp: table_flags bit_flag)
  have q: "bit q k \<Longrightarrow> 12 \<le> k \<and> k < 48" for k using assms bit_page_of [of q k] by (simp add: frame_def)
  show "present (q OR 3)" "\<not> large (q OR 3)" "access_of (q OR 3) = new_table_rights"
    using q [of 0] q [of 7] q [of 2] q [of 63] by (auto simp: flag_bits bit_or_iff three new_table_rights_def)
  have "bit (page_of (q OR 3)) k = bit q k" for k using q [of k] three [of k] by (auto simp: bit_page_of bit_or_iff)
  then show "page_of (q OR 3) = q" by (intro bit_word_eqI) simp
qed

lemma paging_level_present:
  assumes "next_table (entries_of offset s) p i = Some q"
  shows "paging_level set_entry offset (p + offset + 8 * ucast i) s = (Inr (q + offset), s)"
  using assms unfolding next_table_def present_def
  by (simp add: paging_level_def entry_at_def page_of_def Let_def split: if_splits)

lemma paging_level_run:
  assumes inv: "paging_inv xs ys offset root s" and set: "entry_writer set_entry"
    and at: "table_at (entries_of offset s) root path = Some p" "length path < 3"
    and small: "present (entries_of offset s p i) \<Longrightarrow> \<not> large (entries_of offset s p i)"
    and free: "present (entries_of offset s p i) \<or> frame_free xs ys s \<noteq> {}"
  shows "\<exists>q s'. paging_level set_entry offset (p + offset + 8 * ucast i) s = (Inr (q + offset), s') \<and> paging_inv xs ys offset root s'
    \<and> table_at (entries_of offset s') root (path @ [i]) = Some q \<and> extends offset root s s'
    \<and> card (frame_free xs ys s) \<le> card (frame_free xs ys s') + 1
    \<and> frame_free xs ys s' \<subseteq> frame_free xs ys s
    \<and> card (tables (entries_of offset s') root) + card (frame_free xs ys s') = card (tables (entries_of offset s) root) + card (frame_free xs ys s)"
proof (cases "present (entries_of offset s p i)")
  case True
  then have nt: "next_table (entries_of offset s) p i = Some (page_of (entries_of offset s p i))" using small by (simp add: next_table_def)
  then show ?thesis using paging_level_present [OF nt, of set_entry] inv at True by auto
next
  case False
  let ?E = "entries_of offset s"
  have frames: "frame_inv xs ys s" "frame_free xs ys s \<noteq> {}" and tree: "unshared ?E root"
    and apart: "tables ?E root \<inter> frame_free xs ys s = {}"
    using inv False free by (auto simp: paging_inv_def)
  obtain q A where q: "q \<in> frame_free xs ys s" "frame_inv xs ys (s\<lparr> allocators := A \<rparr>)"
      "frame_free xs ys (s\<lparr> allocators := A \<rparr>) = frame_free xs ys s - {q}"
      "\<And>offset. system_paging_entry_new_physical offset s = (Inr q, s\<lparr> allocators := A, memory := zeroed (memory s) (q + offset) \<rparr>)"
    using new_physical_run [OF frames] by blast
  have fq: "frame q" and fp: "frame p"
    using frame_free_frame [OF frames(1) q(1)] table_at_frame [OF at(1)] tree by (auto simp: unshared_def)
  have qnew: "q \<notin> tables ?E root" using apart q(1) by auto
  define s' where "s' = s\<lparr> memory := store_u64 (zeroed (memory s) (q + offset)) (p + offset + 8 * ucast i) (q OR 3), allocators := A \<rparr>"
  have ptable: "p \<in> tables ?E root" by (rule tablesI [OF at(1)]) (use at(2) in simp)
  then have pq: "p \<noteq> q" using qnew by auto
  have new: "fresh_table ?E root path p i q (q OR 3)" using tree at False qnew table_entry(1-3) [OF fq] by (simp add: fresh_table_def)
  have E: "entry_at (memory s') offset r j = with_table ?E p i q (q OR 3) r j" if "frame r" for r j
    using entry_at_store [OF fp that] entry_at_zeroed [OF that fq] by (auto simp: s'_def with_table_def)
  have root: "frame root" using tree by (simp add: unshared_def)
  let ?W = "with_table ?E p i q (q OR 3)"
  have agree_table: "table_at (entries_of offset s') root xs = table_at ?W root xs" for xs
    by (rule table_at_agree [OF E root])
  have agree_walk: "mmu_walk (entries_of offset s') root vs = mmu_walk ?W root vs" for vs by (rule walk_agree [OF E root])
  have agree_rights: "table_rights (entries_of offset s') root vs = table_rights ?W root vs" for vs by (rule rights_agree [OF E root])
  have agree_tables: "tables (entries_of offset s') root = tables ?W root" by (rule tables_agree [OF E root])
  have agree_unshared: "unshared (entries_of offset s') root = unshared ?W root" by (rule unshared_agree [OF E root])
  have p': "entry_at (memory s') offset p i = q OR 3" using E [OF fp] by (simp add: with_table_def)
  have "set_entry (p + offset + 8 * ucast i) q (SYSTEM_PAGING_AMD64_FLAG_P OR SYSTEM_PAGING_AMD64_FLAG_RW) = poke64 (p + offset + 8 * ucast i) (q OR 3)"
    using set fq by (simp add: entry_writer_def frame_def)
  then have run: "paging_level set_entry offset (p + offset + 8 * ucast i) s = (Inr (q + offset), s')"
    using False p' table_entry(3) [OF fq]
    by (simp add: paging_level_def kbind_assoc present_def kbind_run [where m = "system_paging_entry_new_physical offset" and s = s, OF q(4)] entry_at_def page_of_def s'_def)
  have tables': "tables (entries_of offset s') root = insert q (tables ?E root)"
    by (simp only: agree_tables new_tables_set [OF new])
  have at': "table_at (entries_of offset s') root (path @ [i]) = Some q"
    using new_tables [OF new, of "path @ [i]"] at(2) agree_table [of "path @ [i]"] by (simp del: table_at_snoc)
  have free': "frame_free xs ys s' = frame_free xs ys s - {q}" "frame_inv xs ys s'"
    using q(2,3) by (simp_all add: s'_def frame_inv_def frame_free_def)
  have inv': "paging_inv xs ys offset root s'"
  proof -
    have "unshared (entries_of offset s') root" unfolding agree_unshared by (rule new_unshared [OF new])
    then show ?thesis using inv free' tables' by (auto simp: paging_inv_def s'_def)
  qed
  have "memory s' a = memory s a" if "\<forall>r \<in> tables (entries_of offset s') root. \<not> in_region (r + offset) 4096 a" for a
  proof -
    have "\<not> in_region (q + offset) 4096 a" "\<not> in_region (p + offset) 4096 a" using that ptable tables' by auto
    moreover from this have "\<not> in_region (p + offset + 8 * ucast i) 8 a" using entry_region by blast
    ultimately show ?thesis by (simp add: s'_def store_u64_at zeroed_def)
  qed
  then have only: "only_tables offset root s s'" using tables' by (auto simp: only_tables_def s'_def)
  have count: "card (frame_free xs ys s) = card (frame_free xs ys s') + 1"
    using card.remove [OF finite_frame_free [OF frames(1)] q(1)] free'(1) by simp
  have "mmu_walk (entries_of offset s') root vs = mmu_walk ?E root vs" if "length vs = 4" for vs
    unfolding agree_walk by (rule new_walk [OF new that])
  moreover have "table_rights (entries_of offset s') root vs = table_rights ?E root vs" if "length vs \<le> 3" for vs
    unfolding agree_rights by (rule new_rights [OF new table_entry(4) [OF fq] that])
  moreover have "entries_of offset s' r j = ?E r j" if "r \<in> tables ?E root" "present (?E r j)" for r j
  proof -
    have "frame r" using that(1) table_at_frame [OF _ root] unfolding tables_def by blast
    then show ?thesis using E [of r j] that qnew False by (auto simp: with_table_def)
  qed
  ultimately have "extends offset root s s'" using only unfolding extends_def by blast
  moreover have "card (tables (entries_of offset s') root) = Suc (card (tables ?E root))"
    using tables' qnew finite_tables by simp
  ultimately show ?thesis using run inv' at' count free'(1) by auto
qed

section \<open>The walk of the code\<close>

definition page_aligned :: "U64 \<Rightarrow> bool" where
  "page_aligned a \<longleftrightarrow> take_bit 12 a = 0"

lemma page_aligned_mask: "a AND (word_of_int SYSTEM_PAGE_SIZE - 1) = take_bit 12 a"
  by (simp add: SYSTEM_PAGE_SIZE_def take_bit_eq_mask mask_eq_exp_minus_1)

lemma aligned_run [simp]: "page_aligned a \<Longrightarrow> kbind (SYSTEM_PAGING_ASSERT_ADDRESS_ALIGNED name a) f = f ()"
  by (simp add: SYSTEM_PAGING_ASSERT_ADDRESS_ALIGNED_def page_aligned_mask page_aligned_def)

lemma level_run:
  assumes inv: "paging_inv xs ys offset root s" and set: "entry_writer set_entry"
    and at: "table_at (entries_of offset s) root path = Some p" and free: "k < card (frame_free xs ys s)"
    and path: "path_of virtual = path @ i # vs" "vs \<noteq> []" and small: "\<not> in_large_page (entries_of offset s) root virtual"
  obtains q s' where "paging_level set_entry offset (p + offset + 8 * ucast i) s = (Inr (q + offset), s')" "paging_inv xs ys offset root s'"
    "table_at (entries_of offset s') root (path @ [i]) = Some q" "extends offset root s s'" "k \<le> card (frame_free xs ys s')"
    "\<not> in_large_page (entries_of offset s') root virtual"
    "card (tables (entries_of offset s') root) + card (frame_free xs ys s') = card (tables (entries_of offset s) root) + card (frame_free xs ys s)"
    "frame_free xs ys s' \<subseteq> frame_free xs ys s"
proof -
  have len: "length path + length vs = 3" using arg_cong [OF path(1), of length] by (simp add: path_of_def)
  have "\<not> large (entries_of offset s p i)" if "present (entries_of offset s p i)"
  proof (cases "path = []")
    case True
    then show ?thesis using inv at by (simp add: paging_inv_def unshared_def)
  next
    case False
    then have "length vs < 3" using len by (cases path) simp_all
    then show ?thesis using mmu_walk_large [OF at that _ path(2)] path small by (auto simp: in_large_page_def split: option.splits)
  qed
  moreover have "frame_free xs ys s \<noteq> {}" using free by auto
  moreover have "length path < 3" using len path(2) by (cases vs) simp_all
  ultimately obtain q s' where q: "paging_level set_entry offset (p + offset + 8 * ucast i) s = (Inr (q + offset), s')"
      "paging_inv xs ys offset root s'" "table_at (entries_of offset s') root (path @ [i]) = Some q" "extends offset root s s'"
      "card (frame_free xs ys s) \<le> card (frame_free xs ys s') + 1"
      "card (tables (entries_of offset s') root) + card (frame_free xs ys s') = card (tables (entries_of offset s) root) + card (frame_free xs ys s)"
      "frame_free xs ys s' \<subseteq> frame_free xs ys s"
    using paging_level_run [OF inv set at, of i] by metis
  moreover have "length (path_of virtual) = 4" by (simp add: path_of_def)
  ultimately have "\<not> in_large_page (entries_of offset s') root virtual" using small unfolding in_large_page_def extends_def by metis
  then show thesis using that [OF q(1-4) _ _ q(6,7)] q(5) free by simp
qed

lemma entry_start:
  assumes "paging_inv xs ys offset root s" "page_aligned virtual"
  shows "system_paging_entry (root + offset) virtual s =
      kbind (paging_level system_paging_pml4_entry offset (root + offset + 8 * ucast (ucast (drop_bit 39 virtual) :: index))) (\<lambda>pdpt.
      kbind (paging_level system_paging_pdpt_entry offset (paging_slot pdpt 30 virtual)) (\<lambda>pd.
      kbind (paging_level system_paging_pd_entry offset (paging_slot pd 21 virtual)) (\<lambda>pt.
      kret (paging_slot pt 12 virtual)))) s"
proof -
  obtain revision where "hhdm_response s = Some (revision, offset)" "root + offset \<noteq> 0" using assms(1) unfolding paging_inv_def by blast
  then show ?thesis using assms(2) by (simp add: system_paging_entry_def hhdm_offset_def kbind_assoc paging_slot_index)
qed

lemma entry_run:
  assumes inv: "paging_inv xs ys offset root s" and free: "3 \<le> card (frame_free xs ys s)"
    and small: "\<not> in_large_page (entries_of offset s) root virtual" and aligned: "page_aligned virtual"
  obtains pt s' where "system_paging_entry (root + offset) virtual s = (Inr (pt + offset + 8 * ucast (ucast (drop_bit 12 virtual) :: index)), s')"
    "paging_inv xs ys offset root s'" "table_at (entries_of offset s') root (butlast (path_of virtual)) = Some pt" "extends offset root s s'"
    "\<not> in_large_page (entries_of offset s') root virtual" "card (frame_free xs ys s) \<le> card (frame_free xs ys s') + 3"
    "card (tables (entries_of offset s') root) + card (frame_free xs ys s') = card (tables (entries_of offset s) root) + card (frame_free xs ys s)"
    "frame_free xs ys s' \<subseteq> frame_free xs ys s"
proof -
  let ?i = "\<lambda>n. ucast (drop_bit n virtual) :: index"
  note start = entry_start [OF inv aligned]
  define k where "k = card (frame_free xs ys s) - 3"
  obtain p1 s1 where l1: "paging_level system_paging_pml4_entry offset (root + offset + 8 * ucast (?i 39)) s = (Inr (p1 + offset), s1)"
      "paging_inv xs ys offset root s1" "table_at (entries_of offset s1) root ([] @ [?i 39]) = Some p1" "extends offset root s s1"
      "k + 2 \<le> card (frame_free xs ys s1)" "\<not> in_large_page (entries_of offset s1) root virtual"
      "card (tables (entries_of offset s1) root) + card (frame_free xs ys s1) = card (tables (entries_of offset s) root) + card (frame_free xs ys s)"
      "frame_free xs ys s1 \<subseteq> frame_free xs ys s"
    by (rule level_run [OF inv entry_writers(1), where path = "[]" and p = root and k = "k + 2" and virtual = virtual and i = "?i 39"])
      (use free small in \<open>auto simp: path_of_def k_def\<close>)
  obtain p2 s2 where l2: "paging_level system_paging_pdpt_entry offset (p1 + offset + 8 * ucast (?i 30)) s1 = (Inr (p2 + offset), s2)"
      "paging_inv xs ys offset root s2" "table_at (entries_of offset s2) root (([] @ [?i 39]) @ [?i 30]) = Some p2" "extends offset root s1 s2"
      "k + 1 \<le> card (frame_free xs ys s2)" "\<not> in_large_page (entries_of offset s2) root virtual"
      "card (tables (entries_of offset s2) root) + card (frame_free xs ys s2) = card (tables (entries_of offset s1) root) + card (frame_free xs ys s1)"
      "frame_free xs ys s2 \<subseteq> frame_free xs ys s1"
    by (rule level_run [OF l1(2) entry_writers(2) l1(3), where k = "k + 1" and virtual = virtual and i = "?i 30"])
      (use l1(5,6) in \<open>auto simp: path_of_def\<close>)
  obtain p3 s3 where l3: "paging_level system_paging_pd_entry offset (p2 + offset + 8 * ucast (?i 21)) s2 = (Inr (p3 + offset), s3)"
      "paging_inv xs ys offset root s3" "table_at (entries_of offset s3) root ((([] @ [?i 39]) @ [?i 30]) @ [?i 21]) = Some p3"
      "extends offset root s2 s3" "k \<le> card (frame_free xs ys s3)"
      "\<not> in_large_page (entries_of offset s3) root virtual"
      "card (tables (entries_of offset s3) root) + card (frame_free xs ys s3) = card (tables (entries_of offset s2) root) + card (frame_free xs ys s2)"
      "frame_free xs ys s3 \<subseteq> frame_free xs ys s2"
    by (rule level_run [OF l2(2) entry_writers(3) l2(3), where k = k and virtual = virtual and i = "?i 21"])
      (use l2(5,6) in \<open>auto simp: path_of_def\<close>)
  have run: "system_paging_entry (root + offset) virtual s = (Inr (p3 + offset + 8 * ucast (?i 12)), s3)"
    unfolding start by (simp add: kbind_def l1(1) l2(1) l3(1) paging_slot_index)
  have ext: "extends offset root s1 s3" using extends_trans [OF l2(4) l3(4)] .
  have "extends offset root s s3" using extends_trans [OF l1(4) ext] .
  moreover have "table_at (entries_of offset s3) root (butlast (path_of virtual)) = Some p3" using l3(3) by (simp add: path_of_def)
  moreover have "card (frame_free xs ys s) \<le> card (frame_free xs ys s3) + 3" using l3(5) free by (simp add: k_def)
  ultimately show thesis using that [OF run l3(2)] l3(6,7) l2(7) l1(7) l1(8) l2(8) l3(8) by auto
qed

section \<open>The last level\<close>

lemma leaf_store:
  fixes i :: index and e :: U64
  assumes inv: "paging_inv xs ys offset root s" and at: "table_at (entries_of offset s) root path = Some p" "length path = 3"
  defines "s' \<equiv> s\<lparr> memory := store_u64 (memory s) (p + offset + 8 * ucast i) e \<rparr>"
  shows "paging_inv xs ys offset root s'" "only_tables offset root s s'" "frame_free xs ys s' = frame_free xs ys s"
    "\<And>vs. length vs = 4 \<Longrightarrow> mmu_walk (entries_of offset s') root vs =
      (if vs = path @ [i] then
         if present e then Some (page_of e, 0, access_and (path_access (entries_of offset s') root path) (access_of e)) else None
       else mmu_walk (entries_of offset s) root vs)"
    "\<And>r j. r \<noteq> p \<Longrightarrow> frame r \<Longrightarrow> entries_of offset s' r j = entries_of offset s r j"
    "tables (entries_of offset s') root = tables (entries_of offset s) root"
proof -
  let ?E = "entries_of offset s" and ?E' = "entries_of offset s'"
  let ?W = "with_entry ?E p i e"
  have tree: "unshared ?E root" using inv by (simp add: paging_inv_def)
  then have root: "frame root" by (simp add: unshared_def)
  have fp: "frame p" by (rule table_at_frame [OF at(1) root])
  have E: "?E' r j = ?W r j" if "frame r" for r j
    using entry_at_store [OF fp that] by (simp add: s'_def with_entry_def)
  have agree_table: "table_at ?E' root zs = table_at ?W root zs" for zs by (rule table_at_agree [OF E root])
  have agree_walk: "mmu_walk ?E' root zs = mmu_walk ?W root zs" for zs by (rule walk_agree [OF E root])
  have agree_tables: "tables ?E' root = tables ?W root" by (rule tables_agree [OF E root])
  have agree_unshared: "unshared ?E' root = unshared ?W root" by (rule unshared_agree [OF E root])
  note leaf = tree at
  show tables': "tables ?E' root = tables ?E root" unfolding agree_tables by (rule leaf_tables_set [OF leaf])
  show free': "frame_free xs ys s' = frame_free xs ys s" by (simp add: s'_def)
  have "unshared ?E' root" unfolding agree_unshared by (rule leaf_unshared [OF leaf])
  then show "paging_inv xs ys offset root s'" using inv tables' by (simp add: paging_inv_def s'_def)
  have "p \<in> tables ?E root" by (rule tablesI [OF at(1)]) (use at(2) in simp)
  then have "\<not> in_region (p + offset + 8 * ucast i) 8 a" if "\<forall>r \<in> tables ?E' root. \<not> in_region (r + offset) 4096 a" for a
    using that tables' entry_region by blast
  then show "only_tables offset root s s'" using tables' by (simp add: only_tables_def s'_def store_u64_at)
  show "?E' r j = ?E r j" if "r \<noteq> p" "frame r" for r j using E [OF that(2)] that(1) by (simp add: with_entry_def)
  fix vs :: "index list" assume vs: "length vs = 4"
  show "mmu_walk ?E' root vs =
      (if vs = path @ [i] then if present e then Some (page_of e, 0, access_and (path_access ?E' root path) (access_of e)) else None
       else mmu_walk ?E root vs)"
  proof (cases "vs = path @ [i]")
    case True
    have "table_at ?E' root path = Some p" using agree_table leaf_tables [OF leaf, of path] at by simp
    then show ?thesis using mmu_walk_leaf [of ?E' root path p i] E [OF fp] True by (simp add: with_entry_def)
  next
    case False
    then show ?thesis unfolding agree_walk using leaf_walk_other [OF leaf vs] by simp
  qed
qed

lemma path_of_leaf: "path_of va = butlast (path_of va) @ [ucast (drop_bit 12 va)]" "length (path_of va) = 4" "length (butlast (path_of va)) = 3"
  by (simp_all add: path_of_def)

lemma translate_leaf:
  "mmu_walk E root (path_of va) = Some (a, 0, r) \<Longrightarrow> frame a \<Longrightarrow> mmu_translate E root va = Some (a OR take_bit 12 va, r)"
proof -
  assume walk: "mmu_walk E root (path_of va) = Some (a, 0, r)" and "frame a"
  then have low: "bit a k \<Longrightarrow> 12 \<le> k" for k using bit_page_of [of a k] by (simp add: frame_def)
  have "a AND NOT (mask 12) = a" by (intro bit_word_eqI) (auto simp: bit_simps dest: low)
  then show ?thesis using walk by (simp add: mmu_translate_def mask_eq_exp_minus_1)
qed

lemma translate_cong: "mmu_walk E' root (path_of va) = mmu_walk E root (path_of va) \<Longrightarrow> mmu_translate E' root va = mmu_translate E root va"
  by (simp add: mmu_translate_def)

text \<open>The rights a mapping asks for, and those that the tables above it leave.\<close>

definition requested :: "U64 \<Rightarrow> access" where
  "requested flags = \<lparr> writable = bit flags 0, user = bit flags 2, executable = bit flags 1 \<rparr>"

lemma convert_access:
  assumes "frame physical"
  shows "let e = (physical AND SYSTEM_PAGING_AMD64_FLAG_ADDRESS) OR (system_paging_amd64_flag_convert flags OR SYSTEM_PAGING_AMD64_FLAG_P)
    in present e \<and> page_of e = physical \<and> access_of e = requested flags"
proof -
  have p: "bit physical k \<Longrightarrow> 12 \<le> k \<and> k < 48" for k using assms bit_page_of [of physical k] by (simp add: frame_def)
  have convert: "bit (system_paging_amd64_flag_convert flags) k \<longleftrightarrow> k = 1 \<and> bit flags 0 \<or> k = 2 \<and> bit flags 2 \<or> k = 63 \<and> \<not> bit flags 1" for k
    by (auto simp: system_paging_amd64_flag_convert_def Let_def SYSTEM_PAGING_FLAG_WRITE_def SYSTEM_PAGING_FLAG_USER_def
        SYSTEM_PAGING_FLAG_EXEC_def and_BIT bit_or_iff bit_flag)
  have "physical AND SYSTEM_PAGING_AMD64_FLAG_ADDRESS = physical" using assms by (simp add: frame_def page_of_def)
  moreover have "bit (page_of (physical OR (system_paging_amd64_flag_convert flags OR SYSTEM_PAGING_AMD64_FLAG_P))) k = bit physical k" for k
    using p [of k] by (auto simp: bit_page_of bit_or_iff convert bit_flag)
  then have "page_of (physical OR (system_paging_amd64_flag_convert flags OR SYSTEM_PAGING_AMD64_FLAG_P)) = physical" by (intro bit_word_eqI) simp
  ultimately show ?thesis
    using p [of 0] p [of 1] p [of 2] p [of 63] by (auto simp: Let_def flag_bits requested_def bit_or_iff convert bit_flag)
qed

section \<open>Mapping and unmapping\<close>

lemma frame_aligned: "frame p \<Longrightarrow> page_aligned p"
  using frame_dvd [of p] unat_take_bit64 [of 12 p] by (simp add: page_aligned_def mod_eq_0_iff_dvd unat_eq_zero)

lemma map_run:
  assumes inv: "paging_inv xs ys offset root s" and free: "3 \<le> card (frame_free xs ys s)"
    and small: "\<not> in_large_page (entries_of offset s) root virtual" and aligned: "page_aligned virtual" and phys: "frame physical"
  defines "r \<equiv> table_rights (entries_of offset s) root (butlast (path_of virtual))"
  obtains s' where "system_paging_map (root + offset) physical virtual flags s = (Inr (), s'\<lparr> invalidated := invalidated s @ [virtual] \<rparr>)"
    "paging_inv xs ys offset root s'" "only_tables offset root s s'"
    "\<And>va. mmu_translate (entries_of offset s') root va =
      (if path_of va = path_of virtual then Some (physical OR take_bit 12 va, access_and r (requested flags))
       else mmu_translate (entries_of offset s) root va)"
    "mmu_walk (entries_of offset s') root (path_of virtual) = Some (physical, 0, access_and r (requested flags))"
    "card (frame_free xs ys s) \<le> card (frame_free xs ys s') + 3"
    "card (tables (entries_of offset s') root) + card (frame_free xs ys s') = card (tables (entries_of offset s) root) + card (frame_free xs ys s)"
    "frame_free xs ys s' \<subseteq> frame_free xs ys s"
proof -
  obtain pt s1 where entry: "system_paging_entry (root + offset) virtual s = (Inr (pt + offset + 8 * ucast (ucast (drop_bit 12 virtual) :: index)), s1)"
      "paging_inv xs ys offset root s1" "table_at (entries_of offset s1) root (butlast (path_of virtual)) = Some pt" "extends offset root s s1"
      "card (frame_free xs ys s) \<le> card (frame_free xs ys s1) + 3"
      "card (tables (entries_of offset s1) root) + card (frame_free xs ys s1) = card (tables (entries_of offset s) root) + card (frame_free xs ys s)"
      "frame_free xs ys s1 \<subseteq> frame_free xs ys s"
    using entry_run [OF inv free small aligned] by metis
  define e where "e = (physical AND SYSTEM_PAGING_AMD64_FLAG_ADDRESS) OR (system_paging_amd64_flag_convert flags OR SYSTEM_PAGING_AMD64_FLAG_P)"
  define s' where "s' = s1\<lparr> memory := store_u64 (memory s1) (pt + offset + 8 * ucast (ucast (drop_bit 12 virtual) :: index)) e \<rparr>"
  have e: "present e" "page_of e = physical" "access_of e = requested flags" using convert_access [OF phys, of flags] by (simp_all add: e_def Let_def)
  note leaf = leaf_store [OF entry(2,3) path_of_leaf(3), where i = "ucast (drop_bit 12 virtual)" and e = e, folded s'_def]
  have tree: "unshared (entries_of offset s1) root" using entry(2) by (simp add: paging_inv_def)
  have rights: "path_access (entries_of offset s') root (butlast (path_of virtual)) = r"
  proof -
    have "path_access (entries_of offset s') root (butlast (path_of virtual)) = path_access (entries_of offset s1) root (butlast (path_of virtual))"
    proof (rule path_access_cong [OF entry(3)])
      fix us i zs t assume us: "butlast (path_of virtual) = us @ i # zs" "table_at (entries_of offset s1) root us = Some t"
      have "length us \<le> 3" using arg_cong [OF us(1), of length] path_of_leaf(3) [of virtual] by simp
      then have "t \<noteq> pt" using unsharedD [OF tree us(2), of "butlast (path_of virtual)"] entry(3) us(1) path_of_leaf(3) [of virtual] by auto
      then show "entries_of offset s' t i = entries_of offset s1 t i"
        using leaf(5) table_at_frame [OF us(2)] tree by (simp add: unshared_def)
    qed
    also have "\<dots> = table_rights (entries_of offset s1) root (butlast (path_of virtual))" by (rule path_access_rights [OF entry(3)])
    also have "\<dots> = r" using entry(4) path_of_leaf(3) [of virtual] by (simp add: extends_def r_def)
    finally show ?thesis .
  qed
  have only: "only_tables offset root s s1" using entry(4) by (simp add: extends_def)
  have inval: "invalidated s' = invalidated s" using only_tables_fields(1) [OF only] by (simp add: s'_def)
  have "system_paging_map (root + offset) physical virtual flags s = (Inr (), s'\<lparr> invalidated := invalidated s' @ [virtual] \<rparr>)"
    using aligned frame_aligned [OF phys]
    by (simp add: system_paging_map_def Let_def kbind_run [where m = "system_paging_entry (root + offset) virtual" and s = s, OF entry(1)]
        system_paging_pt_entry_def s'_def e_def)
  moreover have "only_tables offset root s s'" by (rule only_tables_trans [OF only leaf(2)])
  moreover have "mmu_translate (entries_of offset s') root va =
      (if path_of va = path_of virtual then Some (physical OR take_bit 12 va, access_and r (requested flags))
       else mmu_translate (entries_of offset s) root va)" for va
  proof (cases "path_of va = path_of virtual")
    case True
    then have "mmu_walk (entries_of offset s') root (path_of va) = Some (physical, 0, access_and r (requested flags))"
      using leaf(4) [of "path_of va"] path_of_leaf [of virtual] e rights by simp
    then show ?thesis using translate_leaf [OF _ phys] True by simp
  next
    case False
    then have "mmu_walk (entries_of offset s') root (path_of va) = mmu_walk (entries_of offset s) root (path_of va)"
      using leaf(4) [of "path_of va"] path_of_leaf(1) [of virtual] path_of_leaf(2) [of va] entry(4) by (simp add: extends_def)
    from translate_cong [OF this] show ?thesis using False by simp
  qed
  moreover have "mmu_walk (entries_of offset s') root (path_of virtual) = Some (physical, 0, access_and r (requested flags))"
    using leaf(4) [of "path_of virtual"] path_of_leaf [of virtual] e rights by simp
  moreover have "tables (entries_of offset s') root = tables (entries_of offset s1) root" "frame_free xs ys s' = frame_free xs ys s1"
    using leaf(3,6) by simp_all
  ultimately show thesis using that [OF _ leaf(1)] entry(5-7) unfolding inval by simp
qed

lemma entry_present:
  assumes inv: "paging_inv xs ys offset root s" and aligned: "page_aligned virtual"
    and at: "table_at (entries_of offset s) root (butlast (path_of virtual)) = Some pt"
  shows "system_paging_entry (root + offset) virtual s = (Inr (pt + offset + 8 * ucast (ucast (drop_bit 12 virtual) :: index)), s)"
proof -
  obtain p1 p2 where "next_table (entries_of offset s) root (ucast (drop_bit 39 virtual)) = Some p1"
      "next_table (entries_of offset s) p1 (ucast (drop_bit 30 virtual)) = Some p2" "next_table (entries_of offset s) p2 (ucast (drop_bit 21 virtual)) = Some pt"
    using at by (auto simp: path_of_def bind_eq_Some_conv)
  then show ?thesis unfolding entry_start [OF inv aligned] by (simp add: kbind_def paging_level_present paging_slot_index)
qed

lemma unmap_run:
  assumes inv: "paging_inv xs ys offset root s" and aligned: "page_aligned virtual"
    and mapped: "mmu_walk (entries_of offset s) root (path_of virtual) = Some (a, 0, r)"
  obtains s' where "system_paging_unmap (root + offset) virtual s = (Inr (), s'\<lparr> invalidated := invalidated s @ [virtual] \<rparr>)"
    "paging_inv xs ys offset root s'" "only_tables offset root s s'" "frame_free xs ys s' = frame_free xs ys s"
    "\<And>va. mmu_translate (entries_of offset s') root va = (if path_of va = path_of virtual then None else mmu_translate (entries_of offset s) root va)"
proof -
  obtain pt where at: "table_at (entries_of offset s) root (butlast (path_of virtual)) = Some pt"
    using mmu_walk_small mapped path_of_leaf(1) by metis
  define s' where "s' = s\<lparr> memory := store_u64 (memory s) (pt + offset + 8 * ucast (ucast (drop_bit 12 virtual) :: index)) 0 \<rparr>"
  note leaf = leaf_store [OF inv at path_of_leaf(3), where i = "ucast (drop_bit 12 virtual)" and e = 0, folded s'_def]
  have "system_paging_unmap (root + offset) virtual s = (Inr (), s'\<lparr> invalidated := invalidated s @ [virtual] \<rparr>)"
    using aligned by (simp add: system_paging_unmap_def s'_def
        kbind_run [where m = "system_paging_entry (root + offset) virtual" and s = s, OF entry_present [OF inv aligned at]])
  moreover have "mmu_translate (entries_of offset s') root va = (if path_of va = path_of virtual then None else mmu_translate (entries_of offset s) root va)" for va
    using leaf(4) [of "path_of va"] path_of_leaf(1) [of virtual] path_of_leaf(2) [of va]
    by (simp add: mmu_translate_def present_def)
  ultimately show thesis using that leaf(1-3) by blast
qed

text \<open>Without a free page a level whose entry is missing ends in the panic, whichever level it is.\<close>

lemma out_of_pages_level:
  fixes s :: "'s paging_scheme"
  assumes ready: "console_ready port s" and inv: "paging_inv xs ys offset root s" and none: "frame_free xs ys s = {}"
  obtains l where "\<And>set_entry p i. \<not> present (entries_of offset s p i) \<Longrightarrow> paging_level set_entry offset (p + offset + 8 * ucast i) s =
      (Inl (Kpanic ''PAGING: could not allocate physical page for page mapping''), s\<lparr> port_log := l \<rparr>)"
proof -
  have frames: "frame_inv xs ys s" using inv by (simp add: paging_inv_def)
  have alloc: "system_paging_physical_alloc SYSTEM_PHYSICAL_PAGE_NORMAL s = (Inr (0, False), s)" by (rule frames.alloc_none [OF frames none])
  obtain l where l: "(kpanic ''PAGING: could not allocate physical page for page mapping'' :: ('s paging_scheme, unit) krun) s =
      (Inl (Kpanic ''PAGING: could not allocate physical page for page mapping''), s\<lparr> port_log := l \<rparr>)"
    using stops_run [OF com.stops_kpanic ready] by metis
  have new: "system_paging_entry_new_physical offset s = (Inl (Kpanic ''PAGING: could not allocate physical page for page mapping''), s\<lparr> port_log := l \<rparr>)"
    by (simp add: system_paging_entry_new_physical_def kbind_def alloc l)
  show thesis
  proof (rule that [of l])
    fix set_entry and p and i :: index assume "\<not> present (entries_of offset s p i)"
    then have "load_u64 (memory s) (p + offset + 8 * ucast i) AND SYSTEM_PAGING_AMD64_FLAG_P = 0" by (simp add: present_def entry_at_def)
    then show "paging_level set_entry offset (p + offset + 8 * ucast i) s =
      (Inl (Kpanic ''PAGING: could not allocate physical page for page mapping''), s\<lparr> port_log := l \<rparr>)"
      by (simp add: paging_level_def kbind_def new)
  qed
qed

text \<open>On the path to a page that is not in a large page an entry is either missing or leads to a table.\<close>

lemma next_table_or_missing:
  assumes "unshared E root" "table_at E root path = Some p" "path_of virtual = path @ i # vs" "vs \<noteq> []" "\<not> in_large_page E root virtual"
  shows "next_table E p i = None \<longleftrightarrow> \<not> present (E p i)"
proof -
  have "\<not> large (E p i)" if "present (E p i)"
  proof (cases "path = []")
    case True
    then show ?thesis using assms(1,2) by (simp add: unshared_def)
  next
    case False
    then have "length vs < 3" using arg_cong [OF assms(3), of length] by (cases path) (simp_all add: path_of_def)
    then show ?thesis using mmu_walk_large [OF assms(2) that _ assms(4)] assms(3-5) by (auto simp: in_large_page_def split: option.splits)
  qed
  then show ?thesis by (simp add: next_table_def)
qed

lemma out_of_pages_run:
  fixes s :: "'s paging_scheme"
  assumes ready: "console_ready port s" and inv: "paging_inv xs ys offset root s" and none: "frame_free xs ys s = {}"
    and missing: "table_at (entries_of offset s) root (butlast (path_of virtual)) = None"
    and small: "\<not> in_large_page (entries_of offset s) root virtual" and aligned: "page_aligned virtual" "page_aligned physical"
  shows "\<exists>l. system_paging_map (root + offset) physical virtual flags s =
      (Inl (Kpanic ''PAGING: could not allocate physical page for page mapping''), s\<lparr> port_log := l \<rparr>)"
proof -
  let ?E = "entries_of offset s" and ?i = "\<lambda>n. ucast (drop_bit n virtual) :: index"
  let ?panic = "\<lambda>l. (Inl (Kpanic ''PAGING: could not allocate physical page for page mapping''), s\<lparr> port_log := l \<rparr>)"
  have tree: "unshared ?E root" using inv by (simp add: paging_inv_def)
  obtain l where l: "\<And>set_entry p i. \<not> present (?E p i) \<Longrightarrow> paging_level set_entry offset (p + offset + 8 * ucast i) s = ?panic l"
    using out_of_pages_level [OF ready inv none] by blast
  have path: "path_of virtual = [?i 39, ?i 30, ?i 21, ?i 12]" by (simp add: path_of_def)
  note start = entry_start [OF inv aligned(1)]
  have "system_paging_entry (root + offset) virtual s = ?panic l"
  proof (cases "next_table ?E root (?i 39)")
    case None
    then have "\<not> present (?E root (?i 39))" using next_table_or_missing [OF tree, of "[]" root virtual "?i 39"] path small by simp
    then show ?thesis unfolding start by (intro kbind_run_Inl l)
  next
    case p1: (Some p1)
    show ?thesis
    proof (cases "next_table ?E p1 (?i 30)")
      case None
      then have "\<not> present (?E p1 (?i 30))" using next_table_or_missing [OF tree, of "[?i 39]" p1 virtual "?i 30"] path small p1 by simp
      then show ?thesis unfolding start by (simp add: kbind_def paging_level_present [OF p1] paging_slot_index l)
    next
      case p2: (Some p2)
      then have "next_table ?E p2 (?i 21) = None" using missing p1 path by simp
      then have "\<not> present (?E p2 (?i 21))" using next_table_or_missing [OF tree, of "[?i 39, ?i 30]" p2 virtual "?i 21"] path small p1 p2 by simp
      then show ?thesis
        unfolding start by (simp add: kbind_def paging_level_present [OF p1] paging_level_present [OF p2] paging_slot_index l)
    qed
  qed
  then show ?thesis using aligned by (intro exI [of _ l]) (simp add: system_paging_map_def Let_def kbind_run_Inl)
qed

section \<open>An example\<close>

text \<open>One allocator of sixteen pages from 0x10000 on, of which the first holds its metadata, and an empty first level at 0x8000.\<close>

definition example_allocator :: System_Physical_Allocator where
  "example_allocator = (case system_pa_init (\<lambda>_. 0) 0x10000 1 16 of Inl e \<Rightarrow> pa_zero | Inr pa \<Rightarrow> pa\<lparr> pa_next := 0x100, pa_next_16mb := 0x100, pa_next_4gb := 0x100 \<rparr>)"

definition example_paging :: "bool \<Rightarrow> paging" where
  "example_paging b = kernel.extend quiet_kernel
     \<lparr> allocators = (if \<not> b then [0x100 \<mapsto> pa_zero\<lparr> pa_next := 0x100 \<rparr>]
                    else [0x100 \<mapsto> pa_zero\<lparr> pa_next := 0x100 \<rparr>, 0x200 \<mapsto> example_allocator]),
       list_limit = 3, pa_sentinel = 0x100, setup_base = 0x180, pg_first = 0x200, pg_first_16mb = 0x100, pg_first_4gb = 0x100,
       pg_last = 0x200, pg_last_16mb = 0x180, pg_last_4gb = 0x180, pg_first_non_16mb = (if \<not> b then 0x100 else 0x200) \<rparr>"

lemma example_allocator_ok:
  "frame_ok example_allocator" "pa_next example_allocator = 0x100"
  "card (pa_free_pages example_allocator) = 15" "\<And>p. p \<in> pa_free_pages example_allocator \<Longrightarrow> 0x11000 \<le> p \<and> p < 0x20000"
proof -
  obtain pa where pa: "system_pa_init (\<lambda>_. 0) 0x10000 (int 1) (int 16) = Inr pa" "pa_wf pa" "pa_stacked pa = [1..<16]" "pa_size pa = int 16"
      "address_base pa = 0x10000"
    using pa_init_ok [of 1 16 "0x10000" "\<lambda>_. 0"] by (auto simp: U32_MAX_def SYSTEM_PAGE_SIZE_def pa_metadata_covers_def pa_metadata_size_def)
  then have e: "example_allocator = pa\<lparr> pa_next := 0x100, pa_next_16mb := 0x100, pa_next_4gb := 0x100 \<rparr>" by (simp add: example_allocator_def)
  have links: "pa_stacked example_allocator = pa_stacked pa" "pa_wf example_allocator = pa_wf pa"
    by (simp_all add: e pa_wf_def pa_shape_def pa_stacked_def pa_frees_def pa_used_bit_def)
  show "frame_ok example_allocator" using pa links by (simp add: frame_ok_def pa_small_def e)
  show "pa_next example_allocator = 0x100" by (simp add: e)
  have free: "pa_free_pages example_allocator = (\<lambda>k. 0x10000 + of_nat (k * 4096)) ` {1..<16}"
    using pa links by (simp add: pa_free_pages_def pa_frees_def pa_page_address_def e)
  have u: "unat (0x10000 + of_nat (k * 4096) :: U64) = 0x10000 + k * 4096" if "k < 16" for k
    using that by (simp add: unat_word_ariths unat_of_nat64)
  have "inj_on (\<lambda>k. 0x10000 + of_nat (k * 4096) :: U64) {1..<16}"
  proof (rule inj_onI)
    fix k l :: nat assume "k \<in> {1..<16}" "l \<in> {1..<16}" "0x10000 + of_nat (k * 4096) = (0x10000 + of_nat (l * 4096) :: U64)"
    then show "k = l" using u [of k] u [of l] by simp
  qed
  then show "card (pa_free_pages example_allocator) = 15" unfolding free by (simp add: card_image)
  show "0x11000 \<le> p \<and> p < 0x20000" if "p \<in> pa_free_pages example_allocator" for p
    using that u unfolding free by (auto simp: word_le_nat_alt word_less_nat_alt)
qed

lemma zero_tables:
  assumes "\<And>p i. E p i = 0" "frame root"
  shows "tables E root = {root}" "unshared E root" "mmu_walk E root vs = None"
proof -
  have none: "next_table E p i = None" for p i using assms(1) by (simp add: next_table_def present_def)
  then have "table_at E root xs = (if xs = [] then Some root else None)" for xs by (cases xs) simp_all
  then show "tables E root = {root}" "unshared E root"
    using assms by (auto simp: tables_def unshared_def large_def split: if_splits)
  show "mmu_walk E root vs = None" using assms(1) by (cases vs) (simp_all add: present_def)
qed

lemma example_paging_entries: "entries_of 0xFFFF800000000000 (example_paging b) p i = 0"
  by (simp add: example_paging_def kernel.extend_def entry_at_def load_u64_zero)

lemma example_paging_ok:
  "paging_inv [0x200] [] 0xFFFF800000000000 0x8000 (example_paging True)" "card (frame_free [0x200] [] (example_paging True)) = 15"
  "mmu_walk (entries_of 0xFFFF800000000000 (example_paging b)) 0x8000 vs = None" "console_ready SERIAL_COM1 (example_paging b)"
  "paging_inv [] [] 0xFFFF800000000000 0x8000 (example_paging False)" "frame_free [] [] (example_paging False) = {}"
  "p \<in> frame_free [0x200] [] (example_paging True) \<Longrightarrow> p < 0x20000"
proof -
  note E = example_paging_entries
  have root: "frame 0x8000" by (rule frameI) simp_all
  have free: "frame_free [0x200] [] (example_paging True) = pa_free_pages example_allocator"
    by (simp add: frame_free_def example_paging_def kernel.extend_def)
  then show "card (frame_free [0x200] [] (example_paging True)) = 15" by (simp add: example_allocator_ok)
  show "p \<in> frame_free [0x200] [] (example_paging True) \<Longrightarrow> p < 0x20000" using free example_allocator_ok(4) [of p] by simp
  have apart: "0x8000 \<notin> pa_free_pages example_allocator" using example_allocator_ok(4) [of "0x8000"] by auto
  show "frame_free [] [] (example_paging False) = {}" by (simp add: frame_free_def)
  have "frame_inv [0x200] [] (example_paging True)" "frame_inv [] [] (example_paging False)"
    by (simp_all add: frame_inv_def example_paging_def kernel.extend_def example_allocator_ok)
  moreover have "hhdm_response (example_paging b) = Some (0, 0xFFFF800000000000)" for b by (simp add: example_paging_def kernel.extend_def)
  ultimately show "paging_inv [0x200] [] 0xFFFF800000000000 0x8000 (example_paging True)" "paging_inv [] [] 0xFFFF800000000000 0x8000 (example_paging False)"
    using zero_tables [OF E root] free apart by (simp_all add: paging_inv_def frame_free_def)
  show "mmu_walk (entries_of 0xFFFF800000000000 (example_paging b)) 0x8000 vs = None" by (rule zero_tables(3) [OF E root])
  show "console_ready SERIAL_COM1 (example_paging b)"
    using quiet_kernel_ready by (simp add: console_ready_def transmits_def example_paging_def kernel.extend_def)
qed

section \<open>The properties\<close>

text \<open>(C33) \<^verbatim>\<open>system_paging_map\<close> with three free pages at hand returns, and the processor then translates every address of the page to the
  physical page, and every other address as before. The rights are exactly the requested ones (writable, user, executable) as far as the
  tables above grant them: a table that was there keeps its rights, and one that is created is writable, executable and without user
  access. Only tables of the tree are written, each new one takes a free page, the invariant is kept, and the translation of the page is
  invalidated in the processor.\<close>

theorem system_paging_map_correct:
  assumes "paging_inv xs ys offset root s" and "3 \<le> card (frame_free xs ys s)" and "page_aligned virtual" and "frame physical"
    and "\<not> in_large_page (entries_of offset s) root virtual"
  shows "\<exists>s'. system_paging_map (root + offset) physical virtual flags s = (Inr (), s'\<lparr> invalidated := invalidated s @ [virtual] \<rparr>)
     \<and> paging_inv xs ys offset root s' \<and> only_tables offset root s s'
     \<and> (\<forall>va. mmu_translate (entries_of offset s') root va =
           (if path_of va = path_of virtual
            then Some (physical OR take_bit 12 va,
              access_and (table_rights (entries_of offset s) root (butlast (path_of virtual))) (requested flags))
            else mmu_translate (entries_of offset s) root va))
     \<and> card (tables (entries_of offset s') root) + card (frame_free xs ys s') = card (tables (entries_of offset s) root) + card (frame_free xs ys s)"
  by (rule map_run [OF assms(1,2,5,3,4), where flags = flags]) blast

theorem system_paging_map_correct_witness:
  "\<exists>s'. system_paging_map (0x8000 + 0xFFFF800000000000) 0x123000 0x400000 SYSTEM_PAGING_FLAG_WRITE (example_paging True)
        = (Inr (), s'\<lparr> invalidated := [0x400000] \<rparr>)
     \<and> mmu_translate (entries_of 0xFFFF800000000000 s') 0x8000 0x400042
        = Some (0x123042, \<lparr> writable = True, user = False, executable = False \<rparr>)"
proof -
  have "page_aligned 0x400000" "frame 0x123000" "\<not> in_large_page (entries_of 0xFFFF800000000000 (example_paging True)) 0x8000 0x400000"
    by (simp_all add: page_aligned_def frameI in_large_page_def example_paging_ok)
  moreover have "3 \<le> card (frame_free [0x200] [] (example_paging True))" by (simp add: example_paging_ok)
  ultimately obtain s' where run: "system_paging_map (0x8000 + 0xFFFF800000000000) 0x123000 0x400000 SYSTEM_PAGING_FLAG_WRITE (example_paging True)
        = (Inr (), s'\<lparr> invalidated := invalidated (example_paging True) @ [0x400000] \<rparr>)"
      "\<forall>va. mmu_translate (entries_of 0xFFFF800000000000 s') 0x8000 va =
        (if path_of va = path_of 0x400000
         then Some (0x123000 OR take_bit 12 va, access_and (table_rights (entries_of 0xFFFF800000000000 (example_paging True)) 0x8000
            (butlast (path_of 0x400000))) (requested SYSTEM_PAGING_FLAG_WRITE))
         else mmu_translate (entries_of 0xFFFF800000000000 (example_paging True)) 0x8000 va)"
    using system_paging_map_correct [OF example_paging_ok(1), of "0x400000" "0x123000" SYSTEM_PAGING_FLAG_WRITE] by blast
  have "invalidated (example_paging True) = []" by (simp add: example_paging_def kernel.extend_def quiet_kernel_def machine.extend_def quiet_machine_def)
  moreover have "path_of 0x400042 = path_of 0x400000" "(0x123000 :: U64) OR take_bit 12 0x400042 = 0x123042" by (simp_all add: path_of_def)
  moreover have "table_rights (entries_of 0xFFFF800000000000 (example_paging True)) 0x8000 (butlast (path_of 0x400000)) = new_table_rights"
    by (simp add: path_of_def example_paging_entries present_def)
  moreover have "requested SYSTEM_PAGING_FLAG_WRITE = \<lparr> writable = True, user = False, executable = False \<rparr>"
    by (simp add: requested_def SYSTEM_PAGING_FLAG_WRITE_def bit_BIT)
  ultimately show ?thesis using run by (auto simp: access_and_def new_table_rights_def)
qed

text \<open>(C35) A page mapped for user mode in a part of the address space that had no table of the first level is never accessible in user
  mode: \<^verbatim>\<open>system_paging_entry\<close> creates the tables above it without the user bit, whatever the flags.\<close>

theorem system_paging_map_never_user:
  assumes "paging_inv xs ys offset root s" and "3 \<le> card (frame_free xs ys s)" and "page_aligned virtual" and "frame physical"
    and "\<not> in_large_page (entries_of offset s) root virtual" and "\<not> present (entries_of offset s root (hd (path_of virtual)))"
  shows "\<exists>s' a r. system_paging_map (root + offset) physical virtual flags s = (Inr (), s')
     \<and> mmu_translate (entries_of offset s') root virtual = Some (a, r) \<and> \<not> user r"
proof -
  define r where "r = table_rights (entries_of offset s) root (butlast (path_of virtual))"
  obtain s' where s': "system_paging_map (root + offset) physical virtual flags s = (Inr (), s'\<lparr> invalidated := invalidated s @ [virtual] \<rparr>)"
      "\<And>va. mmu_translate (entries_of offset s') root va =
        (if path_of va = path_of virtual then Some (physical OR take_bit 12 va, access_and r (requested flags))
         else mmu_translate (entries_of offset s) root va)"
    unfolding r_def by (rule map_run [OF assms(1,2,5,3,4), where flags = flags]) blast
  then have "mmu_translate (entries_of offset (s'\<lparr> invalidated := invalidated s @ [virtual] \<rparr>)) root virtual =
      Some (physical OR take_bit 12 virtual, access_and r (requested flags))" by simp
  moreover have "\<not> user (access_and r (requested flags))"
    using assms(6) by (simp add: r_def access_and_def path_of_def new_table_rights_def)
  ultimately show ?thesis using s'(1) by blast
qed

theorem system_paging_map_never_user_witness:
  "\<exists>s' a r. system_paging_map (0x8000 + 0xFFFF800000000000) 0x123000 0x400000 SYSTEM_PAGING_FLAG_USER (example_paging True) = (Inr (), s')
     \<and> mmu_translate (entries_of 0xFFFF800000000000 s') 0x8000 0x400000 = Some (a, r) \<and> \<not> user r"
proof (rule system_paging_map_never_user [OF example_paging_ok(1)])
  show "\<not> present (entries_of 0xFFFF800000000000 (example_paging True) 0x8000 (hd (path_of 0x400000)))"
    by (simp add: example_paging_entries present_def)
qed (use example_paging_ok(2) in \<open>simp_all add: page_aligned_def frameI in_large_page_def example_paging_ok(3)\<close>)

text \<open>(C34) \<^verbatim>\<open>system_paging_unmap\<close> of a mapped page of 4 KiB removes the translation of the page and no other one, allocates nothing and
  invalidates the translation in the processor.\<close>

theorem system_paging_unmap_correct:
  assumes "paging_inv xs ys offset root s" and "page_aligned virtual" and "mmu_walk (entries_of offset s) root (path_of virtual) = Some (a, 0, r)"
  shows "\<exists>s'. system_paging_unmap (root + offset) virtual s = (Inr (), s'\<lparr> invalidated := invalidated s @ [virtual] \<rparr>)
     \<and> paging_inv xs ys offset root s' \<and> only_tables offset root s s' \<and> frame_free xs ys s' = frame_free xs ys s
     \<and> (\<forall>va. mmu_translate (entries_of offset s') root va = (if path_of va = path_of virtual then None else mmu_translate (entries_of offset s) root va))"
  by (rule unmap_run [OF assms]) blast

theorem system_paging_unmap_correct_witness:
  "\<exists>(s :: paging) s'. system_paging_unmap (0x8000 + 0xFFFF800000000000) 0x400000 s = (Inr (), s')
     \<and> mmu_translate (entries_of 0xFFFF800000000000 s) 0x8000 0x400042 \<noteq> None
     \<and> mmu_translate (entries_of 0xFFFF800000000000 s') 0x8000 0x400042 = None"
proof -
  have small: "page_aligned 0x400000" "frame 0x123000" "\<not> in_large_page (entries_of 0xFFFF800000000000 (example_paging True)) 0x8000 0x400000"
      "3 \<le> card (frame_free [0x200] [] (example_paging True))"
    by (simp_all add: page_aligned_def frameI in_large_page_def example_paging_ok)
  define r where "r = table_rights (entries_of 0xFFFF800000000000 (example_paging True)) 0x8000 (butlast (path_of 0x400000))"
  obtain s :: paging where s: "paging_inv [0x200] [] 0xFFFF800000000000 0x8000 s"
      "\<forall>va. mmu_translate (entries_of 0xFFFF800000000000 s) 0x8000 va =
        (if path_of va = path_of 0x400000 then Some (0x123000 OR take_bit 12 va, access_and r (requested 3))
         else mmu_translate (entries_of 0xFFFF800000000000 (example_paging True)) 0x8000 va)"
      "mmu_walk (entries_of 0xFFFF800000000000 s) 0x8000 (path_of 0x400000) = Some (0x123000, 0, access_and r (requested 3))"
    unfolding r_def by (rule map_run [OF example_paging_ok(1) small(4,3,1,2), where flags = 3]) blast
  have same: "path_of 0x400042 = path_of 0x400000" by (simp add: path_of_def)
  obtain s' where s': "system_paging_unmap (0x8000 + 0xFFFF800000000000) 0x400000 s = (Inr (), s'\<lparr> invalidated := invalidated s @ [0x400000] \<rparr>)"
      "mmu_translate (entries_of 0xFFFF800000000000 s') 0x8000 0x400042 = None"
    using system_paging_unmap_correct [OF s(1) small(1) s(3)] same by metis
  then show ?thesis using spec [OF s(2), of "0x400042"] same
    by (intro exI [of _ s] exI [of _ "s'\<lparr> invalidated := invalidated s @ [0x400000] \<rparr>"]) simp
qed

text \<open>(C36) With no free page left a mapping that needs a table, at whichever of the three levels it is missing, ends in a panic, and
  nothing but the console has changed: no table is written.\<close>

theorem system_paging_map_out_of_pages:
  fixes s :: "'s paging_scheme"
  assumes "console_ready port s" and "paging_inv xs ys offset root s" and "frame_free xs ys s = {}"
    and "table_at (entries_of offset s) root (butlast (path_of virtual)) = None" and "\<not> in_large_page (entries_of offset s) root virtual"
    and "page_aligned virtual" and "page_aligned physical"
  shows "\<exists>l. system_paging_map (root + offset) physical virtual flags s =
      (Inl (Kpanic ''PAGING: could not allocate physical page for page mapping''), s\<lparr> port_log := l \<rparr>)"
  by (rule out_of_pages_run [OF assms])

theorem system_paging_map_out_of_pages_witness:
  "\<exists>l. system_paging_map (0x8000 + 0xFFFF800000000000) 0x123000 0x400000 3 (example_paging False) =
      (Inl (Kpanic ''PAGING: could not allocate physical page for page mapping''), (example_paging False)\<lparr> port_log := l \<rparr>)"
proof (rule system_paging_map_out_of_pages [OF example_paging_ok(4,5,6)])
  show "table_at (entries_of 0xFFFF800000000000 (example_paging False)) 0x8000 (butlast (path_of 0x400000)) = None"
    by (simp add: path_of_def next_table_def example_paging_entries present_def)
qed (simp_all add: page_aligned_def in_large_page_def example_paging_ok(3))

end
