(* ===== verification/Kernel_Clone.thy ===== *)
theory Kernel_Clone
  imports Kernel_Translate
begin

text \<open>
  \<^verbatim>\<open>system_paging_table_clone\<close>: the tree of tables is copied into fresh pages, and the processor translates through the copy as through the
  original. \<open>clone_post\<close> says what a part of the copy has done: the part below the entries \<open>S\<close> of one table \<open>p\<close>, which
  is itself a copy. Two such parts compose, and the three nested loops of the code are a recursion over the levels.
\<close>

section \<open>Parts of a tree\<close>

text \<open>The paths to the tables below the entries \<open>S\<close> of \<open>p\<close>, over \<open>n\<close> levels.\<close>

definition below_paths :: "nat \<Rightarrow> index set \<Rightarrow> entries \<Rightarrow> U64 \<Rightarrow> index list set" where
  "below_paths n S E p = {zs. \<exists>j xs. zs = j # xs \<and> j \<in> S \<and> length xs < n \<and> table_at E p zs \<noteq> None}"

definition below_tables :: "nat \<Rightarrow> index set \<Rightarrow> entries \<Rightarrow> U64 \<Rightarrow> U64 set" where
  "below_tables n S E p = {r. \<exists>j xs. j \<in> S \<and> length xs < n \<and> table_at E p (j # xs) = Some r}"

lemma below_tablesI: "j \<in> S \<Longrightarrow> length xs < n \<Longrightarrow> table_at E p (j # xs) = Some r \<Longrightarrow> r \<in> below_tables n S E p"
  unfolding below_tables_def by blast

lemma table_at_cong:
  "(\<And>ys i zs r. xs = ys @ i # zs \<Longrightarrow> table_at E p ys = Some r \<Longrightarrow> E' r i = E r i) \<Longrightarrow> table_at E' p xs = table_at E p xs"
proof (induction xs arbitrary: p)
  case (Cons i xs)
  have e: "E' p i = E p i" using Cons.prems [of "[]" i xs p] by simp
  then have nt: "next_table E' p i = next_table E p i" by (simp add: next_table_def)
  show ?case
  proof (cases "next_table E p i")
    case (Some q)
    have "table_at E' q xs = table_at E q xs"
    proof (rule Cons.IH)
      fix ys j zs r assume "xs = ys @ j # zs" "table_at E q ys = Some r"
      then show "E' r j = E r j" using Cons.prems [of "i # ys" j zs r] Some by simp
    qed
    then show ?thesis using nt Some by simp
  qed (simp add: nt)
qed simp

text \<open>Entries of \<open>p'\<close> that agree with those of \<open>p\<close> on \<open>S\<close>, and on every table below, give the same tables and the same walks.\<close>

lemma row_agree:
  assumes "\<And>j. j \<in> S \<Longrightarrow> E' p' j = E p j" "\<And>r j. r \<in> below_tables n S E p \<Longrightarrow> E' r j = E r j" "j \<in> S"
  shows "length xs < n \<Longrightarrow> table_at E' p' (j # xs) = table_at E p (j # xs)" "length vs = n \<Longrightarrow> mmu_walk E' p' (j # vs) = mmu_walk E p (j # vs)"
proof -
  have e: "E' p' j = E p j" using assms(1,3) by blast
  then have nt: "next_table E' p' j = next_table E p j" by (simp add: next_table_def)
  have key: "E' r i = E r i" if "next_table E p j = Some r1" "xs = ys @ i # zs" "table_at E r1 ys = Some r" "length xs \<le> n" for xs ys i zs r r1
    using that assms(3) by (intro assms(2) below_tablesI [of j _ ys]) auto
  have tables: "table_at E' r1 xs = table_at E r1 xs" if "next_table E p j = Some r1" "length xs < n" for r1 xs
    by (rule table_at_cong) (rule key [OF that(1), of xs], use that(2) in auto)
  show "length xs < n \<Longrightarrow> table_at E' p' (j # xs) = table_at E p (j # xs)" using nt tables by (cases "next_table E p j") simp_all
  have walks: "mmu_walk E' (page_of (E p j)) vs = mmu_walk E (page_of (E p j)) vs" if "present (E p j)" "\<not> large (E p j)" "length vs = n"
  proof -
    have "next_table E p j = Some (page_of (E p j))" using that by (simp add: next_table_def)
    then show ?thesis using that(3) by (intro mmu_walk_cong) (rule key [of _ vs], auto)
  qed
  show "length vs = n \<Longrightarrow> mmu_walk E' p' (j # vs) = mmu_walk E p (j # vs)" using walks unfolding mmu_walk.simps e Let_def by (simp cong: if_cong)
qed

lemmas below_agree = row_agree [where p' = p and p = p for p]

lemma below_tables_agree:
  assumes "\<And>j. j \<in> S \<Longrightarrow> E' p j = E p j" "\<And>r j. r \<in> below_tables n S E p \<Longrightarrow> E' r j = E r j"
  shows "below_tables n S E' p = below_tables n S E p" "below_paths n S E' p = below_paths n S E p"
proof -
  have agree: "j \<in> S \<Longrightarrow> length xs < n \<Longrightarrow> table_at E' p (j # xs) = table_at E p (j # xs)" for j xs
    using below_agree(1) [of S E' p E n, OF assms] by blast
  show "below_tables n S E' p = below_tables n S E p" "below_paths n S E' p = below_paths n S E p"
    unfolding below_tables_def below_paths_def by (intro Collect_cong ex_cong1; metis agree)+
qed

lemma finite_below_paths: "finite (below_paths n S E p)"
proof (rule finite_subset)
  show "below_paths n S E p \<subseteq> {zs. set zs \<subseteq> UNIV \<and> length zs \<le> n}" by (auto simp: below_paths_def)
  show "finite {zs :: index list. set zs \<subseteq> UNIV \<and> length zs \<le> n}" by (rule finite_lists_length_le) simp
qed

lemma below_tables_frame: "r \<in> below_tables n S E p \<Longrightarrow> frame r"
  by (auto simp: below_tables_def bind_eq_Some_conv dest!: table_at_frame next_table_frame)

section \<open>What a part of the copy has done\<close>

definition clone_pre :: "nat \<Rightarrow> index set \<Rightarrow> U64 \<Rightarrow> ptr list \<Rightarrow> ptr list \<Rightarrow> U64 \<Rightarrow> 's paging_scheme \<Rightarrow> bool" where
  "clone_pre n S offset xs ys p s \<longleftrightarrow>
     frame_inv xs ys s \<and> frame p \<and> p \<notin> frame_free xs ys s
     \<and> below_tables n S (entries_of offset s) p \<inter> insert p (frame_free xs ys s) = {}
     \<and> card (below_paths n S (entries_of offset s) p) \<le> card (frame_free xs ys s)"

definition same_flags :: "U64 \<Rightarrow> U64 \<Rightarrow> bool" where
  "same_flags e e' \<longleftrightarrow> present e' = present e \<and> large e' = large e \<and> access_of e' = access_of e"

definition clone_post :: "nat \<Rightarrow> index set \<Rightarrow> U64 \<Rightarrow> ptr list \<Rightarrow> ptr list \<Rightarrow> U64 \<Rightarrow> 's paging_scheme \<Rightarrow> 's paging_scheme \<Rightarrow> bool" where
  "clone_post n S offset xs ys p s u \<longleftrightarrow>
     frame_inv xs ys u \<and> u = s\<lparr> memory := memory u, allocators := allocators u \<rparr>
     \<and> frame_free xs ys u \<subseteq> frame_free xs ys s
     \<and> card (frame_free xs ys s) = card (frame_free xs ys u) + card (below_paths n S (entries_of offset s) p)
     \<and> (\<forall>r j. frame r \<longrightarrow> r \<notin> frame_free xs ys s \<longrightarrow> r \<noteq> p \<or> j \<notin> S \<longrightarrow> entries_of offset u r j = entries_of offset s r j)
     \<and> (\<forall>j \<in> S. same_flags (entries_of offset s p j) (entries_of offset u p j)
          \<and> (\<forall>vs. length vs = n \<longrightarrow> mmu_walk (entries_of offset u) p (j # vs) = mmu_walk (entries_of offset s) p (j # vs)))
     \<and> below_tables n S (entries_of offset u) p \<subseteq> frame_free xs ys s - frame_free xs ys u
     \<and> (\<forall>j k zs ws r. j \<in> S \<longrightarrow> k \<in> S \<longrightarrow> length zs < n \<longrightarrow> length ws < n \<longrightarrow> table_at (entries_of offset u) p (j # zs) = Some r \<longrightarrow>
          table_at (entries_of offset u) p (k # ws) = Some r \<longrightarrow> j # zs = k # ws)"

lemma clone_postD:
  assumes "clone_post n S offset xs ys p s u"
  shows "frame_inv xs ys u" "u = s\<lparr> memory := memory u, allocators := allocators u \<rparr>" "frame_free xs ys u \<subseteq> frame_free xs ys s"
    "card (frame_free xs ys s) = card (frame_free xs ys u) + card (below_paths n S (entries_of offset s) p)"
    "\<And>r j. frame r \<Longrightarrow> r \<notin> frame_free xs ys s \<Longrightarrow> r \<noteq> p \<or> j \<notin> S \<Longrightarrow> entries_of offset u r j = entries_of offset s r j"
    "\<And>j. j \<in> S \<Longrightarrow> same_flags (entries_of offset s p j) (entries_of offset u p j)"
    "\<And>j vs. j \<in> S \<Longrightarrow> length vs = n \<Longrightarrow> mmu_walk (entries_of offset u) p (j # vs) = mmu_walk (entries_of offset s) p (j # vs)"
    "below_tables n S (entries_of offset u) p \<subseteq> frame_free xs ys s - frame_free xs ys u"
    "\<And>j k zs ws r. j \<in> S \<Longrightarrow> k \<in> S \<Longrightarrow> length zs < n \<Longrightarrow> length ws < n \<Longrightarrow> table_at (entries_of offset u) p (j # zs) = Some r \<Longrightarrow>
          table_at (entries_of offset u) p (k # ws) = Some r \<Longrightarrow> j # zs = k # ws"
  using assms unfolding clone_post_def by (elim conjE; assumption | simp)+

lemma below_mono: "S \<subseteq> T \<Longrightarrow> below_tables n S E p \<subseteq> below_tables n T E p" "S \<subseteq> T \<Longrightarrow> below_paths n S E p \<subseteq> below_paths n T E p"
  by (auto simp: below_tables_def below_paths_def)

lemma below_Un:
  "below_tables n (S \<union> T) E p = below_tables n S E p \<union> below_tables n T E p"
  "below_paths n (S \<union> T) E p = below_paths n S E p \<union> below_paths n T E p"
  by (auto simp: below_tables_def below_paths_def)

lemma card_below_Un:
  assumes "S \<inter> T = {}"
  shows "card (below_paths n (S \<union> T) E p) = card (below_paths n S E p) + card (below_paths n T E p)"
proof -
  have "below_paths n S E p \<inter> below_paths n T E p = {}" using assms by (auto simp: below_paths_def)
  then show ?thesis unfolding below_Un by (intro card_Un_disjoint finite_below_paths)
qed

text \<open>After the part \<open>S\<close>, the part \<open>T\<close> is still to be done as before.\<close>

lemma clone_pre_next:
  assumes pre: "clone_pre n (S \<union> T) offset xs ys p s" and disj: "S \<inter> T = {}" and post: "clone_post n S offset xs ys p s t"
  shows "clone_pre n T offset xs ys p t"
    "\<And>j vs. j \<in> T \<Longrightarrow> length vs = n \<Longrightarrow> mmu_walk (entries_of offset t) p (j # vs) = mmu_walk (entries_of offset s) p (j # vs)"
    "\<And>j. j \<in> T \<Longrightarrow> entries_of offset t p j = entries_of offset s p j"
    "below_paths n T (entries_of offset t) p = below_paths n T (entries_of offset s) p"
proof -
  note a = clone_postD [OF post]
  have p: "frame p" "p \<notin> frame_free xs ys s" and apart: "below_tables n T (entries_of offset s) p \<inter> insert p (frame_free xs ys s) = {}"
    using pre unfolding clone_pre_def below_Un by auto
  show e: "entries_of offset t p j = entries_of offset s p j" if "j \<in> T" for j using a(5) [OF p] disj that by blast
  have r: "entries_of offset t r j = entries_of offset s r j" if "r \<in> below_tables n T (entries_of offset s) p" for r j
    using a(5) [OF below_tables_frame [OF that]] apart that by blast
  note agree = below_agree [of T "entries_of offset t" p "entries_of offset s" n, OF e r]
    and tables = below_tables_agree [of T "entries_of offset t" p "entries_of offset s" n, OF e r]
  show "\<And>j vs. j \<in> T \<Longrightarrow> length vs = n \<Longrightarrow> mmu_walk (entries_of offset t) p (j # vs) = mmu_walk (entries_of offset s) p (j # vs)"
    using agree(2) by blast
  show paths: "below_paths n T (entries_of offset t) p = below_paths n T (entries_of offset s) p" by (rule tables(2))
  have "card (below_paths n T (entries_of offset s) p) \<le> card (frame_free xs ys t)"
    using pre a(4) unfolding clone_pre_def card_below_Un [OF disj] by linarith
  then show "clone_pre n T offset xs ys p t"
    unfolding clone_pre_def using a(1,3) p apart paths tables(1) by auto
qed

lemma clone_post_trans:
  assumes pre: "clone_pre n (S \<union> T) offset xs ys p s" and disj: "S \<inter> T = {}"
    and post1: "clone_post n S offset xs ys p s t" and post2: "clone_post n T offset xs ys p t u"
  shows "clone_post n (S \<union> T) offset xs ys p s u"
proof -
  let ?Es = "entries_of offset s" and ?Et = "entries_of offset t" and ?Eu = "entries_of offset u"
  let ?Fs = "frame_free xs ys s" and ?Ft = "frame_free xs ys t" and ?Fu = "frame_free xs ys u"
  note a = clone_postD [OF post1] and b = clone_postD [OF post2] and mid = clone_pre_next [OF pre disj post1]
  have p: "frame p" "p \<notin> ?Fs" "p \<notin> ?Ft" using pre a(3) unfolding clone_pre_def by auto
  have done_p: "?Eu p j = ?Et p j" if "j \<in> S" for j using b(5) [OF p(1,3)] disj that by blast
  have done_r: "?Eu r j = ?Et r j" if r: "r \<in> below_tables n S ?Et p" for r j
  proof -
    have "r \<in> ?Fs - ?Ft" using a(8) r by blast
    then show ?thesis using b(5) [OF below_tables_frame [OF r]] p(2) by blast
  qed
  note kept = below_agree [of S ?Eu p ?Et n, OF done_p done_r] and kept_tables = below_tables_agree [of S ?Eu p ?Et n, OF done_p done_r]
  have same_table: "table_at ?Eu p (j # zs) = table_at ?Et p (j # zs)" if "j \<in> S" "length zs < n" for j zs using kept(1) that by blast
  have same_walk: "mmu_walk ?Eu p (j # vs) = mmu_walk ?Et p (j # vs)" if "j \<in> S" "length vs = n" for j vs using kept(2) that by blast
  have "u = s\<lparr> memory := memory u, allocators := allocators u \<rparr>" by (subst b(2), subst a(2)) simp
  moreover have "card ?Fs = card ?Fu + card (below_paths n (S \<union> T) ?Es p)"
    using a(4) b(4) mid(4) card_below_Un [OF disj] by simp
  moreover have "?Eu r j = ?Es r j" if "frame r" "r \<notin> ?Fs" "r \<noteq> p \<or> j \<notin> S \<union> T" for r j
    using a(5) [of r j] b(5) [of r j] a(3) that by auto
  moreover have "same_flags (?Es p j) (?Eu p j) \<and> (\<forall>vs. length vs = n \<longrightarrow> mmu_walk ?Eu p (j # vs) = mmu_walk ?Es p (j # vs))"
    if "j \<in> S \<union> T" for j
  proof (cases "j \<in> S")
    case True
    then show ?thesis using a(6,7) done_p same_walk by (simp del: mmu_walk.simps)
  next
    case False
    then show ?thesis using that b(6,7) mid(2,3) by (simp del: mmu_walk.simps)
  qed
  moreover have "below_tables n (S \<union> T) ?Eu p \<subseteq> ?Fs - ?Fu"
  proof -
    have "below_tables n S ?Eu p = below_tables n S ?Et p" by (rule kept_tables(1))
    then show ?thesis using a(3,8) b(3,8) unfolding below_Un by blast
  qed
  moreover have "j # zs = k # ws" if j: "j \<in> S \<union> T" "k \<in> S \<union> T" and len: "length zs < n" "length ws < n"
      and at: "table_at ?Eu p (j # zs) = Some r" "table_at ?Eu p (k # ws) = Some r" for j k zs ws r
  proof -
    have s_old: "r \<notin> ?Ft" if "j \<in> S" "length zs < n" "table_at ?Eu p (j # zs) = Some r" for j zs
      using below_tablesI [OF that(1,2)] that a(8) same_table by fastforce
    have t_new: "r \<in> ?Ft" if "j \<in> T" "length zs < n" "table_at ?Eu p (j # zs) = Some r" for j zs
      using below_tablesI [OF that] b(8) by blast
    show ?thesis
    proof (cases "j \<in> S")
      case True
      then have "k \<in> S" using s_old [of j zs] t_new [of k ws] j len at by blast
      then show ?thesis using a(9) [of j k zs ws r] True len at same_table by metis
    next
      case False
      then have "j \<in> T" "k \<in> T" using s_old [of k ws] t_new [of j zs] j len at by blast+
      then show ?thesis using b(9) [of j k zs ws r] len at by blast
    qed
  qed
  ultimately show ?thesis unfolding clone_post_def using b(1,3) a(3) by (intro conjI) blast+
qed

lemma clone_post_skip:
  assumes pre: "clone_pre n {i} offset xs ys p s" and skip: "next_table (entries_of offset s) p i = None"
  shows "clone_post n {i} offset xs ys p s s"
proof -
  have none: "table_at (entries_of offset s) p (i # zs) = None" for zs using skip by simp
  then have "below_tables n {i} (entries_of offset s) p = {}" "below_paths n {i} (entries_of offset s) p = {}"
    by (auto simp: below_tables_def below_paths_def simp del: table_at.simps)
  then show ?thesis using pre none unfolding clone_post_def clone_pre_def same_flags_def by (auto simp del: table_at.simps)
qed

section \<open>Copying a page\<close>

lemma memcpy_run_page:
  assumes "frame p" "frame q" "p \<noteq> q"
  shows "kbind (memcpy_run (q + offset) (p + offset) (word_of_int SYSTEM_PAGE_SIZE)) f s = f () (s\<lparr> memory := copied (memory s) (q + offset) (p + offset) 4096 \<rparr>)"
proof -
  have "q + offset + of_nat j \<noteq> p + offset + of_nat j'" if "j < 4096" "j' < 4096" for j j' :: nat
  proof -
    have "in_region (q + offset) 4096 (q + offset + of_nat j)" using that in_region_of_nat [of j "q + offset" 4096] by simp
    moreover have "\<not> in_region (offset + q) 4096 (offset + p + of_nat j')"
      using frame_apart [OF assms] frame_apart [OF assms(2,1)] assms(3) that(2) by (intro apart_not_in_region) auto
    ultimately show ?thesis by (metis add.commute)
  qed
  then have "copy_up (memory s) (q + offset) (p + offset) 0 4096 = copied (memory s) (q + offset) (p + offset) 4096"
    using copy_up_spec [of 4096 "q + offset" "p + offset" 0 4096 "memory s"] by (simp add: copied_def in_region_def)
  moreover have "unat (word_of_int SYSTEM_PAGE_SIZE :: U64) = 4096" by (simp add: SYSTEM_PAGE_SIZE_def)
  ultimately show ?thesis by (simp add: memcpy_run_def memcpy_def kmodify_def kbind_def)
qed

lemma entry_at_copied:
  assumes "frame r" "frame q"
  shows "entry_at (copied m (q + offset) (p + offset) 4096) offset r j = entry_at m offset (if r = q then p else r) j"
proof (cases "r = q")
  case True
  have "copied m (q + offset) (p + offset) 4096 (q + offset + 8 * ucast j + of_nat k) = m (p + offset + 8 * ucast j + of_nat k)" if "k < 8" for k
    using slot_in_page [OF that, of q offset j] unfolding slot_add copied_def by (simp only: if_True add_diff_cancel_left')
  then have "load_u64 (copied m (q + offset) (p + offset) 4096) (q + offset + 8 * ucast j) = load_u64 m (p + offset + 8 * ucast j)"
    unfolding load_u64_def by (intro load_le_cong) simp_all
  then show ?thesis using True by (simp add: entry_at_def)
next
  case False
  then show ?thesis
    unfolding entry_at_def by (simp, intro load_u64_cong) (simp add: copied_def slot_other_page [OF assms])
qed

lemma update_address:
  assumes "frame q"
  shows "system_paging_table_entry_update_address e q = kret ((e AND NOT SYSTEM_PAGING_AMD64_FLAG_ADDRESS) OR q)"
    and "same_flags e ((e AND NOT SYSTEM_PAGING_AMD64_FLAG_ADDRESS) OR q)" "page_of ((e AND NOT SYSTEM_PAGING_AMD64_FLAG_ADDRESS) OR q) = q"
proof -
  have "q AND SYSTEM_PAGING_AMD64_FLAG_ADDRESS = q" using assms by (simp add: frame_def page_of_def)
  then show "system_paging_table_entry_update_address e q = kret ((e AND NOT SYSTEM_PAGING_AMD64_FLAG_ADDRESS) OR q)"
    using frame_aligned [OF assms] by (simp add: system_paging_table_entry_update_address_def Let_def fun_eq_iff)
  have q: "bit q k \<Longrightarrow> 12 \<le> k \<and> k < 48" for k using assms bit_page_of [of q k] by (simp add: frame_def)
  have bits: "bit ((e AND NOT SYSTEM_PAGING_AMD64_FLAG_ADDRESS) OR q) k \<longleftrightarrow> (if 12 \<le> k \<and> k < 48 then bit q k else bit e k)" if "k < 64" for k
    using q [of k] that by (auto simp: bit_simps bit_flag_address)
  show "same_flags e ((e AND NOT SYSTEM_PAGING_AMD64_FLAG_ADDRESS) OR q)"
    using bits by (simp add: same_flags_def flag_bits)
  have "bit (page_of ((e AND NOT SYSTEM_PAGING_AMD64_FLAG_ADDRESS) OR q)) k = bit q k" if "k < 64" for k
    using bits [OF that] q [of k] unfolding bit_page_of by auto
  then show "page_of ((e AND NOT SYSTEM_PAGING_AMD64_FLAG_ADDRESS) OR q) = q" by (intro bit_word_eqI) simp
qed

lemma alloc_page:
  assumes "frame_inv xs ys s" "frame_free xs ys s \<noteq> {}"
  obtains q A where "system_paging_physical_alloc SYSTEM_PHYSICAL_PAGE_NORMAL s = (Inr (q, True), s\<lparr> allocators := A \<rparr>)"
    "q \<in> frame_free xs ys s" "frame_inv xs ys (s\<lparr> allocators := A \<rparr>)" "frame_free xs ys (s\<lparr> allocators := A \<rparr>) = frame_free xs ys s - {q}"
proof -
  obtain q s' where q: "taken (set xs \<union> set ys) s q s'" "system_paging_physical_alloc SYSTEM_PHYSICAL_PAGE_NORMAL s = (Inr (q, True), s')"
    using physical_alloc_normal [OF assms(1)] assms(2) by blast
  obtain A where A: "s' = s\<lparr> allocators := A \<rparr>" using frame_inv_taken [OF assms(1) q(1)] by blast
  show thesis by (rule that [of q A]) (use frame_inv_taken [OF assms(1) q(1)] q(2) A in simp_all)
qed

lemma page_clone_run:
  assumes inv: "frame_inv xs ys s" "frame_free xs ys s \<noteq> {}" and p: "frame p" "p \<notin> frame_free xs ys s"
  obtains q t where "system_paging_page_clone (p + offset) offset s = (Inr \<lparr> physical_address = q, virtual_address = q + offset \<rparr>, t)"
    "q \<in> frame_free xs ys s" "frame_inv xs ys t" "frame_free xs ys t = frame_free xs ys s - {q}"
    "t = s\<lparr> memory := memory t, allocators := allocators t \<rparr>"
    "\<And>r j. frame r \<Longrightarrow> entries_of offset t r j = entries_of offset s (if r = q then p else r) j"
    "\<And>a. \<not> in_region (q + offset) 4096 a \<Longrightarrow> memory t a = memory s a"
proof -
  obtain q A where q: "system_paging_physical_alloc SYSTEM_PHYSICAL_PAGE_NORMAL s = (Inr (q, True), s\<lparr> allocators := A \<rparr>)"
      "q \<in> frame_free xs ys s" "frame_inv xs ys (s\<lparr> allocators := A \<rparr>)" "frame_free xs ys (s\<lparr> allocators := A \<rparr>) = frame_free xs ys s - {q}"
    by (rule alloc_page [OF inv])
  have fq: "frame q" and pq: "p \<noteq> q" using frame_free_frame [OF inv(1) q(2)] p(2) q(2) by auto
  define t where "t = s\<lparr> allocators := A, memory := copied (memory s) (q + offset) (p + offset) 4096 \<rparr>"
  have "system_paging_page_clone (p + offset) offset s = (Inr \<lparr> physical_address = q, virtual_address = q + offset \<rparr>, t)"
    unfolding system_paging_page_clone_def
      kbind_run [where m = "system_paging_physical_alloc SYSTEM_PHYSICAL_PAGE_NORMAL" and s = s, OF q(1)] prod.case
    by (simp add: memcpy_run_page [OF p(1) fq pq] t_def)
  moreover have "frame_inv xs ys t" "frame_free xs ys t = frame_free xs ys s - {q}" "t = s\<lparr> memory := memory t, allocators := allocators t \<rparr>"
    using q(3,4) by (simp_all add: t_def)
  moreover have "entries_of offset t r j = entries_of offset s (if r = q then p else r) j" if "frame r" for r j
    using entry_at_copied [OF that fq] by (simp add: t_def)
  moreover have "memory t a = memory s a" if "\<not> in_region (q + offset) 4096 a" for a using that by (simp add: t_def copied_def)
  ultimately show thesis using that [of q t] q(2) by blast
qed

lemma page_entry_clone_run:
  fixes i :: index
  assumes inv: "frame_inv xs ys s" "frame_free xs ys s \<noteq> {}" and p: "frame p" "p \<notin> frame_free xs ys s"
    and old: "page_of (entries_of offset s p i) \<notin> frame_free xs ys s"
  obtains q t where "system_paging_table_page_entry_clone (p + offset + 8 * ucast i) offset s = (Inr (q + offset), t)"
    "q \<in> frame_free xs ys s" "frame_inv xs ys t" "frame_free xs ys t = frame_free xs ys s - {q}"
    "t = s\<lparr> memory := memory t, allocators := allocators t \<rparr>"
    "\<And>r j. frame r \<Longrightarrow> r \<noteq> q \<Longrightarrow> r \<noteq> p \<or> j \<noteq> i \<Longrightarrow> entries_of offset t r j = entries_of offset s r j"
    "\<And>j. entries_of offset t q j = entries_of offset s (page_of (entries_of offset s p i)) j"
    "same_flags (entries_of offset s p i) (entries_of offset t p i)" "page_of (entries_of offset t p i) = q"
proof -
  let ?e = "entries_of offset s p i"
  obtain q u where q: "system_paging_page_clone (page_of ?e + offset) offset s = (Inr \<lparr> physical_address = q, virtual_address = q + offset \<rparr>, u)"
    "q \<in> frame_free xs ys s" "frame_inv xs ys u" "frame_free xs ys u = frame_free xs ys s - {q}"
    "u = s\<lparr> memory := memory u, allocators := allocators u \<rparr>"
    "\<And>r j. frame r \<Longrightarrow> entries_of offset u r j = entries_of offset s (if r = q then page_of ?e else r) j"
    by (rule page_clone_run [OF inv frame_page_of old]) blast
  have fq: "frame q" and pq: "p \<noteq> q" using frame_free_frame [OF inv(1) q(2)] p(2) q(2) by auto
  define e' where "e' = (?e AND NOT SYSTEM_PAGING_AMD64_FLAG_ADDRESS) OR q"
  define t where "t = u\<lparr> memory := store_u64 (memory u) (p + offset + 8 * ucast i) e' \<rparr>"
  have E: "entries_of offset t r j = (if r = p \<and> j = i then e' else entries_of offset s (if r = q then page_of ?e else r) j)" if "frame r" for r j
    using entry_at_store [OF p(1) that] q(6) [OF that] by (simp add: t_def)
  have "load_u64 (memory u) (p + offset + 8 * ucast i) = ?e" using q(6) [OF p(1), of i] pq by (simp add: entry_at_def)
  moreover have "page_of ?e = load_u64 (memory s) (p + offset + 8 * ucast i) AND SYSTEM_PAGING_AMD64_FLAG_ADDRESS"
    by (simp add: entry_at_def page_of_def)
  ultimately have "system_paging_table_page_entry_clone (p + offset + 8 * ucast i) offset s = (Inr (q + offset), t)"
    using q(1) by (simp add: system_paging_table_page_entry_clone_def Let_def kbind_run [where m = "system_paging_page_clone _ _"] t_def e'_def update_address(1) [OF fq])
  moreover have "frame_inv xs ys t" "frame_free xs ys t = frame_free xs ys s - {q}" using q(3,4) by (simp_all add: t_def)
  moreover have "t = s\<lparr> memory := memory t, allocators := allocators t \<rparr>" unfolding t_def by (subst (1) q(5)) simp
  moreover have "entries_of offset t p i = e'" using E [OF p(1)] by simp
  moreover have "same_flags ?e e'" "page_of e' = q" using update_address(2,3) [OF fq] by (simp_all add: e'_def)
  moreover have "entries_of offset t r j = entries_of offset s r j" if "frame r" "r \<noteq> q" "r \<noteq> p \<or> j \<noteq> i" for r j
    using E [OF that(1), of j] that(2,3) by auto
  moreover have "entries_of offset t q j = entries_of offset s (page_of ?e) j" for j using E [OF fq, of j] pq by simp
  ultimately show thesis using that [of q t] q(2) by simp
qed

section \<open>The loops\<close>

text \<open>The three nested loops of \<^verbatim>\<open>system_paging_table_clone\<close>, with \<open>n\<close> levels below the table. The first level does not test for large pages.\<close>

fun clone_entries :: "nat \<Rightarrow> U64 \<Rightarrow> ptr \<Rightarrow> ('s paging_scheme, unit) krun" where
  "clone_entries 0 offset table = kret ()"
| "clone_entries (Suc n) offset table =
     kfor 0 512 (\<lambda>i.
       kbind (peek64 (table + 8 * of_nat i)) (\<lambda>e.
       if \<not> (e AND SYSTEM_PAGING_AMD64_FLAG_P \<noteq> 0) then kret ()
       else if n \<noteq> 2 \<and> e AND SYSTEM_PAGING_AMD64_FLAG_PS \<noteq> 0 then kret ()
       else kbind (system_paging_table_page_entry_clone (table + 8 * of_nat i) offset) (clone_entries n offset)))"

lemma table_clone_levels:
  "system_paging_table_clone table =
     kbind hhdm_offset (\<lambda>offset.
     kbind (system_paging_page_clone table offset) (\<lambda>cloned_table_address.
     kbind (clone_entries 3 offset (virtual_address cloned_table_address)) (\<lambda>_. kret cloned_table_address)))"
proof -
  have entries: "nat (SYSTEM_PAGE_SIZE sdiv size_of_U64) = 512" by (simp add: SYSTEM_PAGE_SIZE_def size_of_U64_def)
  have zero: "clone_entries 0 offset = (\<lambda>table. kret ())" for offset by (rule ext) simp
  have suc: "clone_entries (Suc n) offset = (\<lambda>table. kfor 0 512 (\<lambda>i.
       kbind (peek64 (table + 8 * of_nat i)) (\<lambda>e.
       if \<not> (e AND SYSTEM_PAGING_AMD64_FLAG_P \<noteq> 0) then kret ()
       else if n \<noteq> 2 \<and> e AND SYSTEM_PAGING_AMD64_FLAG_PS \<noteq> 0 then kret ()
       else kbind (system_paging_table_page_entry_clone (table + 8 * of_nat i) offset) (clone_entries n offset))))" for n offset
    by (rule ext) simp
  have levels: "Suc (Suc 0) \<noteq> 2 \<longleftrightarrow> False" "Suc 0 \<noteq> 2 \<longleftrightarrow> True" "(0 :: nat) \<noteq> 2 \<longleftrightarrow> True" by simp_all
  show ?thesis unfolding system_paging_table_clone_def Let_def numeral_3_eq_3 suc zero entries levels simp_thms if_False ..
qed

lemma clone_pre_mono:
  assumes "clone_pre n T offset xs ys p s" "S \<subseteq> T"
  shows "clone_pre n S offset xs ys p s"
proof -
  have "card (below_paths n S (entries_of offset s) p) \<le> card (below_paths n T (entries_of offset s) p)"
    by (rule card_mono [OF finite_below_paths below_mono(2) [OF assms(2)]])
  then show ?thesis using assms(1) below_mono(1) [OF assms(2), of n "entries_of offset s" p] unfolding clone_pre_def by auto
qed

lemma same_flags_trans: "same_flags a b \<Longrightarrow> same_flags b c \<Longrightarrow> same_flags a c"
  by (simp add: same_flags_def)

lemma index_slot: "i < 512 \<Longrightarrow> 8 * (of_nat i :: U64) = 8 * ucast (of_nat i :: index)" "i < 512 \<Longrightarrow> unat (of_nat i :: index) = i"
proof -
  assume "i < 512"
  then show u: "unat (of_nat i :: index) = i" by (simp add: unsigned_of_nat take_bit_nat_eq_self_iff)
  show "8 * (of_nat i :: U64) = 8 * ucast (of_nat i :: index)" using slot_offset [of "of_nat i"] unfolding u by simp
qed

lemma walk_through:
  "next_table E p i = Some q \<Longrightarrow> vs \<noteq> [] \<Longrightarrow>
   mmu_walk E p (i # vs) = map_option (\<lambda>(a, n, r). (a, n, access_and (access_of (E p i)) r)) (mmu_walk E q vs)"
  by (auto simp: next_table_def Let_def split: option.splits if_splits)

text \<open>One entry: the table it points to is copied, and everything below it.\<close>

lemma below_paths_step:
  assumes "next_table E p i = Some r0"
  shows "below_paths (Suc n) {i} E p = insert [i] (Cons i ` below_paths n UNIV E r0)"
    "below_tables (Suc n) {i} E p = insert r0 (below_tables n UNIV E r0)"
proof -
  have at: "table_at E p (i # zs) = table_at E r0 zs" for zs using assms by simp
  show "below_paths (Suc n) {i} E p = insert [i] (Cons i ` below_paths n UNIV E r0)"
  proof (rule set_eqI)
    fix zs
    show "zs \<in> below_paths (Suc n) {i} E p \<longleftrightarrow> zs \<in> insert [i] (Cons i ` below_paths n UNIV E r0)"
    proof (cases zs)
      case (Cons j ws)
      then show ?thesis using at by (cases ws) (auto simp: below_paths_def simp del: table_at.simps(2))
    qed (auto simp: below_paths_def)
  qed
  show "below_tables (Suc n) {i} E p = insert r0 (below_tables n UNIV E r0)"
  proof (rule set_eqI)
    fix r
    have "r \<in> below_tables (Suc n) {i} E p \<longleftrightarrow> (\<exists>zs. length zs \<le> n \<and> table_at E r0 zs = Some r)"
      by (auto simp: below_tables_def at less_Suc_eq_le simp del: table_at.simps(2))
    also have "\<dots> \<longleftrightarrow> r \<in> insert r0 (below_tables n UNIV E r0)" (is "?l \<longleftrightarrow> ?r")
    proof
      assume ?l
      then obtain zs where zs: "length zs \<le> n" "table_at E r0 zs = Some r" by blast
      show ?r
      proof (cases zs)
        case Nil
        then show ?thesis using zs by simp
      next
        case (Cons j ws)
        then show ?thesis using zs below_tablesI [of j UNIV ws n E r0 r] by simp
      qed
    next
      assume r: ?r
      show ?l
      proof (cases "r = r0")
        case True
        then show ?thesis by (intro exI [of _ "[]"]) simp
      next
        case False
        then obtain j zs where "length zs < n" "table_at E r0 (j # zs) = Some r" using r unfolding below_tables_def by blast
        then show ?thesis by (intro exI [of _ "j # zs"]) (simp del: table_at.simps)
      qed
    qed
    finally show "r \<in> below_tables (Suc n) {i} E p \<longleftrightarrow> r \<in> insert r0 (below_tables n UNIV E r0)" .
  qed
qed

lemma clone_entry_step:
  fixes i :: index and s :: "'s paging_scheme"
  assumes pre: "clone_pre (Suc n) {i} offset xs ys p s" and nt: "next_table (entries_of offset s) p i = Some r0"
    and below: "\<And>q t :: 's paging_scheme. clone_pre n UNIV offset xs ys q t \<Longrightarrow>
      \<exists>u. clone_entries n offset (q + offset) t = (Inr (), u) \<and> clone_post n UNIV offset xs ys q t u"
  shows "\<exists>u. kbind (system_paging_table_page_entry_clone (p + offset + 8 * ucast i) offset) (clone_entries n offset) s = (Inr (), u)
    \<and> clone_post (Suc n) {i} offset xs ys p s u"
proof -
  let ?Es = "entries_of offset s" and ?Fs = "frame_free xs ys s"
  have inv: "frame_inv xs ys s" and p: "frame p" "p \<notin> ?Fs" using pre by (auto simp: clone_pre_def)
  note step = below_paths_step [OF nt, of n]
  have old: "insert r0 (below_tables n UNIV ?Es r0) \<inter> insert p ?Fs = {}" using pre unfolding clone_pre_def step(2) by blast
  have paths: "card (below_paths (Suc n) {i} ?Es p) = Suc (card (below_paths n UNIV ?Es r0))"
  proof -
    have "[i] \<notin> Cons i ` below_paths n UNIV ?Es r0" by (auto simp: below_paths_def)
    then show ?thesis unfolding step(1) by (simp add: finite_below_paths card_image)
  qed
  then have some: "?Fs \<noteq> {}" and enough: "Suc (card (below_paths n UNIV ?Es r0)) \<le> card ?Fs" using pre unfolding clone_pre_def by auto
  have e: "present (?Es p i)" "\<not> large (?Es p i)" "page_of (?Es p i) = r0" using nt by (auto simp: next_table_def split: if_splits)
  obtain q t where t: "system_paging_table_page_entry_clone (p + offset + 8 * ucast i) offset s = (Inr (q + offset), t)"
      "q \<in> ?Fs" "frame_inv xs ys t" "frame_free xs ys t = ?Fs - {q}" "t = s\<lparr> memory := memory t, allocators := allocators t \<rparr>"
      "\<And>r j. frame r \<Longrightarrow> r \<noteq> q \<Longrightarrow> r \<noteq> p \<or> j \<noteq> i \<Longrightarrow> entries_of offset t r j = ?Es r j"
      "\<And>j. entries_of offset t q j = ?Es (page_of (?Es p i)) j"
      "same_flags (?Es p i) (entries_of offset t p i)" "page_of (entries_of offset t p i) = q"
    by (rule page_entry_clone_run [OF inv some p, of offset i]) (use old e in auto)
  let ?Et = "entries_of offset t"
  have fq: "frame q" and pq: "p \<noteq> q" using frame_free_frame [OF inv t(2)] p(2) t(2) by auto
  have copy: "?Et q j = ?Es r0 j" for j using t(7) e(3) by simp
  have kept: "?Et r j = ?Es r j" if "r \<in> below_tables n UNIV ?Es r0" for r j
    using t(6) [OF below_tables_frame [OF that]] old that t(2) by blast
  note row = row_agree [where S = UNIV and E' = ?Et and p' = q and E = ?Es and p = r0 and n = n, OF copy kept]
  have same_table: "table_at ?Et q (j # zs) = table_at ?Es r0 (j # zs)" if "length zs < n" for j zs using row(1) that by blast
  have same_walk: "mmu_walk ?Et q (j # vs) = mmu_walk ?Es r0 (j # vs)" if "length vs = n" for j vs using row(2) that by blast
  have sets: "below_tables n UNIV ?Et q = below_tables n UNIV ?Es r0" "below_paths n UNIV ?Et q = below_paths n UNIV ?Es r0"
    unfolding below_tables_def below_paths_def by (intro Collect_cong ex_cong1; metis same_table)+
  have "clone_pre n UNIV offset xs ys q t"
  proof -
    have "card (below_paths n UNIV ?Es r0) \<le> card (?Fs - {q})" using enough t(2) by simp
    then show ?thesis unfolding clone_pre_def sets t(4) using t(2,3) fq old by auto
  qed
  then obtain u where u: "clone_entries n offset (q + offset) t = (Inr (), u)" "clone_post n UNIV offset xs ys q t u" using below by blast
  let ?Eu = "entries_of offset u"
  note b = clone_postD [OF u(2)]
  have run: "kbind (system_paging_table_page_entry_clone (p + offset + 8 * ucast i) offset) (clone_entries n offset) s = (Inr (), u)"
    using u(1) by (simp add: kbind_def t(1))
  have up: "?Eu p j = ?Et p j" for j using b(5) [OF p(1)] p(2) pq t(4) by blast
  then have nq: "next_table ?Eu p i = Some q" and flags: "same_flags (?Es p i) (?Eu p i)"
    using t(8,9) e by (simp_all add: next_table_def same_flags_def)
  have at: "table_at ?Eu p (i # zs) = table_at ?Eu q zs" for zs using nq by simp
  have deep: "r \<in> ?Fs - {q} - frame_free xs ys u" if "table_at ?Eu q (j # zs) = Some r" "length zs < n" for j zs r
    using below_tablesI [OF _ that(2,1), of UNIV] b(8) t(4) by auto
  have "u = s\<lparr> memory := memory u, allocators := allocators u \<rparr>" by (subst b(2), subst t(5)) simp
  moreover have "card ?Fs = card (frame_free xs ys u) + card (below_paths (Suc n) {i} ?Es p)"
    using b(4) card.remove [OF finite_frame_free [OF inv] t(2)] unfolding paths sets(2) t(4) by linarith
  moreover have "?Eu r j = ?Es r j" if "frame r" "r \<notin> ?Fs" "r \<noteq> p \<or> j \<notin> {i}" for r j
    using b(5) [OF that(1), of j] t(6) [OF that(1), of j] t(2,4) that(2,3) by auto
  moreover have "mmu_walk ?Eu p (i # vs) = mmu_walk ?Es p (i # vs)" if len: "length vs = Suc n" for vs
  proof -
    obtain j vs' where vs: "vs = j # vs'" "length vs' = n" using len by (cases vs) auto
    have "mmu_walk ?Eu q vs = mmu_walk ?Es r0 vs" unfolding vs(1) using b(7) [of j vs'] same_walk vs(2) by (simp del: mmu_walk.simps)
    moreover have "vs \<noteq> []" "access_of (?Eu p i) = access_of (?Es p i)" using vs(1) flags by (simp_all add: same_flags_def)
    ultimately show ?thesis using walk_through [OF nq] walk_through [OF nt] by (simp del: mmu_walk.simps)
  qed
  moreover have "below_tables (Suc n) {i} ?Eu p \<subseteq> ?Fs - frame_free xs ys u"
    unfolding below_paths_step(2) [OF nq] using b(3,8) t(2,4) by auto
  moreover have "zs = ws" if len: "length zs < Suc n" "length ws < Suc n" and same: "table_at ?Eu p (i # zs) = Some r" "table_at ?Eu p (i # ws) = Some r" for zs ws r
  proof -
    have tq: "table_at ?Eu q zs = Some r" "table_at ?Eu q ws = Some r" using same at by simp_all
    show ?thesis
    proof (cases zs)
      case Nil
      then have "r = q" using tq by simp
      then show ?thesis using Nil deep [of _ _ r] tq(2) len(2) by (cases ws) auto
    next
      case (Cons j zs')
      then have "r \<noteq> q" using deep [of j zs' r] tq(1) len(1) by auto
      then obtain k ws' where "ws = k # ws'" using tq(2) by (cases ws) auto
      then show ?thesis using b(9) [of j k zs' ws' r] Cons tq len by auto
    qed
  qed
  ultimately have "clone_post (Suc n) {i} offset xs ys p s u"
    unfolding clone_post_def using b(1,3) t(4) flags by (auto simp del: mmu_walk.simps table_at.simps)
  then show ?thesis using run by blast
qed

lemma clone_loop:
  fixes s :: "'s paging_scheme" and p :: ptr
  assumes below: "\<And>q t :: 's paging_scheme. clone_pre n UNIV offset xs ys q t \<Longrightarrow>
      \<exists>u. clone_entries n offset (q + offset) t = (Inr (), u) \<and> clone_post n UNIV offset xs ys q t u"
  defines "body \<equiv> \<lambda>i. kbind (peek64 (p + offset + 8 * of_nat i)) (\<lambda>e.
       if \<not> (e AND SYSTEM_PAGING_AMD64_FLAG_P \<noteq> 0) then kret ()
       else if n \<noteq> 2 \<and> e AND SYSTEM_PAGING_AMD64_FLAG_PS \<noteq> 0 then kret ()
       else kbind (system_paging_table_page_entry_clone (p + offset + 8 * of_nat i) offset) (clone_entries n offset))"
  shows "i + k = 512 \<Longrightarrow> clone_pre (Suc n) {j. i \<le> unat j} offset xs ys p s \<Longrightarrow>
    n = 2 \<longrightarrow> (\<forall>j. i \<le> unat j \<longrightarrow> \<not> large (entries_of offset s p j)) \<Longrightarrow>
    \<exists>u. kfor i k body s = (Inr (), u) \<and> clone_post (Suc n) {j. i \<le> unat j} offset xs ys p s u"
proof (induction k arbitrary: i s)
  case 0
  have "unat j < i" for j :: index using unsigned_less [of j, where ?'a = nat] 0(1) by simp
  then have "{j :: index. i \<le> unat j} = {}" by (auto simp: not_le)
  then show ?case using 0(2) by (simp add: clone_post_def clone_pre_def below_tables_def below_paths_def)
next
  case (Suc k)
  define ix :: index where "ix = of_nat i"
  have i: "i < 512" using Suc.prems(1) by simp
  note slot = index_slot [OF i, folded ix_def]
  have split: "{j. i \<le> unat j} = {ix} \<union> {j. Suc i \<le> unat j}" and disj: "{ix} \<inter> {j. Suc i \<le> unat j} = {}"
    using slot(2) by (auto simp: Suc_le_eq le_less word_unat_eq_iff)
  have pre: "clone_pre (Suc n) {ix} offset xs ys p s" by (rule clone_pre_mono [OF Suc.prems(2)]) (simp add: slot(2))
  have load: "load_u64 (memory s) (p + offset + 8 * ucast ix) = entries_of offset s p ix" by (simp add: entry_at_def)
  have "\<exists>t. body i s = (Inr (), t) \<and> clone_post (Suc n) {ix} offset xs ys p s t"
  proof (cases "next_table (entries_of offset s) p ix")
    case None
    have "n = 2 \<Longrightarrow> \<not> large (entries_of offset s p ix)" using Suc.prems(3) slot(2) by simp
    then have "body i s = (Inr (), s)"
      using None unfolding body_def slot(1) by (auto simp: load next_table_def present_def large_def split: if_splits)
    then show ?thesis using clone_post_skip [OF pre None] by blast
  next
    case (Some r0)
    then have "present (entries_of offset s p ix)" "\<not> large (entries_of offset s p ix)" by (simp_all add: next_table_def split: if_splits)
    then have "body i s = kbind (system_paging_table_page_entry_clone (p + offset + 8 * ucast ix) offset) (clone_entries n offset) s"
      unfolding body_def slot(1) by (simp add: load present_def large_def)
    then show ?thesis using clone_entry_step [OF pre Some below] by simp
  qed
  then obtain t where t: "body i s = (Inr (), t)" "clone_post (Suc n) {ix} offset xs ys p s t" by blast
  note mid = clone_pre_next [OF Suc.prems(2) [unfolded split] disj t(2)]
  obtain u where u: "kfor (Suc i) k body t = (Inr (), u)" "clone_post (Suc n) {j. Suc i \<le> unat j} offset xs ys p t u"
    using Suc.IH [of "Suc i" t] Suc.prems(1,3) mid(1,3) by auto
  have "kfor i (Suc k) body s = (Inr (), u)" using t(1) u(1) by (simp add: kbind_def)
  then show ?case using clone_post_trans [OF Suc.prems(2) [unfolded split] disj t(2) u(2)] unfolding split by blast
qed

lemma clone_entries_run:
  fixes s :: "'s paging_scheme"
  shows "n \<le> 3 \<Longrightarrow> clone_pre n UNIV offset xs ys p s \<Longrightarrow> n = 3 \<longrightarrow> (\<forall>j. \<not> large (entries_of offset s p j)) \<Longrightarrow>
    \<exists>u. clone_entries n offset (p + offset) s = (Inr (), u) \<and> clone_post n UNIV offset xs ys p s u"
proof (induction n arbitrary: p s)
  case 0
  then show ?case by (simp add: clone_post_def clone_pre_def below_tables_def below_paths_def same_flags_def)
next
  case (Suc n)
  have below: "\<exists>u. clone_entries n offset (q + offset) t = (Inr (), u) \<and> clone_post n UNIV offset xs ys q t u"
    if "clone_pre n UNIV offset xs ys q t" for q and t :: "'s paging_scheme"
    using Suc.IH [of q t] that Suc.prems(1) by simp
  show ?case using clone_loop [where i = 0 and k = 512 and s = s and p = p, OF below] Suc.prems(2,3) by simp
qed

section \<open>The whole tree\<close>

lemma tables_below: "tables E p = insert p (below_tables 3 UNIV E p)"
proof (rule set_eqI)
  fix r
  show "r \<in> tables E p \<longleftrightarrow> r \<in> insert p (below_tables 3 UNIV E p)"
  proof
    assume "r \<in> tables E p"
    then obtain zs where zs: "length zs \<le> 3" "table_at E p zs = Some r" unfolding tables_def by blast
    show "r \<in> insert p (below_tables 3 UNIV E p)"
    proof (cases zs)
      case (Cons j ws)
      then show ?thesis using zs below_tablesI [of j UNIV ws 3 E p r] by simp
    qed (use zs in simp)
  next
    assume r: "r \<in> insert p (below_tables 3 UNIV E p)"
    show "r \<in> tables E p"
    proof (cases "r = p")
      case False
      then obtain j ws where "length ws < 3" "table_at E p (j # ws) = Some r" using r unfolding below_tables_def by blast
      then show ?thesis using tablesI [of E p "j # ws" r] by (simp del: table_at.simps)
    qed (use tablesI [of E p "[]" p] in simp)
  qed
qed

lemma card_tables:
  assumes "unshared E root"
  shows "card (tables E root) = Suc (card (below_paths 3 UNIV E root))"
proof -
  let ?P = "insert [] (below_paths 3 UNIV E root)"
  have P: "zs \<in> ?P \<longleftrightarrow> length zs \<le> 3 \<and> table_at E root zs \<noteq> None" for zs
    by (cases zs) (auto simp: below_paths_def)
  have "bij_betw (\<lambda>zs. the (table_at E root zs)) ?P (tables E root)"
  proof (rule bij_betwI')
    fix zs ws assume "zs \<in> ?P" "ws \<in> ?P"
    then obtain r r' where "table_at E root zs = Some r" "table_at E root ws = Some r'" "length zs \<le> 3" "length ws \<le> 3"
      unfolding P by blast
    then show "(the (table_at E root zs) = the (table_at E root ws)) = (zs = ws)" using unsharedD [OF assms, of zs r ws] by auto
  next
    fix zs assume "zs \<in> ?P"
    then show "the (table_at E root zs) \<in> tables E root" unfolding P using tablesI [of E root zs] by auto
  next
    fix r assume "r \<in> tables E root"
    then obtain zs where "length zs \<le> 3" "table_at E root zs = Some r" unfolding tables_def by blast
    then show "\<exists>zs \<in> ?P. r = the (table_at E root zs)" using P [of zs] by (intro bexI [of _ zs]) simp_all
  qed
  then have "card (tables E root) = card ?P" using bij_betw_same_card by metis
  moreover have "[] \<notin> below_paths 3 UNIV E root" by (simp add: below_paths_def)
  ultimately show ?thesis by (simp add: finite_below_paths)
qed

lemma table_clone_run:
  assumes inv: "paging_inv xs ys offset root s" and enough: "card (tables (entries_of offset s) root) \<le> card (frame_free xs ys s)"
    and nonnull: "- offset \<notin> frame_free xs ys s"
  obtains q u where "system_paging_table_clone (root + offset) s = (Inr \<lparr> physical_address = q, virtual_address = q + offset \<rparr>, u)"
    "paging_inv xs ys offset q u" "paging_inv xs ys offset root u" "tables (entries_of offset u) q \<subseteq> frame_free xs ys s"
    "tables (entries_of offset u) root = tables (entries_of offset s) root"
    "\<And>vs. length vs = 4 \<Longrightarrow> mmu_walk (entries_of offset u) q vs = mmu_walk (entries_of offset s) root vs"
    "\<And>vs. length vs = 4 \<Longrightarrow> mmu_walk (entries_of offset u) root vs = mmu_walk (entries_of offset s) root vs"
    "card (frame_free xs ys s) = card (frame_free xs ys u) + card (tables (entries_of offset s) root)"
    "u = s\<lparr> memory := memory u, allocators := allocators u \<rparr>"
    "\<And>p j. frame p \<Longrightarrow> p \<notin> frame_free xs ys s \<Longrightarrow> entries_of offset u p j = entries_of offset s p j"
    "frame_free xs ys u \<subseteq> frame_free xs ys s"
proof -
  let ?Es = "entries_of offset s" and ?Fs = "frame_free xs ys s"
  have frames: "frame_inv xs ys s" and tree: "unshared ?Es root" and apart: "tables ?Es root \<inter> ?Fs = {}"
    using inv by (auto simp: paging_inv_def)
  obtain revision where hhdm: "hhdm_response s = Some (revision, offset)" using inv unfolding paging_inv_def by blast
  have root: "frame root" "\<And>j. \<not> large (?Es root j)" "root \<notin> ?Fs" using tree apart unfolding tables_below by (auto simp: unshared_def)
  note count = card_tables [OF tree]
  have some: "?Fs \<noteq> {}" using enough count by auto
  obtain q t where t: "system_paging_page_clone (root + offset) offset s = (Inr \<lparr> physical_address = q, virtual_address = q + offset \<rparr>, t)"
    "q \<in> ?Fs" "frame_inv xs ys t" "frame_free xs ys t = ?Fs - {q}" "t = s\<lparr> memory := memory t, allocators := allocators t \<rparr>"
    "\<And>r j. frame r \<Longrightarrow> entries_of offset t r j = ?Es (if r = q then root else r) j"
    by (rule page_clone_run [OF frames some root(1,3)]) blast
  let ?Et = "entries_of offset t"
  have fq: "frame q" by (rule frame_free_frame [OF frames t(2)])
  have copy: "?Et q j = ?Es root j" for j using t(6) [OF fq] by simp
  have below_r: "frame r" "r \<noteq> q" "r \<notin> ?Fs" if "r \<in> below_tables 3 UNIV ?Es root" for r
    using below_tables_frame [OF that] apart that t(2) unfolding tables_below by auto
  have kept: "?Et r j = ?Es r j" if "r \<in> below_tables 3 UNIV ?Es root" for r j using t(6) [OF below_r(1) [OF that]] below_r(2) [OF that] by simp
  note row = row_agree [where S = UNIV and E' = ?Et and p' = q and E = ?Es and p = root and n = 3, OF copy kept]
  have same_table: "table_at ?Et q (j # zs) = table_at ?Es root (j # zs)" if "length zs < 3" for j zs using row(1) that by blast
  have same_walk: "mmu_walk ?Et q (j # vs) = mmu_walk ?Es root (j # vs)" if "length vs = 3" for j vs using row(2) that by blast
  have sets: "below_tables 3 UNIV ?Et q = below_tables 3 UNIV ?Es root" "below_paths 3 UNIV ?Et q = below_paths 3 UNIV ?Es root"
    unfolding below_tables_def below_paths_def by (intro Collect_cong ex_cong1; metis same_table)+
  have pre: "clone_pre 3 UNIV offset xs ys q t"
  proof -
    have "card (below_paths 3 UNIV ?Es root) \<le> card (?Fs - {q})" using enough count t(2) by simp
    then show ?thesis unfolding clone_pre_def sets t(4) using t(2,3) fq below_r by auto
  qed
  have "\<not> large (?Et q j)" for j using copy root(2) by simp
  then obtain u where u: "clone_entries 3 offset (q + offset) t = (Inr (), u)" "clone_post 3 UNIV offset xs ys q t u"
    using clone_entries_run [of 3 offset xs ys q t] pre by auto
  let ?Eu = "entries_of offset u"
  note b = clone_postD [OF u(2)]
  have ueq: "u = s\<lparr> memory := memory u, allocators := allocators u \<rparr>" by (subst b(2), subst t(5)) simp
  have run: "system_paging_table_clone (root + offset) s = (Inr \<lparr> physical_address = q, virtual_address = q + offset \<rparr>, u)"
    by (simp add: table_clone_levels hhdm_offset_def kbind_assoc hhdm kbind_def t(1) u(1))
  have new_walk: "mmu_walk ?Eu q vs = mmu_walk ?Es root vs" if len: "length vs = 4" for vs
  proof -
    obtain j vs' where "vs = j # vs'" "length vs' = 3" using len by (cases vs) auto
    then show ?thesis using b(7) [of j vs'] same_walk by (simp del: mmu_walk.simps)
  qed
  have kept_pages: "?Eu r j = ?Es r j" if r: "frame r" "r \<notin> ?Fs" for r j
  proof -
    have "r \<noteq> q" using t(2) r by auto
    then show ?thesis using b(5) [OF r(1), of j] t(4) t(6) [OF r(1), of j] r(2) by simp
  qed
  have old: "?Eu r j = ?Es r j" if "r \<in> tables ?Es root" for r j
    using that apart below_r(1) root(1) unfolding tables_below by (intro kept_pages) auto
  have old_table: "table_at ?Eu root zs = table_at ?Es root zs" if "length zs \<le> 3" for zs
    by (rule table_at_cong, rule old, rule tablesI, assumption, use that in auto)
  have old_walk: "mmu_walk ?Eu root vs = mmu_walk ?Es root vs" if "length vs = 4" for vs
    by (rule mmu_walk_cong, rule old, rule tablesI, assumption, use that in auto)
  have old_tables: "tables ?Eu root = tables ?Es root" unfolding tables_def using old_table by auto
  have free: "frame_free xs ys u \<subseteq> ?Fs" using b(3) t(4) by auto
  have new_tables: "tables ?Eu q \<subseteq> ?Fs - frame_free xs ys u" using b(3,8) t(2,4) unfolding tables_below by auto
  have hu: "\<exists>revision. hhdm_response u = Some (revision, offset)" by (subst ueq) (simp add: hhdm)
  have root_in: "root \<in> tables ?Es root" unfolding tables_below by simp
  have "unshared ?Eu root"
    using tree old_table old [OF root_in] unfolding unshared_def by simp
  then have "paging_inv xs ys offset root u" using inv b(1) hu old_tables apart free by (auto simp: paging_inv_def)
  moreover have "unshared ?Eu q"
    unfolding unshared_def
  proof (intro conjI allI impI)
    show "frame q" by (rule fq)
    show "\<not> large (?Eu q j)" for j using b(6) [of j] copy root(2) by (simp add: same_flags_def)
  next
    fix zs ws r assume len: "length zs \<le> 3" "length ws \<le> 3" and at: "table_at ?Eu q zs = Some r" "table_at ?Eu q ws = Some r"
    have deep: "r \<noteq> q" if "table_at ?Eu q (j # vs) = Some r" "length vs < 3" for j vs
      using below_tablesI [OF _ that(2,1), of UNIV] b(8) t(4) by auto
    show "zs = ws"
    proof (cases zs)
      case Nil
      then have "r = q" using at(1) by simp
      have "ws = []"
      proof (cases ws)
        case (Cons k ws')
        then show ?thesis using deep [of k ws'] at(2) len(2) \<open>r = q\<close> by simp
      qed
      then show ?thesis using Nil by simp
    next
      case (Cons j zs')
      then have "r \<noteq> q" using deep [of j zs'] at(1) len(1) by simp
      then obtain k ws' where "ws = k # ws'" using at(2) by (cases ws) auto
      then show ?thesis using b(9) [of j k zs' ws' r] Cons at len by simp
    qed
  qed
  moreover have "q + offset \<noteq> 0" using nonnull t(2) by (metis add_eq_0_iff2)
  ultimately have "paging_inv xs ys offset q u" using b(1) hu new_tables by (auto simp: paging_inv_def)
  moreover have "card ?Fs = card (frame_free xs ys u) + card (tables ?Es root)"
    using b(4) count card.remove [OF finite_frame_free [OF frames] t(2)] unfolding sets(2) t(4) by linarith
  ultimately show thesis
    using that [OF run _ \<open>paging_inv xs ys offset root u\<close> _ old_tables new_walk old_walk _ ueq kept_pages free] new_tables by blast
qed

text \<open>(C37) \<^verbatim>\<open>system_paging_table_clone\<close> with a free page for each table of the tree returns a copy of the tree: the processor translates every
  address through the copy as through the original, to the same physical address with the same rights. The copy consists of fresh pages
  only, one for each table; the pages that are mapped are shared, not copied. Every page that was not free keeps its contents, the original
  tables and the mapped pages among them, and both trees satisfy the invariant.\<close>

theorem system_paging_table_clone_correct:
  assumes "paging_inv xs ys offset root s" and "card (tables (entries_of offset s) root) \<le> card (frame_free xs ys s)"
    and "- offset \<notin> frame_free xs ys s"
  shows "\<exists>new s'. system_paging_table_clone (root + offset) s = (Inr \<lparr> physical_address = new, virtual_address = new + offset \<rparr>, s')
     \<and> paging_inv xs ys offset new s' \<and> paging_inv xs ys offset root s'
     \<and> (\<forall>va. mmu_translate (entries_of offset s') new va = mmu_translate (entries_of offset s) root va
            \<and> mmu_translate (entries_of offset s') root va = mmu_translate (entries_of offset s) root va)
     \<and> tables (entries_of offset s') new \<subseteq> frame_free xs ys s
     \<and> card (frame_free xs ys s) = card (frame_free xs ys s') + card (tables (entries_of offset s) root)
     \<and> (\<forall>p i. frame p \<and> p \<notin> frame_free xs ys s \<longrightarrow> entries_of offset s' p i = entries_of offset s p i)"
proof (rule table_clone_run [OF assms])
  fix q u
  assume u: "system_paging_table_clone (root + offset) s = (Inr \<lparr> physical_address = q, virtual_address = q + offset \<rparr>, u)"
    "paging_inv xs ys offset q u" "paging_inv xs ys offset root u" "tables (entries_of offset u) q \<subseteq> frame_free xs ys s"
    "card (frame_free xs ys s) = card (frame_free xs ys u) + card (tables (entries_of offset s) root)"
    and new: "\<And>vs. length vs = 4 \<Longrightarrow> mmu_walk (entries_of offset u) q vs = mmu_walk (entries_of offset s) root vs"
    and old: "\<And>vs. length vs = 4 \<Longrightarrow> mmu_walk (entries_of offset u) root vs = mmu_walk (entries_of offset s) root vs"
    and kept: "\<And>p j. frame p \<Longrightarrow> p \<notin> frame_free xs ys s \<Longrightarrow> entries_of offset u p j = entries_of offset s p j"
  have "mmu_translate (entries_of offset u) q va = mmu_translate (entries_of offset s) root va
      \<and> mmu_translate (entries_of offset u) root va = mmu_translate (entries_of offset s) root va" for va
    unfolding mmu_translate_def new [OF path_of_leaf(2)] old [OF path_of_leaf(2)] by simp
  then show ?thesis using u kept by blast
qed

text \<open>Tried on the tree of four tables that mapping one page makes.\<close>

theorem system_paging_table_clone_correct_witness:
  "\<exists>(s :: paging) new s'. tables (entries_of 0xFFFF800000000000 s) 0x8000 \<noteq> {0x8000}
     \<and> system_paging_table_clone (0x8000 + 0xFFFF800000000000) s
         = (Inr \<lparr> physical_address = new, virtual_address = new + 0xFFFF800000000000 \<rparr>, s')
     \<and> new \<noteq> 0x8000
     \<and> mmu_translate (entries_of 0xFFFF800000000000 s') new 0x400042 = Some (0x123042, \<lparr> writable = True, user = False, executable = False \<rparr>)"
proof -
  let ?o = "0xFFFF800000000000 :: U64" and ?s0 = "example_paging True"
  define r where "r = table_rights (entries_of ?o ?s0) 0x8000 (butlast (path_of 0x400000))"
  have small: "page_aligned 0x400000" "frame 0x123000" "\<not> in_large_page (entries_of ?o ?s0) 0x8000 0x400000" "3 \<le> card (frame_free [0x200] [] ?s0)"
    by (simp_all add: page_aligned_def frameI in_large_page_def example_paging_ok)
  obtain s :: paging where s: "paging_inv [0x200] [] ?o 0x8000 s" "only_tables ?o 0x8000 ?s0 s"
      "\<And>va. mmu_translate (entries_of ?o s) 0x8000 va =
        (if path_of va = path_of 0x400000 then Some (0x123000 OR take_bit 12 va, access_and r (requested SYSTEM_PAGING_FLAG_WRITE))
         else mmu_translate (entries_of ?o ?s0) 0x8000 va)"
      "card (frame_free [0x200] [] ?s0) \<le> card (frame_free [0x200] [] s) + 3"
      "card (tables (entries_of ?o s) 0x8000) + card (frame_free [0x200] [] s) = card (tables (entries_of ?o ?s0) 0x8000) + card (frame_free [0x200] [] ?s0)"
      "mmu_walk (entries_of ?o s) 0x8000 (path_of 0x400000) = Some (0x123000, 0, access_and r (requested SYSTEM_PAGING_FLAG_WRITE))"
      "frame_free [0x200] [] s \<subseteq> frame_free [0x200] [] ?s0"
    unfolding r_def by (rule map_run [OF example_paging_ok(1) small(4,3,1,2), where flags = SYSTEM_PAGING_FLAG_WRITE]) blast
  have "frame 0x8000" by (rule frameI) simp_all
  then have one: "tables (entries_of ?o ?s0) 0x8000 = {0x8000}" by (rule zero_tables(1) [OF example_paging_entries])
  then have enough: "card (tables (entries_of ?o s) 0x8000) \<le> card (frame_free [0x200] [] s)"
    using s(4,5) example_paging_ok(2) by simp
  have nonnull: "- ?o \<notin> frame_free [0x200] [] s" using s(7) example_paging_ok(7) [of "- ?o"] by auto
  obtain new s' where c: "system_paging_table_clone (0x8000 + ?o) s = (Inr \<lparr> physical_address = new, virtual_address = new + ?o \<rparr>, s')"
      "mmu_translate (entries_of ?o s') new 0x400042 = mmu_translate (entries_of ?o s) 0x8000 0x400042"
      "tables (entries_of ?o s') new \<subseteq> frame_free [0x200] [] s"
    using system_paging_table_clone_correct [OF s(1) enough nonnull] by blast
  have "new \<in> tables (entries_of ?o s') new" "0x8000 \<in> tables (entries_of ?o s) 0x8000" using tablesI [of _ _ "[]"] by auto
  then have "new \<noteq> 0x8000" using c(3) s(1) by (auto simp: paging_inv_def)
  moreover have "tables (entries_of ?o s) 0x8000 \<noteq> {0x8000}"
  proof -
    obtain pt where pt: "table_at (entries_of ?o s) 0x8000 (butlast (path_of 0x400000)) = Some pt"
      using mmu_walk_small s(6) path_of_leaf(1) by metis
    then have "pt \<in> tables (entries_of ?o s) 0x8000" using tablesI path_of_leaf(3) by (metis order_refl)
    moreover have "unshared (entries_of ?o s) 0x8000" using s(1) by (simp add: paging_inv_def)
    then have "pt \<noteq> 0x8000" using unsharedD [of "entries_of ?o s" "0x8000" "[]" pt "butlast (path_of 0x400000)"] pt by (auto simp: path_of_def)
    ultimately show ?thesis by blast
  qed
  moreover have "access_and r (requested SYSTEM_PAGING_FLAG_WRITE) = \<lparr> writable = True, user = False, executable = False \<rparr>"
    by (simp add: r_def path_of_def example_paging_entries present_def new_table_rights_def access_and_def requested_def SYSTEM_PAGING_FLAG_WRITE_def bit_BIT)
  moreover have "path_of 0x400042 = path_of 0x400000" "(0x123000 :: U64) OR take_bit 12 0x400042 = 0x123042" by (simp_all add: path_of_def)
  ultimately show ?thesis using c(1,2) s(3) [of "0x400042"] by (intro exI [of _ s] exI [of _ new] exI [of _ s']) simp
qed

end
