(* ===== verification/Kernel_Setup.thy ===== *)
theory Kernel_Setup
  imports Kernel_Clone
begin

text \<open>
  \<^verbatim>\<open>system_paging_setup\<close>: from a memory map to the lists of allocators. \<open>setup_inv\<close> is the invariant of the loop: three lists with a common
  head, the local \<^verbatim>\<open>base\<close>, each ending in the sentinel once it has an element. At the end the lists satisfy \<open>frame_inv\<close>, and the
  free pages are those of the usable regions without their metadata.
\<close>

section \<open>Output\<close>

text \<open>A computation that only prints.\<close>

definition prints :: "('s console_scheme, unit) krun \<Rightarrow> bool" where
  "prints m \<longleftrightarrow> (\<forall>port s. console_ready port s \<longrightarrow> (\<exists>l. m s = (Inr (), s\<lparr> port_log := l \<rparr>)))"

lemma prints_writes: "(\<And>port. \<exists>t. writes (console_ready port) (serial_text port) m () t) \<Longrightarrow> prints m"
  unfolding prints_def writes_def by meson

lemma prints_kret [simp]: "prints (kret ())"
proof -
  have "s = s\<lparr> port_log := port_log s \<rparr>" for s :: "'s console_scheme" by simp
  then show ?thesis unfolding prints_def kret_run by metis
qed

lemma prints_plain: "CHR ''%'' \<notin> set t \<Longrightarrow> CHR 0x00 \<notin> set t \<Longrightarrow> prints (printf t [])"
  by (rule prints_writes) (blast intro: com.printf_plain)

lemma prints_pieces:
  "STR_of fmt = pieces_format ps \<Longrightarrow> CHR 0x00 \<notin> set fmt \<Longrightarrow> args = pieces_args ps \<Longrightarrow> \<forall>p \<in> set ps. piece_ok p \<Longrightarrow> prints (printf fmt args)"
  by (rule prints_writes) (blast intro: com.printf_writes)

lemma prints_if: "prints m \<Longrightarrow> prints m' \<Longrightarrow> prints (if b then m else m')"
  by simp

lemma prints_bind: "prints m \<Longrightarrow> prints m' \<Longrightarrow> prints (kbind m (\<lambda>_. m'))"
proof -
  assume m: "prints m" and m': "prints m'"
  have "\<exists>l. kbind m (\<lambda>_. m') s = (Inr (), s\<lparr> port_log := l \<rparr>)" if r: "console_ready port s" for port s
  proof -
    obtain l where l: "m s = (Inr (), s\<lparr> port_log := l \<rparr>)" using m r unfolding prints_def by blast
    have "console_ready port (s\<lparr> port_log := l \<rparr>)" using r by simp
    then obtain l' where "m' (s\<lparr> port_log := l \<rparr>) = (Inr (), (s\<lparr> port_log := l \<rparr>)\<lparr> port_log := l' \<rparr>)" using m' unfolding prints_def by blast
    then show ?thesis using l by (auto simp: kbind_def)
  qed
  then show ?thesis unfolding prints_def by blast
qed

lemma prints_run:
  assumes "prints m" "console_ready port s"
  obtains l where "m s = (Inr (), s\<lparr> port_log := l \<rparr>)"
  using assms unfolding prints_def by blast

section \<open>The lines of the setup\<close>

lemma memmap_line: "prints (printf (''MEMMAP: %xU-%xU(%xU) - %s'' @ [newline]) [Va_Word a, Va_Word b, Va_Word c, Va_String t])"
  by (rule prints_pieces [where ps = "plain ''MEMMAP: '' @ [Num CHR ''U'' 16 a] @ plain ''-'' @ [Num CHR ''U'' 16 b] @ plain ''('' @ [Num CHR ''U'' 16 c]
        @ plain '') - '' @ [Str t] @ plain [newline]"])
    (simp_all add: newline_def STR_of_def ball_Un)

lemma allocator_line: "prints (printf (''MEMMAP:  -> initialized physical allocator with size %i'' @ [newline]) [Va_Word a])"
  by (rule prints_pieces [where ps = "plain ''MEMMAP:  -> initialized physical allocator with size '' @ [Num CHR ''i'' 0 a] @ plain [newline]"])
    (simp_all add: newline_def STR_of_def ball_Un)

lemma executable_line: "prints (printf (''MEMMAP:  -> executable located here %xU -> %xU'' @ [newline]) [Va_Word a, Va_Word b])"
  by (rule prints_pieces [where ps = "plain ''MEMMAP:  -> executable located here '' @ [Num CHR ''U'' 16 a] @ plain '' -> '' @ [Num CHR ''U'' 16 b] @ plain [newline]"])
    (simp_all add: newline_def STR_of_def ball_Un)

lemma stack_line: "prints (printf (''MEMMAP:  -> stack located here %xU -> %xU'' @ [newline]) [Va_Word a, Va_Word b])"
  by (rule prints_pieces [where ps = "plain ''MEMMAP:  -> stack located here '' @ [Num CHR ''U'' 16 a] @ plain '' -> '' @ [Num CHR ''U'' 16 b] @ plain [newline]"])
    (simp_all add: newline_def STR_of_def ball_Un)

lemma report_prints:
  fixes s :: "'s paging_scheme"
  assumes "console_ready port s" "exe_addr_response s = Some (physical_base, virtual_base)"
  shows "\<exists>l. system_paging_report entry a b s = (Inr (), s\<lparr> port_log := l \<rparr>)"
proof -
  define rest :: "('s paging_scheme, unit) krun" where "rest =
    kbind (if within entry physical_base
           then printf (''MEMMAP:  -> executable located here %xU -> %xU'' @ [newline]) [Va_Word physical_base, Va_Word virtual_base]
           else kret ()) (\<lambda>_.
    if within entry a
    then printf (''MEMMAP:  -> stack located here %xU -> %xU'' @ [newline]) [Va_Word a, Va_Word b]
    else kret ())"
  define zones :: "('s paging_scheme, unit) krun" where "zones =
    kbind (if below (MB 16) entry then printf (''MEMMAP:  -> 16 MB Zone'' @ [newline]) [] else kret ()) (\<lambda>_.
    if below (GB 4) entry then printf (''MEMMAP:  -> 4 GB Zone'' @ [newline]) [] else kret ())"
  have "prints zones" unfolding zones_def by (intro prints_bind prints_if prints_kret prints_plain) (simp_all add: newline_def)
  then obtain l where l: "zones s = (Inr (), s\<lparr> port_log := l \<rparr>)" using assms(1) by (rule prints_run)
  have "prints rest" unfolding rest_def by (intro prints_bind prints_if prints_kret executable_line stack_line)
  moreover have "console_ready port (s\<lparr> port_log := l \<rparr>)" using assms(1) by simp
  ultimately obtain l' where l': "rest (s\<lparr> port_log := l \<rparr>) = (Inr (), (s\<lparr> port_log := l \<rparr>)\<lparr> port_log := l' \<rparr>)" by (rule prints_run)
  have "system_paging_report entry a b s = kbind zones (\<lambda>_. kbind (kget exe_addr_response) (\<lambda>r. case r of
       None \<Rightarrow> kstop (Fault ''system_paging_exe_addr_request.response'')
     | Some (physical_base, virtual_base) \<Rightarrow>
         kbind (if within entry physical_base
                then printf (''MEMMAP:  -> executable located here %xU -> %xU'' @ [newline]) [Va_Word physical_base, Va_Word virtual_base]
                else kret ()) (\<lambda>_.
         if within entry a
         then printf (''MEMMAP:  -> stack located here %xU -> %xU'' @ [newline]) [Va_Word a, Va_Word b]
         else kret ()))) s"
    unfolding system_paging_report_def zones_def kbind_assoc ..
  also have "\<dots> = rest (s\<lparr> port_log := l \<rparr>)"
    unfolding kbind_run [where m = zones and s = s, OF l] kbind_kget using assms(2) by (simp add: rest_def)
  finally show ?thesis using l' by auto
qed

section \<open>Linked lists\<close>

fun list_path :: "(ptr \<Rightarrow> System_Physical_Allocator option) \<Rightarrow> (System_Physical_Allocator \<Rightarrow> ptr) \<Rightarrow> ptr \<Rightarrow> ptr list \<Rightarrow> ptr \<Rightarrow> bool" where
  "list_path A link a [] z \<longleftrightarrow> a = z"
| "list_path A link a (x # xs) z \<longleftrightarrow> a = x \<and> (\<exists>pa. A x = Some pa \<and> list_path A link (link pa) xs z)"

lemma list_path_cong:
  "(\<And>y. y \<in> set zs \<Longrightarrow> map_option link (A' y) = map_option link (A y)) \<Longrightarrow> list_path A' link a zs z = list_path A link a zs z"
proof (induction zs arbitrary: a)
  case (Cons x zs)
  have "map_option link (A' x) = map_option link (A x)" using Cons.prems by simp
  then show ?case using Cons.IH Cons.prems by (cases "A x"; cases "A' x") auto
qed simp

lemma list_path_append: "list_path A link a (xs @ ys) z \<longleftrightarrow> (\<exists>b. list_path A link a xs b \<and> list_path A link b ys z)"
  by (induction xs arbitrary: a) auto

text \<open>\<^verbatim>\<open>SL_APPEND_BASE\<close>: the last element gets a successor.\<close>

lemma list_path_extend:
  assumes path: "list_path A link a (zs @ [l]) z" and dist: "distinct (zs @ [l, x])"
    and same: "\<And>y. y \<noteq> l \<Longrightarrow> y \<noteq> x \<Longrightarrow> map_option link (A' y) = map_option link (A y)"
    and new: "A' l = Some pl" "link pl = x" "A' x = Some px" "link px = z'"
  shows "list_path A' link a (zs @ [l, x]) z'"
proof -
  have "list_path A link a zs l" using path by (auto simp: list_path_append)
  moreover have "list_path A' link a zs l = list_path A link a zs l" 
  proof (rule list_path_cong)
    fix y assume "y \<in> set zs"
    then have "y \<noteq> l" "y \<noteq> x" using dist by auto
    then show "map_option link (A' y) = map_option link (A y)" by (rule same)
  qed
  ultimately have "list_path A' link a (zs @ [l]) x" using new(1,2) by (auto simp: list_path_append)
  then have "list_path A' link a ((zs @ [l]) @ [x]) z'" using new(3,4) unfolding list_path_append [of A' link a "zs @ [l]"] by auto
  then show ?thesis by simp
qed

lemma list_path_defined: "list_path A link a zs z \<Longrightarrow> y \<in> set zs \<Longrightarrow> \<exists>pa. A y = Some pa"
  by (induction zs arbitrary: a) auto

lemma list_path_next: "list_path A pa_next a zs z \<Longrightarrow> distinct zs \<Longrightarrow> z \<notin> set zs \<Longrightarrow> y \<in> set zs \<Longrightarrow> \<exists>pa. A y = Some pa \<and> pa_next pa \<noteq> y"
proof (induction zs arbitrary: a)
  case (Cons x zs)
  show ?case
  proof (cases "y = x")
    case True
    obtain pa where pa: "A x = Some pa" "list_path A pa_next (pa_next pa) zs z" using Cons.prems(1) by auto
    have "pa_next pa \<noteq> x" using pa(2) Cons.prems(2,3) by (cases zs) auto
    then show ?thesis using pa(1) True by simp
  next
    case False
    then show ?thesis using Cons by auto
  qed
qed simp

lemma chain_of_path:
  "list_path A link a zs z \<Longrightarrow> A z = Some sp \<Longrightarrow> pa_next sp = z \<Longrightarrow> \<forall>y \<in> set zs. \<exists>pa. A y = Some pa \<and> pa_next pa \<noteq> y \<Longrightarrow> chain A link a zs"
  by (induction zs arbitrary: a) auto

section \<open>One entry of the memory map\<close>

definition entry_ptr :: "U64 \<Rightarrow> limine_memmap_entry \<Rightarrow> ptr" where
  "entry_ptr offset e = entry_base e + offset"

definition entry_pages :: "limine_memmap_entry \<Rightarrow> nat" where
  "entry_pages e = unat (entry_length e) div 4096"

text \<open>The pages the setup reserves at the start of a region for struct, bitmap and stack.\<close>

definition metadata_pages :: "nat \<Rightarrow> nat" where
  "metadata_pages n = pa_metadata_size n div 4096 + 1"

lemma metadata_covers: "pa_metadata_covers (metadata_pages n) n"
proof -
  have "x \<le> (x div 4096 + 1) * 4096" for x :: nat using div_mult_mod_eq [of x 4096] mod_less_divisor [of 4096 x] by (simp add: algebra_simps)
  then show ?thesis unfolding pa_metadata_covers_def metadata_pages_def .
qed

text \<open>A region the model covers: aligned, at most 4 GiB, below 256 TiB.\<close>

definition region_ok :: "limine_memmap_entry \<Rightarrow> bool" where
  "region_ok e \<longleftrightarrow> 4096 dvd unat (entry_base e) \<and> unat (entry_length e) \<le> 2 ^ 32 \<and> unat (entry_base e) + unat (entry_length e) \<le> 2 ^ 48"

definition usable :: "limine_memmap_entry \<Rightarrow> bool" where
  "usable e \<longleftrightarrow> entry_type e = LIMINE_MEMMAP_USABLE \<and> 4096 < entry_length e"

definition region_pages :: "limine_memmap_entry \<Rightarrow> Uintptr set" where
  "region_pages e = (\<lambda>k. entry_base e + of_nat (k * 4096)) ` {..<entry_pages e}"

definition region_free :: "limine_memmap_entry \<Rightarrow> Uintptr set" where
  "region_free e = (\<lambda>k. entry_base e + of_nat (k * 4096)) ` {metadata_pages (entry_pages e)..<entry_pages e}"

lemma region_free_pages: "region_free e \<subseteq> region_pages e"
  by (auto simp: region_free_def region_pages_def)

text \<open>The allocator of a region, up to its links.\<close>

definition region_allocator :: "limine_memmap_entry \<Rightarrow> System_Physical_Allocator \<Rightarrow> bool" where
  "region_allocator e pa \<longleftrightarrow> frame_ok pa \<and> pa_size pa = int (entry_pages e) \<and> address_base pa = entry_base e
     \<and> pa_frees pa = {metadata_pages (entry_pages e)..<entry_pages e}"

lemma region_allocator_pages:
  "region_allocator e pa \<Longrightarrow> pa_pages pa = region_pages e" "region_allocator e pa \<Longrightarrow> pa_free_pages pa = region_free e"
  by (simp_all add: region_allocator_def region_pages_def region_free_def pa_pages_def pa_free_pages_def pa_page_address_def)

lemma region_allocator_links:
  "region_allocator e (pa\<lparr> pa_next := a \<rparr>) = region_allocator e pa" "region_allocator e (pa\<lparr> pa_next_16mb := a \<rparr>) = region_allocator e pa"
  "region_allocator e (pa\<lparr> pa_next_4gb := a \<rparr>) = region_allocator e pa"
  by (simp_all add: region_allocator_def frame_ok_def pa_small_def pa_wf_def pa_shape_def pa_stacked_def pa_frees_def pa_used_bit_def
      pa_pages_def pa_free_pages_def pa_page_address_def)

lemma metadata_bound: "0 < n \<Longrightarrow> metadata_pages n \<le> n"
proof -
  assume "0 < n"
  moreover have "8 * ((n + 63) div 64) \<le> n + 8" using \<open>0 < n\<close> by linarith
  ultimately have "pa_metadata_size n div 4096 < n" unfolding pa_metadata_size_def by linarith
  then show ?thesis by (simp add: metadata_pages_def)
qed

lemma region_init:
  assumes e: "region_ok e" "4096 < entry_length e"
  obtains pa where "system_pa_init region (entry_base e) (int (metadata_pages (entry_pages e))) (int (entry_pages e)) = Inr pa" "region_allocator e pa"
proof -
  let ?n = "entry_pages e" and ?m = "metadata_pages (entry_pages e)"
  have len: "4096 < unat (entry_length e)" "unat (entry_length e) \<le> 2 ^ 32" using e by (simp_all add: region_ok_def word_less_nat_alt)
  have n: "0 < ?n" "?n \<le> 2 ^ 20" "?n * 4096 \<le> unat (entry_length e)" using len by (auto simp: entry_pages_def div_greater_zero_iff)
  have "0 < ?m" by (simp add: metadata_pages_def)
  have fits: "unat (entry_base e) + ?n * 4096 \<le> 2 ^ 48" using n(3) e(1) by (simp add: region_ok_def)
  then have range: "uint (entry_base e) + int ?n * 4096 \<le> 2 ^ 48"
    by (metis (mono_tags) of_nat_add of_nat_le_iff of_nat_mult of_nat_numeral of_nat_power uint_nat)
  obtain pa where pa: "system_pa_init region (entry_base e) (int ?m) (int ?n) = Inr pa" "pa_wf pa" "pa_stacked pa = [?m..<?n]" "pa_size pa = int ?n"
      "address_base pa = entry_base e"
    using pa_init_ok [OF \<open>0 < ?m\<close> metadata_bound [OF n(1)] _ metadata_covers, of "entry_base e" region] n(2) range by (auto simp: U32_MAX_def SYSTEM_PAGE_SIZE_def)
  have "region_allocator e pa"
    using pa range n(2) e(1)
    by (simp add: region_allocator_def frame_ok_def pa_small_def pa_frees_def region_ok_def)
  then show thesis using that pa(1) by blast
qed

section \<open>The loop body\<close>

definition link_in ::
    "((ptr \<Rightarrow> ptr) \<Rightarrow> System_Physical_Allocator \<Rightarrow> System_Physical_Allocator) \<Rightarrow> ptr \<Rightarrow> ptr \<Rightarrow> (ptr \<Rightarrow> System_Physical_Allocator option)
       \<Rightarrow> (ptr \<Rightarrow> System_Physical_Allocator option)" where
  "link_in update l cur A = A(l \<mapsto> update (\<lambda>_. cur) (the (A l)))"

text \<open>The lists and the local variables after a usable entry, as one function.\<close>

definition append_entry ::
    "ptr \<Rightarrow> U64 \<Rightarrow> limine_memmap_entry \<Rightarrow> System_Physical_Allocator \<Rightarrow> (ptr \<Rightarrow> System_Physical_Allocator option) \<Rightarrow> setup_locals
       \<Rightarrow> (ptr \<Rightarrow> System_Physical_Allocator option) \<times> setup_locals" where
  "append_entry z offset e pa A loc =
     (let cur = entry_ptr offset e;
          A1 = A(cur \<mapsto> pa\<lparr> pa_next := z, pa_next_16mb := z, pa_next_4gb := z \<rparr>);
          A2 = link_in pa_next_update (loc_last loc) cur A1;
          A3 = (if below (MB 16) e then link_in pa_next_16mb_update (loc_last_16mb loc) cur A2 else A2);
          A4 = (if below (GB 4) e then link_in pa_next_4gb_update (loc_last_4gb loc) cur A3 else A3)
      in (A4, \<lparr> loc_last = cur,
                loc_last_16mb = (if below (MB 16) e then cur else loc_last_16mb loc),
                loc_last_4gb = (if below (GB 4) e then cur else loc_last_4gb loc),
                loc_first_non_16mb = (if \<not> below (MB 16) e \<and> loc_first_non_16mb loc = pa_next (the (A2 (loc_first_non_16mb loc)))
                                      then cur else loc_first_non_16mb loc) \<rparr>))"

lemma kbind_pa_modify:
  "allocators s a \<noteq> None \<Longrightarrow> kbind (pa_modify a f) g s = g () (s\<lparr> allocators := (allocators s)(a \<mapsto> f (the (allocators s a))) \<rparr>)"
  by (auto simp: pa_modify_def kbind_assoc kbind_pa_load)

lemma kbind_append:
  "allocators s l \<noteq> None \<Longrightarrow> kbind (SL_APPEND_BASE l update cur) g s = g cur (s\<lparr> allocators := link_in update l cur (allocators s) \<rparr>)"
  by (simp add: SL_APPEND_BASE_def kbind_assoc kbind_pa_modify link_in_def)

lemma link_in_defined: "A b \<noteq> None \<Longrightarrow> link_in update l cur A b \<noteq> None"
  by (simp add: link_in_def)

lemma required_size: "0 < n \<Longrightarrow> int n \<le> U32_MAX \<Longrightarrow> system_pa_calculate_required_size (int n) = Inr (int (pa_metadata_size n))"
  by (simp add: system_pa_calculate_required_size_def system_pa_calculate_size_specification_def size_of_U64_def size_of_U32_def
      size_of_System_Physical_Allocator_def zdiv_int pa_metadata_size_def)

text \<open>What follows \<^verbatim>\<open>system_pa_init\<close> in the branch of a usable entry.\<close>

definition usable_append :: "limine_memmap_entry \<Rightarrow> U64 \<Rightarrow> System_Physical_Allocator \<Rightarrow> setup_locals \<Rightarrow> ('s paging_scheme, setup_locals option) krun" where
  "usable_append e offset pa loc =
      (kbind (pa_store (entry_ptr offset e) pa) (\<lambda>_.
        kbind (kget pa_sentinel) (\<lambda>sentinel.
        kbind (pa_modify (entry_ptr offset e) (\<lambda>pa. pa\<lparr> pa_next := sentinel, pa_next_16mb := sentinel, pa_next_4gb := sentinel \<rparr>)) (\<lambda>_.
        kbind (SL_APPEND_BASE (loc_last loc) pa_next_update (entry_ptr offset e)) (\<lambda>l.
        let loc = loc\<lparr> loc_last := l \<rparr> in
        kbind (if below (MB 16) e then
                 kbind (SL_APPEND_BASE (loc_last_16mb loc) pa_next_16mb_update (entry_ptr offset e)) (\<lambda>l. kret (loc\<lparr> loc_last_16mb := l \<rparr>))
               else
                 kbind (system_paging_pa_is_sentinel (loc_first_non_16mb loc)) (\<lambda>none_yet.
                 kret (if none_yet then loc\<lparr> loc_first_non_16mb := entry_ptr offset e \<rparr> else loc))) (\<lambda>loc.
        kbind (if below (GB 4) e then
                 kbind (SL_APPEND_BASE (loc_last_4gb loc) pa_next_4gb_update (entry_ptr offset e)) (\<lambda>l. kret (loc\<lparr> loc_last_4gb := l \<rparr>))
               else kret loc) (\<lambda>loc.
        kbind (pa_load (entry_ptr offset e)) (\<lambda>pa.
        kbind (printf (''MEMMAP:  -> initialized physical allocator with size %i'' @ [newline]) [Va_Word (word_of_int (pa_size pa))]) (\<lambda>_.
        kret (Some loc))))))))))"

lemma usable_start:
  fixes s :: "'s paging_scheme"
  assumes e: "region_ok e" "4096 < entry_length e"
  obtains pa where "region_allocator e pa" "\<And>loc. system_paging_usable e offset loc s = usable_append e offset pa loc s"
proof -
  define n where "n = entry_pages e"
  define r where "r = pa_metadata_size n"
  obtain pa where pa: "system_pa_init (\<lambda>k. memory s (entry_ptr offset e + of_nat k)) (entry_base e) (int (metadata_pages n)) (int n) = Inr pa"
      "region_allocator e pa"
    using region_init [OF e] unfolding n_def by metis
  have len: "4096 < unat (entry_length e)" "unat (entry_length e) \<le> 2 ^ 32" using e by (simp_all add: region_ok_def word_less_nat_alt)
  have n: "0 < n" "n \<le> 2 ^ 20" "n * 4096 \<le> unat (entry_length e)" using len by (auto simp: n_def entry_pages_def div_greater_zero_iff)
  have "sint (entry_length e) = int (unat (entry_length e))" using len(2) by (intro sint_small) simp
  then have count: "sint (entry_length e) sdiv SYSTEM_PAGE_SIZE = int n" by (simp add: SYSTEM_PAGE_SIZE_def n_def entry_pages_def zdiv_int)
  have req: "system_pa_calculate_required_size (int n) = Inr (int r)" unfolding r_def using n by (intro required_size) (simp_all add: U32_MAX_def)
  have m: "metadata_pages n = r div 4096 + 1" by (simp add: metadata_pages_def r_def)
  have pages: "int r sdiv SYSTEM_PAGE_SIZE + 1 = int (metadata_pages n)" by (simp add: SYSTEM_PAGE_SIZE_def m zdiv_int)
  have "r div 4096 + 1 \<le> n" using metadata_bound [OF n(1)] by (simp add: m)
  then have small: "r < unat (entry_length e)" using n(3) by linarith
  have "r < 2 ^ 64" using small len(2) by simp
  then have r: "unat (word_of_int (int r) :: U64) = r" unfolding word_of_int_nat [OF of_nat_0_le_iff] nat_int by (rule unat_of_nat64)
  have fits: "word_of_int (int r) \<le> entry_length e" using small unfolding word_le_nat_alt r by simp
  have upages: "uint (entry_length e div word_of_int SYSTEM_PAGE_SIZE) = int n"
    by (simp add: SYSTEM_PAGE_SIZE_def n_def entry_pages_def uint_div zdiv_int flip: uint_nat)
  have big: "\<not> entry_length e \<le> word_of_int SYSTEM_PAGE_SIZE" using e(2) by (simp add: SYSTEM_PAGE_SIZE_def)
  show thesis
    by (rule that [OF pa(2)])
      (simp only: system_paging_usable_def if_not_P [OF big] count req klift_Inr kbind_kret Let_def pages kassert_ok [OF fits] upages kbind_kget
        pa(1) [unfolded entry_ptr_def] entry_ptr_def usable_append_def)
qed

lemma append_alt:
  "append_entry z offset e pa A loc =
     (let cur = entry_ptr offset e;
          A2 = link_in pa_next_update (loc_last loc) cur (A(cur \<mapsto> pa\<lparr> pa_next := z, pa_next_16mb := z, pa_next_4gb := z \<rparr>));
          (A3, loc3) = (if below (MB 16) e then (link_in pa_next_16mb_update (loc_last_16mb loc) cur A2, loc\<lparr> loc_last := cur, loc_last_16mb := cur \<rparr>)
             else (A2, if loc_first_non_16mb loc = pa_next (the (A2 (loc_first_non_16mb loc))) then loc\<lparr> loc_last := cur, loc_first_non_16mb := cur \<rparr>
                       else loc\<lparr> loc_last := cur \<rparr>))
      in if below (GB 4) e then (link_in pa_next_4gb_update (loc_last_4gb loc) cur A3, loc3\<lparr> loc_last_4gb := cur \<rparr>) else (A3, loc3))"
  by (cases loc) (simp add: append_entry_def Let_def)

lemma usable_run:
  fixes s :: "'s paging_scheme"
  assumes e: "region_ok e" "4096 < entry_length e" and ready: "console_ready port s"
    and defined: "allocators s (loc_last loc) \<noteq> None" "allocators s (loc_last_16mb loc) \<noteq> None" "allocators s (loc_last_4gb loc) \<noteq> None"
      "allocators s (loc_first_non_16mb loc) \<noteq> None"
  obtains pa l where "region_allocator e pa"
    "system_paging_usable e offset loc s =
       (Inr (Some (snd (append_entry (pa_sentinel s) offset e pa (allocators s) loc))),
        s\<lparr> allocators := fst (append_entry (pa_sentinel s) offset e pa (allocators s) loc), port_log := l \<rparr>)"
proof -
  obtain pa where pa: "region_allocator e pa" and start: "\<And>loc. system_paging_usable e offset loc s = usable_append e offset pa loc s"
    using usable_start [OF e, where s = s and offset = offset] by blast
  define cur where "cur = entry_ptr offset e"
  define A2 where "A2 = link_in pa_next_update (loc_last loc) cur ((allocators s)(cur \<mapsto> pa\<lparr> pa_next := pa_sentinel s, pa_next_16mb := pa_sentinel s, pa_next_4gb := pa_sentinel s \<rparr>))"
  define R3 where "R3 = (if below (MB 16) e then (link_in pa_next_16mb_update (loc_last_16mb loc) cur A2, loc\<lparr> loc_last := cur, loc_last_16mb := cur \<rparr>)
             else (A2, if loc_first_non_16mb loc = pa_next (the (A2 (loc_first_non_16mb loc))) then loc\<lparr> loc_last := cur, loc_first_non_16mb := cur \<rparr>
                       else loc\<lparr> loc_last := cur \<rparr>))"
  define R4 where "R4 = (if below (GB 4) e then (link_in pa_next_4gb_update (loc_last_4gb loc) cur (fst R3), (snd R3)\<lparr> loc_last_4gb := cur \<rparr>) else R3)"
  have R4: "append_entry (pa_sentinel s) offset e pa (allocators s) loc = R4"
    unfolding append_alt R4_def R3_def A2_def cur_def Let_def by simp
  have A2d: "A2 b \<noteq> None" if "allocators s b \<noteq> None \<or> b = cur" for b
    unfolding A2_def using that by (intro link_in_defined) auto
  have A3d: "fst R3 b \<noteq> None" if "A2 b \<noteq> None" for b
    using that link_in_defined [of A2 b] by (simp add: R3_def)
  have A4d: "fst R4 b \<noteq> None" if "fst R3 b \<noteq> None" for b
    using that link_in_defined [of "fst R3" b] by (simp add: R4_def)
  have l4: "loc_last_4gb (snd R3) = loc_last_4gb loc" by (simp add: R3_def)
  obtain pc where pc: "fst R4 cur = Some pc" using A4d A3d A2d by fastforce
  have ready4: "console_ready port (s\<lparr> allocators := fst R4 \<rparr>)" using ready by (simp add: console_ready_def transmits_def)
  obtain l where l: "printf (''MEMMAP:  -> initialized physical allocator with size %i'' @ [newline]) [Va_Word (word_of_int (pa_size pc))] (s\<lparr> allocators := fst R4 \<rparr>)
       = (Inr (), (s\<lparr> allocators := fst R4 \<rparr>)\<lparr> port_log := l \<rparr>)"
    using prints_run [OF allocator_line ready4] .
  have print: "kbind (printf (''MEMMAP:  -> initialized physical allocator with size %i'' @ [newline]) [Va_Word (word_of_int (pa_size pc))]) (\<lambda>_.
        kret (Some (snd R4))) (s\<lparr> allocators := fst R4 \<rparr>) = (Inr (Some (snd R4)), s\<lparr> allocators := fst R4, port_log := l \<rparr>)"
    unfolding kbind_def l by (simp add: kret_run)
  have step4: "kbind (if below (GB 4) e then
           kbind (SL_APPEND_BASE (loc_last_4gb (snd R3)) pa_next_4gb_update cur) (\<lambda>l. kret ((snd R3)\<lparr> loc_last_4gb := l \<rparr>))
         else kret (snd R3)) g (s\<lparr> allocators := fst R3 \<rparr>) = g (snd R4) (s\<lparr> allocators := fst R4 \<rparr>)" for g :: "setup_locals \<Rightarrow> ('s paging_scheme, setup_locals option) krun"
    using defined A3d A2d by (simp add: R4_def kbind_assoc kbind_append l4)
  have step3: "kbind (if below (MB 16) e then
           kbind (SL_APPEND_BASE (loc_last_16mb (loc\<lparr> loc_last := cur \<rparr>)) pa_next_16mb_update cur) (\<lambda>l. kret (loc\<lparr> loc_last := cur, loc_last_16mb := l \<rparr>))
         else
           kbind (system_paging_pa_is_sentinel (loc_first_non_16mb (loc\<lparr> loc_last := cur \<rparr>))) (\<lambda>none_yet.
             kret (if none_yet then loc\<lparr> loc_last := cur, loc_first_non_16mb := cur \<rparr> else loc\<lparr> loc_last := cur \<rparr>))) g (s\<lparr> allocators := A2 \<rparr>)
       = g (snd R3) (s\<lparr> allocators := fst R3 \<rparr>)" for g :: "setup_locals \<Rightarrow> ('s paging_scheme, setup_locals option) krun"
  proof (cases "below (MB 16) e")
    case True
    then show ?thesis using defined A2d by (simp add: R3_def kbind_assoc kbind_append)
  next
    case False
    obtain q where "A2 (loc_first_non_16mb loc) = Some q" using A2d defined by blast
    then show ?thesis using False by (simp add: R3_def kbind_assoc is_sentinel_run)
  qed
  have "system_paging_usable e offset loc s = (Inr (Some (snd R4)), s\<lparr> allocators := fst R4, port_log := l \<rparr>)"
    unfolding start usable_append_def Let_def cur_def [symmetric]
    using defined pc by (simp add: kbind_pa_modify kbind_append A2_def [symmetric] step3 step4 kbind_pa_load print del: append_Cons append_Nil)
  then show thesis using that pa R4 by blast
qed

section \<open>The invariant of the loop\<close>

text \<open>A list from \<^verbatim>\<open>base\<close>: it ends at NULL while it is empty and at the sentinel afterwards.\<close>

definition list_from :: "(ptr \<Rightarrow> System_Physical_Allocator option) \<Rightarrow> (System_Physical_Allocator \<Rightarrow> ptr) \<Rightarrow> ptr \<Rightarrow> ptr \<Rightarrow> ptr list \<Rightarrow> ptr \<Rightarrow> bool" where
  "list_from A link base z zs l \<longleftrightarrow> list_path A link base (base # zs) (if zs = [] then 0 else z) \<and> l = List.last (base # zs)"

definition setup_inv ::
    "ptr \<Rightarrow> ptr \<Rightarrow> U64 \<Rightarrow> limine_memmap_entry list \<Rightarrow> (ptr \<Rightarrow> System_Physical_Allocator option) \<Rightarrow> setup_locals \<Rightarrow> bool" where
  "setup_inv base z offset us A loc \<longleftrightarrow>
     list_from A pa_next base z (map (entry_ptr offset) us) (loc_last loc)
   \<and> list_from A pa_next_16mb base z (map (entry_ptr offset) (filter (below (MB 16)) us)) (loc_last_16mb loc)
   \<and> list_from A pa_next_4gb base z (map (entry_ptr offset) (filter (below (GB 4)) us)) (loc_last_4gb loc)
   \<and> (\<forall>e \<in> set us. \<exists>pa. A (entry_ptr offset e) = Some pa \<and> region_allocator e pa)
   \<and> (\<exists>sp. A z = Some sp \<and> pa_next sp = z)
   \<and> loc_first_non_16mb loc = hd (map (entry_ptr offset) (dropWhile (below (MB 16)) us) @ [z])"

lemma list_from_cong:
  assumes "list_from A link base z zs l" "\<And>y. y \<in> set (base # zs) \<Longrightarrow> map_option link (A' y) = map_option link (A y)"
  shows "list_from A' link base z zs l"
  using assms(1) list_path_cong [of "base # zs" link A' A, OF assms(2)] unfolding list_from_def by blast

lemma list_from_defined: "list_from A link base z zs l \<Longrightarrow> A l \<noteq> None"
  using list_path_defined [of A link base "base # zs" _ l] unfolding list_from_def by (metis last_in_set list.distinct(1) option.distinct(1))

lemma list_from_extend:
  assumes "list_from A link base z zs l" "distinct (base # zs @ [x])"
    and "\<And>y. y \<noteq> l \<Longrightarrow> y \<noteq> x \<Longrightarrow> map_option link (A' y) = map_option link (A y)"
    and "map_option link (A' l) = Some x" "map_option link (A' x) = Some z"
  shows "list_from A' link base z (zs @ [x]) x"
proof -
  have l: "base # zs = butlast (base # zs) @ [l]" using assms(1) by (simp add: list_from_def append_butlast_last_id del: butlast.simps last.simps)
  obtain pl px where new: "A' l = Some pl" "link pl = x" "A' x = Some px" "link px = z" using assms(4,5) by auto
  have "list_path A' link base (butlast (base # zs) @ [l, x]) z"
  proof (rule list_path_extend [OF _ _ _ new])
    show "list_path A link base (butlast (base # zs) @ [l]) (if zs = [] then 0 else z)" using assms(1) l by (simp only: list_from_def)
    show "distinct (butlast (base # zs) @ [l, x])" using assms(2) l by (metis append_Cons append_Nil append_assoc)
  qed (use assms(3) in blast)
  moreover have "butlast (base # zs) @ [l, x] = base # zs @ [x]" using l by (metis append_Cons append_Nil append_assoc)
  ultimately have "list_path A' link base (base # zs @ [x]) z" by (simp only:)
  then show ?thesis by (simp add: list_from_def del: list_path.simps)
qed

lemma link_in_other:
  "A l \<noteq> None \<Longrightarrow> map_option pa_next_16mb (link_in pa_next_update l c A y) = map_option pa_next_16mb (A y)"
  "A l \<noteq> None \<Longrightarrow> map_option pa_next_4gb (link_in pa_next_update l c A y) = map_option pa_next_4gb (A y)"
  "A l \<noteq> None \<Longrightarrow> map_option pa_next (link_in pa_next_16mb_update l c A y) = map_option pa_next (A y)"
  "A l \<noteq> None \<Longrightarrow> map_option pa_next_4gb (link_in pa_next_16mb_update l c A y) = map_option pa_next_4gb (A y)"
  "A l \<noteq> None \<Longrightarrow> map_option pa_next (link_in pa_next_4gb_update l c A y) = map_option pa_next (A y)"
  "A l \<noteq> None \<Longrightarrow> map_option pa_next_16mb (link_in pa_next_4gb_update l c A y) = map_option pa_next_16mb (A y)"
  by (auto simp: link_in_def)

lemma link_in_self:
  "map_option pa_next (link_in pa_next_update l c A y) = (if y = l then Some c else map_option pa_next (A y))"
  "map_option pa_next_16mb (link_in pa_next_16mb_update l c A y) = (if y = l then Some c else map_option pa_next_16mb (A y))"
  "map_option pa_next_4gb (link_in pa_next_4gb_update l c A y) = (if y = l then Some c else map_option pa_next_4gb (A y))"
  by (auto simp: link_in_def)

lemma link_in_allocator:
  assumes "A l \<noteq> None" "A y = Some pa" "region_allocator e pa"
  shows "\<exists>pa. link_in pa_next_update l c A y = Some pa \<and> region_allocator e pa"
    "\<exists>pa. link_in pa_next_16mb_update l c A y = Some pa \<and> region_allocator e pa"
    "\<exists>pa. link_in pa_next_4gb_update l c A y = Some pa \<and> region_allocator e pa"
  using assms region_allocator_links by (auto simp: link_in_def)

lemma append_entry_allocator:
  assumes "A (loc_last loc) \<noteq> None" "A (loc_last_16mb loc) \<noteq> None" "A (loc_last_4gb loc) \<noteq> None" "region_allocator e pa"
  shows "\<exists>pa'. fst (append_entry z offset e pa A loc) (entry_ptr offset e) = Some pa' \<and> region_allocator e pa'"
proof -
  let ?p = "entry_ptr offset e"
  define A1 where "A1 = A(?p \<mapsto> pa\<lparr> pa_next := z, pa_next_16mb := z, pa_next_4gb := z \<rparr>)"
  define A2 where "A2 = link_in pa_next_update (loc_last loc) ?p A1"
  define A3 where "A3 = (if below (MB 16) e then link_in pa_next_16mb_update (loc_last_16mb loc) ?p A2 else A2)"
  have d1: "A1 y \<noteq> None" if "A y \<noteq> None" for y using that by (simp add: A1_def)
  have d2: "A2 y \<noteq> None" if "A y \<noteq> None" for y unfolding A2_def using d1 [OF that] by (rule link_in_defined)
  have d3: "A3 y \<noteq> None" if "A y \<noteq> None" for y unfolding A3_def using d2 [OF that] link_in_defined [of A2 y] by simp
  note dl = d1 [OF assms(1)] d2 [OF assms(2)] d3 [OF assms(3)]
  have q1: "A1 ?p = Some (pa\<lparr> pa_next := z, pa_next_16mb := z, pa_next_4gb := z \<rparr>)" by (simp add: A1_def)
  have r1: "region_allocator e (pa\<lparr> pa_next := z, pa_next_16mb := z, pa_next_4gb := z \<rparr>)" using assms(4) by (simp only: region_allocator_links)
  obtain q2 where q2: "A2 ?p = Some q2" "region_allocator e q2" using link_in_allocator(1) [where A = A1, OF dl(1) q1 r1] unfolding A2_def by blast
  obtain q3 where q3: "A3 ?p = Some q3" "region_allocator e q3" using link_in_allocator(2) [where A = A2, OF dl(2) q2] q2 unfolding A3_def by metis
  have "fst (append_entry z offset e pa A loc) = (if below (GB 4) e then link_in pa_next_4gb_update (loc_last_4gb loc) ?p A3 else A3)"
    by (simp only: append_entry_def Let_def fst_conv A1_def A2_def A3_def)
  then show ?thesis using link_in_allocator(3) [where A = A3, OF dl(3) q3] q3 by simp
qed

lemma setup_inv_defined:
  assumes "setup_inv base z offset us A loc"
  shows "A (loc_last loc) \<noteq> None" "A (loc_last_16mb loc) \<noteq> None" "A (loc_last_4gb loc) \<noteq> None" "A (loc_first_non_16mb loc) \<noteq> None"
proof -
  show "A (loc_last loc) \<noteq> None" "A (loc_last_16mb loc) \<noteq> None" "A (loc_last_4gb loc) \<noteq> None"
    using assms unfolding setup_inv_def by (blast dest: list_from_defined)+
  have "hd (dropWhile (below (MB 16)) us) \<in> set us" if "dropWhile (below (MB 16)) us \<noteq> []"
    using that by (meson hd_in_set set_dropWhileD)
  then show "A (loc_first_non_16mb loc) \<noteq> None" using assms unfolding setup_inv_def
    by (cases "dropWhile (below (MB 16)) us = []") (auto simp: hd_append hd_map)
qed

lemma list_from_last: "list_from A link base z zs l \<Longrightarrow> l \<in> set (base # zs)"
  by (auto simp: list_from_def)

lemma append_entry_inv:
  assumes inv: "setup_inv base z offset us A loc" and dist: "distinct (base # z # map (entry_ptr offset) (us @ [e]))" and pa: "region_allocator e pa"
  shows "setup_inv base z offset (us @ [e]) (fst (append_entry z offset e pa A loc)) (snd (append_entry z offset e pa A loc))"
proof -
  define cur where "cur = entry_ptr offset e"
  define A1 where "A1 = A(cur \<mapsto> pa\<lparr> pa_next := z, pa_next_16mb := z, pa_next_4gb := z \<rparr>)"
  define A2 where "A2 = link_in pa_next_update (loc_last loc) cur A1"
  define A3 where "A3 = (if below (MB 16) e then link_in pa_next_16mb_update (loc_last_16mb loc) cur A2 else A2)"
  define A4 where "A4 = (if below (GB 4) e then link_in pa_next_4gb_update (loc_last_4gb loc) cur A3 else A3)"
  define loc' where "loc' = \<lparr> loc_last = cur, loc_last_16mb = (if below (MB 16) e then cur else loc_last_16mb loc),
      loc_last_4gb = (if below (GB 4) e then cur else loc_last_4gb loc),
      loc_first_non_16mb = (if \<not> below (MB 16) e \<and> loc_first_non_16mb loc = pa_next (the (A2 (loc_first_non_16mb loc)))
         then cur else loc_first_non_16mb loc) \<rparr>"
  have result: "append_entry z offset e pa A loc = (A4, loc')"
    by (simp add: append_entry_def Let_def A4_def A3_def A2_def A1_def loc'_def cur_def)
  let ?ps = "map (entry_ptr offset)"
  have lists: "list_from A pa_next base z (?ps us) (loc_last loc)" "list_from A pa_next_16mb base z (?ps (filter (below (MB 16)) us)) (loc_last_16mb loc)"
      "list_from A pa_next_4gb base z (?ps (filter (below (GB 4)) us)) (loc_last_4gb loc)"
    and regions: "\<And>d. d \<in> set us \<Longrightarrow> \<exists>pa. A (entry_ptr offset d) = Some pa \<and> region_allocator d pa"
    and first: "loc_first_non_16mb loc = hd (?ps (dropWhile (below (MB 16)) us) @ [z])"
    using inv unfolding setup_inv_def by blast+
  obtain sp where sp: "A z = Some sp" "pa_next sp = z" using inv unfolding setup_inv_def by blast
  have cur: "cur \<notin> set (base # ?ps us)" "cur \<noteq> z" and z: "z \<notin> set (base # ?ps us)" using dist by (auto simp: cur_def)
  have sub: "set (base # ?ps (filter P us)) \<subseteq> set (base # ?ps us)" for P by auto
  have lasts: "loc_last loc \<in> set (base # ?ps us)" "loc_last_16mb loc \<in> set (base # ?ps us)" "loc_last_4gb loc \<in> set (base # ?ps us)"
    using lists [THEN list_from_last] sub by blast+
  have d1: "A1 y \<noteq> None" if "A y \<noteq> None" for y using that by (simp add: A1_def)
  have d2: "A2 y \<noteq> None" if "A y \<noteq> None" for y unfolding A2_def using d1 [OF that] by (rule link_in_defined)
  have d3: "A3 y \<noteq> None" if "A y \<noteq> None" for y unfolding A3_def using d2 [OF that] link_in_defined [of A2 y] by simp
  note defined = setup_inv_defined [OF inv]
  note dl = d1 [OF defined(1)] d2 [OF defined(2)] d3 [OF defined(3)]
  have new: "map_option pa_next (A1 y) = (if y = cur then Some z else map_option pa_next (A y))"
      "map_option pa_next_16mb (A1 y) = (if y = cur then Some z else map_option pa_next_16mb (A y))"
      "map_option pa_next_4gb (A1 y) = (if y = cur then Some z else map_option pa_next_4gb (A y))" for y
    by (simp_all add: A1_def)
  have step2: "map_option pa_next (A2 y) = (if y = loc_last loc then Some cur else map_option pa_next (A1 y))"
      "map_option pa_next_16mb (A2 y) = map_option pa_next_16mb (A1 y)" "map_option pa_next_4gb (A2 y) = map_option pa_next_4gb (A1 y)" for y
    unfolding A2_def by (rule link_in_self link_in_other [where A = A1, OF dl(1)])+
  have step3: "map_option pa_next (A3 y) = map_option pa_next (A2 y)" "map_option pa_next_4gb (A3 y) = map_option pa_next_4gb (A2 y)"
      "map_option pa_next_16mb (A3 y) = (if below (MB 16) e \<and> y = loc_last_16mb loc then Some cur else map_option pa_next_16mb (A2 y))" for y
    by (cases "below (MB 16) e"; simp only: A3_def link_in_self link_in_other [where A = A2, OF dl(2)] if_True if_False simp_thms)+
  have step4: "map_option pa_next (A4 y) = map_option pa_next (A3 y)" "map_option pa_next_16mb (A4 y) = map_option pa_next_16mb (A3 y)"
      "map_option pa_next_4gb (A4 y) = (if below (GB 4) e \<and> y = loc_last_4gb loc then Some cur else map_option pa_next_4gb (A3 y))" for y
    by (cases "below (GB 4) e"; simp only: A4_def link_in_self link_in_other [where A = A3, OF dl(3)] if_True if_False simp_thms)+
  have next_all: "map_option pa_next (A4 y) = (if y = loc_last loc then Some cur else if y = cur then Some z else map_option pa_next (A y))"
      "map_option pa_next (A4 y) = map_option pa_next (A2 y)" for y
    by (simp_all only: step4 step3 step2 new)
  have next_16: "map_option pa_next_16mb (A4 y) = (if below (MB 16) e \<and> y = loc_last_16mb loc then Some cur else if y = cur then Some z else map_option pa_next_16mb (A y))" for y
    by (simp only: step4 step3 step2 new)
  have next_4: "map_option pa_next_4gb (A4 y) = (if below (GB 4) e \<and> y = loc_last_4gb loc then Some cur else if y = cur then Some z else map_option pa_next_4gb (A y))" for y
    by (simp only: step4 step3 step2 new)
  have all: "list_from A4 pa_next base z (?ps us @ [cur]) cur"
    using cur lasts dist by (intro list_from_extend [OF lists(1)]) (auto simp: next_all(1) cur_def)
  have l16: "list_from A4 pa_next_16mb base z (?ps (filter (below (MB 16)) (us @ [e]))) (loc_last_16mb loc')"
  proof (cases "below (MB 16) e")
    case True
    have "list_from A4 pa_next_16mb base z (?ps (filter (below (MB 16)) us) @ [cur]) cur"
      using cur lasts dist True by (intro list_from_extend [OF lists(2)]) (auto simp: next_16 cur_def distinct_map inj_on_def)
    then show ?thesis using True by (simp add: loc'_def cur_def)
  next
    case False
    have "list_from A4 pa_next_16mb base z (?ps (filter (below (MB 16)) us)) (loc_last_16mb loc)"
      using cur(1) False by (intro list_from_cong [OF lists(2)]) (auto simp: next_16)
    then show ?thesis using False by (simp add: loc'_def)
  qed
  have l4: "list_from A4 pa_next_4gb base z (?ps (filter (below (GB 4)) (us @ [e]))) (loc_last_4gb loc')"
  proof (cases "below (GB 4) e")
    case True
    have "list_from A4 pa_next_4gb base z (?ps (filter (below (GB 4)) us) @ [cur]) cur"
      using cur lasts dist True by (intro list_from_extend [OF lists(3)]) (auto simp: next_4 cur_def distinct_map inj_on_def)
    then show ?thesis using True by (simp add: loc'_def cur_def)
  next
    case False
    have "list_from A4 pa_next_4gb base z (?ps (filter (below (GB 4)) us)) (loc_last_4gb loc)"
      using cur(1) False by (intro list_from_cong [OF lists(3)]) (auto simp: next_4)
    then show ?thesis using False by (simp add: loc'_def)
  qed
  have keeps: "\<exists>p. A4 y = Some p \<and> region_allocator d p" if q: "A1 y = Some q" "region_allocator d q" for y d q
  proof -
    obtain q2 where q2: "A2 y = Some q2" "region_allocator d q2" using link_in_allocator(1) [where A = A1, OF dl(1) q] unfolding A2_def by blast
    obtain q3 where q3: "A3 y = Some q3" "region_allocator d q3" using link_in_allocator(2) [where A = A2, OF dl(2) q2] q2 unfolding A3_def by metis
    show ?thesis using link_in_allocator(3) [where A = A3, OF dl(3) q3] q3 unfolding A4_def by metis
  qed
  have "\<exists>p. A4 (entry_ptr offset d) = Some p \<and> region_allocator d p" if d: "d \<in> set (us @ [e])" for d
  proof (cases "entry_ptr offset d = cur")
    case True
    then have "d = e" using cur(1) d by auto
    have "A1 cur = Some (pa\<lparr> pa_next := z, pa_next_16mb := z, pa_next_4gb := z \<rparr>)" by (simp add: A1_def)
    moreover have "region_allocator d (pa\<lparr> pa_next := z, pa_next_16mb := z, pa_next_4gb := z \<rparr>)"
      using pa \<open>d = e\<close> by (simp only: region_allocator_links)
    ultimately show ?thesis unfolding True by (rule keeps)
  next
    case False
    then have "d \<in> set us" using d by (auto simp: cur_def)
    then obtain q where q: "A (entry_ptr offset d) = Some q" "region_allocator d q" using regions by blast
    have "A1 (entry_ptr offset d) = Some q" using False q(1) by (simp add: A1_def)
    then show ?thesis using q(2) by (rule keeps)
  qed
  moreover have "\<exists>sp. A4 z = Some sp \<and> pa_next sp = z"
    using next_all(1) [of z] sp cur(2) z lasts(1) by (metis (no_types, lifting) map_option_eq_Some)
  moreover have "loc_first_non_16mb loc' = hd (?ps (dropWhile (below (MB 16)) (us @ [e])) @ [z])"
  proof (cases "dropWhile (below (MB 16)) us = []")
    case True
    have "map_option pa_next (A2 z) = Some z" using next_all [of z] sp cur(2) z lasts(1) by auto
    then have "pa_next (the (A2 z)) = z" by auto
    moreover have "loc_first_non_16mb loc = z" using first True by simp
    moreover have "dropWhile (below (MB 16)) (us @ [e]) = (if below (MB 16) e then [] else [e])"
      using True by (simp add: dropWhile_append2 dropWhile_eq_Nil_conv)
    ultimately show ?thesis by (simp add: loc'_def cur_def)
  next
    case False
    define f where "f = hd (dropWhile (below (MB 16)) us)"
    have f: "f \<in> set us" unfolding f_def using False by (meson hd_in_set set_dropWhileD)
    have first_f: "loc_first_non_16mb loc = entry_ptr offset f"
      unfolding first f_def using False by (simp add: hd_append hd_map del: dropWhile_eq_Nil_conv)
    have path: "list_path A4 pa_next base (base # ?ps us @ [cur]) z" using all by (simp add: list_from_def del: list_path.simps)
    have "\<exists>q. A4 (entry_ptr offset f) = Some q \<and> pa_next q \<noteq> entry_ptr offset f"
      using f z cur dist by (intro list_path_next [OF path]) (auto simp: cur_def)
    then have "pa_next (the (A2 (entry_ptr offset f))) \<noteq> entry_ptr offset f"
      using next_all(2) [of "entry_ptr offset f"] by (auto dest!: sym [of "Some _"])
    moreover obtain x where "\<not> below (MB 16) x" "x \<in> set us" using False by (auto simp: dropWhile_eq_Nil_conv)
    then have "dropWhile (below (MB 16)) (us @ [e]) = dropWhile (below (MB 16)) us @ [e]" by (rule dropWhile_append1 [rotated])
    ultimately show ?thesis using False first_f by (simp add: loc'_def f_def hd_append hd_map del: dropWhile_eq_Nil_conv)
  qed
  moreover have "loc_last loc' = cur" by (simp add: loc'_def)
  ultimately show ?thesis using all l16 l4 unfolding setup_inv_def result fst_conv snd_conv by (simp add: cur_def)
qed

section \<open>The loop\<close>

text \<open>What the setup asks of the memory map: known types, and usable regions that the model covers.\<close>

definition memmap_ok :: "limine_memmap_entry list \<Rightarrow> bool" where
  "memmap_ok es \<longleftrightarrow> (\<forall>e \<in> set es. unat (entry_type e) < 9 \<and> (usable e \<longrightarrow> region_ok e))"

lemma skip_line: "prints (printf (''MEMMAP:  -> skipping to small memory area'' @ [newline]) [])"
  by (rule prints_plain) (simp_all add: newline_def)

text \<open>The part of the loop body that may add an allocator.\<close>

lemma memmap_entry_run:
  fixes s :: "'s paging_scheme"
  assumes ready: "console_ready port s" and e: "usable e \<Longrightarrow> region_ok e"
    and inv: "setup_inv base (pa_sentinel s) offset us (allocators s) loc"
    and dist: "distinct (base # pa_sentinel s # map (entry_ptr offset) (us @ filter usable [e]))"
  obtains A loc' l r where
    "(if entry_type e = LIMINE_MEMMAP_USABLE then system_paging_usable e offset loc else kret (Some loc)) s = (Inr r, s\<lparr> allocators := A, port_log := l \<rparr>)"
    "r = None \<and> loc' = loc \<or> r = Some loc'" "setup_inv base (pa_sentinel s) offset (us @ filter usable [e]) A loc'"
proof (cases "usable e")
  case True
  then have u: "entry_type e = LIMINE_MEMMAP_USABLE" "4096 < entry_length e" by (simp_all add: usable_def)
  obtain pa l where pa: "region_allocator e pa"
    "system_paging_usable e offset loc s =
       (Inr (Some (snd (append_entry (pa_sentinel s) offset e pa (allocators s) loc))),
        s\<lparr> allocators := fst (append_entry (pa_sentinel s) offset e pa (allocators s) loc), port_log := l \<rparr>)"
    using usable_run [OF e [OF True] u(2) ready setup_inv_defined [OF inv], where offset = offset] by metis
  have "setup_inv base (pa_sentinel s) offset (us @ [e]) (fst (append_entry (pa_sentinel s) offset e pa (allocators s) loc))
      (snd (append_entry (pa_sentinel s) offset e pa (allocators s) loc))"
    using append_entry_inv [OF inv _ pa(1)] dist True by simp
  then show thesis using that [OF _ disjI2 [OF refl]] pa(2) u(1) True by simp
next
  case False
  show thesis
  proof (cases "entry_type e = LIMINE_MEMMAP_USABLE")
    case True
    then have "entry_length e \<le> word_of_int SYSTEM_PAGE_SIZE" using False by (simp add: usable_def SYSTEM_PAGE_SIZE_def)
    moreover obtain l where "printf (''MEMMAP:  -> skipping to small memory area'' @ [newline]) [] s = (Inr (), s\<lparr> port_log := l \<rparr>)"
      using prints_run [OF skip_line ready] .
    ultimately have "system_paging_usable e offset loc s = (Inr None, s\<lparr> port_log := l \<rparr>)"
      unfolding system_paging_usable_def kbind_def by (simp add: kret_run)
    then show thesis using that [where r = None and A = "allocators s" and l = l and loc' = loc] inv True False by simp
  next
    case other: False
    then show thesis using that [where r = "Some loc" and A = "allocators s" and l = "port_log s" and loc' = loc] inv False by (simp add: kret_run)
  qed
qed

lemma memmap_name: "unat (t :: 64 word) < 9 \<Longrightarrow> \<exists>name. array_get system_paging_memmap_string (uint t) = Inr name"
proof -
  assume "unat t < 9"
  then have "uint t < 9" by (metis of_nat_less_iff of_nat_numeral uint_nat)
  moreover have "length system_paging_memmap_string = 9" by (simp add: system_paging_memmap_string_def)
  ultimately show ?thesis unfolding array_get_def by (metis of_nat_numeral uint_ge_0)
qed

lemma memmap_loop_run:
  fixes s :: "'s paging_scheme"
  assumes "console_ready port s" "memmap_ok es" "exe_addr_response s = Some (physical_base, virtual_base)"
    and "setup_inv base (pa_sentinel s) offset us (allocators s) loc"
    and "distinct (base # pa_sentinel s # map (entry_ptr offset) (us @ filter usable es))"
  shows "\<exists>A loc' l. system_paging_memmap_loop es offset top_of_stack loc s = (Inr loc', s\<lparr> allocators := A, port_log := l \<rparr>)
     \<and> setup_inv base (pa_sentinel s) offset (us @ filter usable es) A loc'"
  using assms
proof (induction es arbitrary: us loc s)
  case Nil
  have "system_paging_memmap_loop [] offset top_of_stack loc s = (Inr loc, s\<lparr> allocators := allocators s, port_log := port_log s \<rparr>)"
    by (simp add: kret_run)
  moreover have "setup_inv base (pa_sentinel s) offset (us @ filter usable []) (allocators s) loc" using Nil.prems(4) by simp
  ultimately show ?case by blast
next
  case (Cons e es)
  have ok: "unat (entry_type e) < 9" "usable e \<Longrightarrow> region_ok e" "memmap_ok es" using Cons.prems(2) by (auto simp: memmap_ok_def)
  obtain name where name: "array_get system_paging_memmap_string (uint (entry_type e)) = Inr name"
    using memmap_name [OF ok(1)] by blast
  obtain l1 where l1: "printf (''MEMMAP: %xU-%xU(%xU) - %s'' @ [newline])
       [Va_Word (entry_base e), Va_Word (entry_base e + entry_length e), Va_Word (entry_length e), Va_String (STR_of name)] s
       = (Inr (), s\<lparr> port_log := l1 \<rparr>)"
    using prints_run [OF memmap_line Cons.prems(1)] .
  define s1 where "s1 = s\<lparr> port_log := l1 \<rparr>"
  have s1: "console_ready port s1" "pa_sentinel s1 = pa_sentinel s" "allocators s1 = allocators s" "exe_addr_response s1 = exe_addr_response s"
    using Cons.prems(1) by (simp_all add: s1_def)
  have inv1: "setup_inv base (pa_sentinel s1) offset us (allocators s1) loc" using Cons.prems(4) s1 by simp
  have dist1: "distinct (base # pa_sentinel s1 # map (entry_ptr offset) (us @ filter usable [e]))"
    using Cons.prems(5) s1 by (auto split: if_splits)
  obtain A loc1 l2 r where entry:
    "(if entry_type e = LIMINE_MEMMAP_USABLE then system_paging_usable e offset loc else kret (Some loc)) s1 = (Inr r, s1\<lparr> allocators := A, port_log := l2 \<rparr>)"
    "r = None \<and> loc1 = loc \<or> r = Some loc1" "setup_inv base (pa_sentinel s1) offset (us @ filter usable [e]) A loc1"
    using memmap_entry_run [OF s1(1) ok(2) inv1 dist1] by metis
  define s2 where "s2 = s1\<lparr> allocators := A, port_log := l2 \<rparr>"
  have ready2: "console_ready port s2" using s1(1) by (simp add: s2_def console_ready_def transmits_def)
  have exe2: "exe_addr_response s2 = Some (physical_base, virtual_base)" using Cons.prems(3) s1 by (simp add: s2_def)
  obtain l3 where l3: "system_paging_report e (top_of_stack - offset) top_of_stack s2 = (Inr (), s2\<lparr> port_log := l3 \<rparr>)"
    using report_prints [OF ready2 exe2] by blast
  define l where "l = (if r = None then l2 else l3)"
  define s3 where "s3 = s2\<lparr> port_log := l \<rparr>"
  have step: "system_paging_memmap_loop (e # es) offset top_of_stack loc s = system_paging_memmap_loop es offset top_of_stack loc1 s3"
  proof -
    have "system_paging_memmap_loop (e # es) offset top_of_stack loc s = (case r of None \<Rightarrow> system_paging_memmap_loop es offset top_of_stack loc
        | Some loc \<Rightarrow> kbind (system_paging_report e (top_of_stack - offset) top_of_stack) (\<lambda>_. system_paging_memmap_loop es offset top_of_stack loc)) s2"
      unfolding system_paging_memmap_loop.simps name klift_Inr kbind_kret
        kbind_run [where m = "printf _ _" and s = s, OF l1] s1_def [symmetric] kbind_run [where m = "if entry_type e = LIMINE_MEMMAP_USABLE then system_paging_usable e offset loc else kret (Some loc)" and s = s1, OF entry(1)] s2_def ..
    also have "\<dots> = system_paging_memmap_loop es offset top_of_stack loc1 s3"
    proof (cases r)
      case None
      then show ?thesis using entry(2) by (simp add: s3_def l_def s2_def)
    next
      case (Some loc)
      then show ?thesis using entry(2)
        by (simp add: kbind_run [where m = "system_paging_report e (top_of_stack - offset) top_of_stack" and s = s2, OF l3] s3_def l_def)
    qed
    finally show ?thesis .
  qed
  have s3: "console_ready port s3" "pa_sentinel s3 = pa_sentinel s" "allocators s3 = A" "exe_addr_response s3 = Some (physical_base, virtual_base)"
    using ready2 s1 exe2 by (simp_all add: s3_def s2_def)
  have "setup_inv base (pa_sentinel s3) offset (us @ filter usable [e]) (allocators s3) loc1" using entry(3) s1 s3 by simp
  moreover have "distinct (base # pa_sentinel s3 # map (entry_ptr offset) ((us @ filter usable [e]) @ filter usable es))"
    using Cons.prems(5) s3 by (simp split: if_splits)
  ultimately obtain A' loc' l' where "system_paging_memmap_loop es offset top_of_stack loc1 s3 = (Inr loc', s3\<lparr> allocators := A', port_log := l' \<rparr>)"
      "setup_inv base (pa_sentinel s3) offset ((us @ filter usable [e]) @ filter usable es) A' loc'"
    using Cons.IH [OF s3(1) ok(3) s3(4)] by blast
  then show ?case unfolding step using s3(2) by (auto simp: s3_def s2_def s1_def split: if_splits)
qed

section \<open>The lists\<close>

lemma kbind_kmodify_last: "kmodify f s = (Inr (), f s)"
  by (simp add: kmodify_def)

lemma setup_lists_run:
  fixes s :: "'s paging_scheme"
  assumes ready: "console_ready port s" and map: "memmap_response s = Some es" "memmap_ok es"
    and answers: "hhdm_response s = Some (revision, offset)" "exe_addr_response s = Some (physical_base, virtual_base)"
    and sentinel: "allocators s (pa_sentinel s) \<noteq> None"
    and dist: "distinct (setup_base s # pa_sentinel s # map (entry_ptr offset) (filter usable es))"
  obtains A l loc b where
    "system_paging_setup_lists top_of_stack s = (Inr (), s\<lparr> allocators := A, port_log := l,
       pg_first := pa_next b, pg_first_16mb := pa_next_16mb b, pg_first_4gb := pa_next_4gb b,
       pg_last := loc_last loc, pg_last_16mb := loc_last_16mb loc, pg_last_4gb := loc_last_4gb loc,
       pg_first_non_16mb := loc_first_non_16mb loc \<rparr>)"
    "A (setup_base s) = Some b" "setup_inv (setup_base s) (pa_sentinel s) offset (filter usable es) A loc"
proof -
  let ?base = "setup_base s" and ?z = "pa_sentinel s"
  obtain sp where sp: "allocators s ?z = Some sp" using sentinel by blast
  have neq: "?base \<noteq> ?z" using dist by auto
  define A0 where "A0 = (allocators s)(?base \<mapsto> pa_zero, ?z \<mapsto> sp\<lparr> pa_next := ?z, pa_next_16mb := ?z, pa_next_4gb := ?z \<rparr>)"
  define loc0 where "loc0 = \<lparr> loc_last = ?base, loc_last_16mb = ?base, loc_last_4gb = ?base, loc_first_non_16mb = ?z \<rparr>"
  define s0 where "s0 = s\<lparr> allocators := A0 \<rparr>"
  have inv0: "setup_inv ?base (pa_sentinel s0) offset [] (allocators s0) loc0"
    using neq by (simp add: setup_inv_def list_from_def loc0_def s0_def A0_def pa_zero_def)
  have ready0: "console_ready port s0" using ready by (simp add: s0_def console_ready_def transmits_def)
  have exe0: "exe_addr_response s0 = Some (physical_base, virtual_base)" using answers(2) by (simp add: s0_def)
  have dist0: "distinct (?base # pa_sentinel s0 # map (entry_ptr offset) ([] @ filter usable es))" using dist by (simp add: s0_def)
  obtain A loc l where loop: "system_paging_memmap_loop es offset top_of_stack loc0 s0 = (Inr loc, s0\<lparr> allocators := A, port_log := l \<rparr>)"
      "setup_inv ?base ?z offset (filter usable es) A loc"
    using memmap_loop_run [OF ready0 map(2) exe0 inv0 dist0, of top_of_stack] unfolding s0_def append_Nil by auto
  have "list_from A pa_next ?base ?z (map (entry_ptr offset) (filter usable es)) (loc_last loc)" using loop(2) by (simp add: setup_inv_def)
  then obtain b where b: "A ?base = Some b" by (auto simp: list_from_def)
  have start: "system_paging_setup_lists top_of_stack s = kbind (system_paging_memmap_loop es offset top_of_stack loc0) (\<lambda>loc.
         kbind (pa_load ?base) (\<lambda>b.
         kmodify (\<lambda>s. s\<lparr> pg_first := pa_next b, pg_first_16mb := pa_next_16mb b, pg_first_4gb := pa_next_4gb b,
           pg_last := loc_last loc, pg_last_16mb := loc_last_16mb loc, pg_last_4gb := loc_last_4gb loc,
           pg_first_non_16mb := loc_first_non_16mb loc \<rparr>))) s0"
    unfolding system_paging_setup_lists_def using map(1) answers(1) sp neq
    by (simp add: kbind_pa_modify hhdm_offset_def kbind_assoc loc0_def s0_def A0_def)
  have "system_paging_setup_lists top_of_stack s = (Inr (), s\<lparr> allocators := A, port_log := l,
       pg_first := pa_next b, pg_first_16mb := pa_next_16mb b, pg_first_4gb := pa_next_4gb b,
       pg_last := loc_last loc, pg_last_16mb := loc_last_16mb loc, pg_last_4gb := loc_last_4gb loc,
       pg_first_non_16mb := loc_first_non_16mb loc \<rparr>)"
    unfolding start kbind_run [where m = "system_paging_memmap_loop es offset top_of_stack loc0" and s = s0, OF loop(1)]
    using b by (simp add: kbind_pa_load kbind_kmodify_last s0_def)
  then show thesis using that b loop(2) by blast
qed

text \<open>At the end the list of the regions below 16 MB and the rest of the whole list are well formed.\<close>

lemma setup_chains:
  assumes inv: "setup_inv base z offset us A loc" and dist: "distinct (base # z # map (entry_ptr offset) us)" and b: "A base = Some b"
  shows "chain A pa_next (loc_first_non_16mb loc) (map (entry_ptr offset) (dropWhile (below (MB 16)) us))"
    and "filter (below (MB 16)) us \<noteq> [] \<Longrightarrow> chain A pa_next_16mb (pa_next_16mb b) (map (entry_ptr offset) (filter (below (MB 16)) us))"
    and "filter (below (MB 16)) us = [] \<Longrightarrow> pa_next_16mb b = 0"
proof -
  let ?ps = "map (entry_ptr offset)"
  obtain sp where sp: "A z = Some sp" "pa_next sp = z" using inv unfolding setup_inv_def by blast
  have all: "list_path A pa_next base (base # ?ps us) (if us = [] then 0 else z)"
    and low: "list_path A pa_next_16mb base (base # ?ps (filter (below (MB 16)) us)) (if filter (below (MB 16)) us = [] then 0 else z)"
    and first: "loc_first_non_16mb loc = hd (?ps (dropWhile (below (MB 16)) us) @ [z])"
    using inv unfolding setup_inv_def list_from_def map_is_Nil_conv by blast+
  have proper: "\<exists>pa. A y = Some pa \<and> pa_next pa \<noteq> y" if "y \<in> set (?ps us)" for y
  proof -
    have "us \<noteq> []" using that by auto
    then have "list_path A pa_next base (base # ?ps us) z" using all by (simp only: if_False)
    then show ?thesis using that dist by (intro list_path_next [where zs = "base # ?ps us" and z = z]) auto
  qed
  show "chain A pa_next (loc_first_non_16mb loc) (?ps (dropWhile (below (MB 16)) us))"
  proof (cases "dropWhile (below (MB 16)) us = []")
    case True
    then show ?thesis unfolding first True using sp by simp
  next
    case False
    then have "us \<noteq> []" by auto
    have "list_path A pa_next base ((base # ?ps (takeWhile (below (MB 16)) us)) @ ?ps (dropWhile (below (MB 16)) us)) z"
      using all \<open>us \<noteq> []\<close> by (simp del: list_path.simps flip: map_append)
    then obtain c where c: "list_path A pa_next c (?ps (dropWhile (below (MB 16)) us)) z" unfolding list_path_append by blast
    moreover have "c = loc_first_non_16mb loc" using c False unfolding first by (cases "dropWhile (below (MB 16)) us") auto
    ultimately show ?thesis
      using proper set_dropWhileD [of _ "below (MB 16)" us] by (intro chain_of_path [where A = A and z = z, OF _ sp]) auto
  qed
  show "chain A pa_next_16mb (pa_next_16mb b) (?ps (filter (below (MB 16)) us))" if ne: "filter (below (MB 16)) us \<noteq> []"
  proof -
    have "list_path A pa_next_16mb (pa_next_16mb b) (?ps (filter (below (MB 16)) us)) z" using low ne b by simp
    then show ?thesis using proper by (intro chain_of_path [where A = A and z = z, OF _ sp]) auto
  qed
  show "pa_next_16mb b = 0" if "filter (below (MB 16)) us = []" using low that b by simp
qed

text \<open>The regions the lists are made of: no two overlap, and one lies below 16 MB.\<close>

definition regions_ok :: "limine_memmap_entry list \<Rightarrow> bool" where
  "regions_ok us \<longleftrightarrow> (\<forall>e \<in> set us. \<forall>d \<in> set us. e \<noteq> d \<longrightarrow> region_pages e \<inter> region_pages d = {}) \<and> (\<exists>e \<in> set us. below (MB 16) e)"

lemma setup_frames:
  fixes s :: "'s paging_scheme"
  assumes inv: "setup_inv base z offset us (allocators s) loc" and dist: "distinct (base # z # map (entry_ptr offset) us)"
    and b: "allocators s base = Some b" and regions: "regions_ok us"
    and fields: "pg_first_16mb s = pa_next_16mb b" "pg_first_non_16mb s = loc_first_non_16mb loc" "length us < list_limit s"
  shows "frame_inv (map (entry_ptr offset) (dropWhile (below (MB 16)) us)) (map (entry_ptr offset) (filter (below (MB 16)) us)) s"
    and "frame_free (map (entry_ptr offset) (dropWhile (below (MB 16)) us)) (map (entry_ptr offset) (filter (below (MB 16)) us)) s = (\<Union>e \<in> set us. region_free e)"
proof -
  let ?ps = "map (entry_ptr offset)"
  let ?xs = "?ps (dropWhile (below (MB 16)) us)" and ?ys = "?ps (filter (below (MB 16)) us)"
  have low: "filter (below (MB 16)) us \<noteq> []" using regions by (auto simp: regions_ok_def filter_empty_conv)
  have "set us = set (dropWhile (below (MB 16)) us) \<union> set (filter (below (MB 16)) us)"
    using arg_cong [OF takeWhile_dropWhile_id [of "below (MB 16)" us], of set] set_takeWhileD [of _ "below (MB 16)" us] set_dropWhileD [of _ "below (MB 16)" us]
    unfolding set_append set_filter by blast
  then have sets: "set ?xs \<union> set ?ys = entry_ptr offset ` set us" by auto
  have at: "\<exists>pa. allocators s (entry_ptr offset e) = Some pa \<and> region_allocator e pa" if "e \<in> set us" for e
    using inv that unfolding setup_inv_def by blast
  have "\<forall>x \<in> set ?xs \<union> set ?ys. frame_ok (the (allocators s x))"
    using at unfolding sets by (fastforce simp: region_allocator_def)
  moreover have "\<forall>x \<in> set ?xs \<union> set ?ys. \<forall>y \<in> set ?xs \<union> set ?ys. x \<noteq> y \<longrightarrow> pa_pages (the (allocators s x)) \<inter> pa_pages (the (allocators s y)) = {}"
  proof (intro ballI impI)
    fix x y assume "x \<in> set ?xs \<union> set ?ys" "y \<in> set ?xs \<union> set ?ys" "x \<noteq> y"
    then obtain e d where ed: "x = entry_ptr offset e" "y = entry_ptr offset d" "e \<in> set us" "d \<in> set us" "e \<noteq> d" unfolding sets by blast
    then show "pa_pages (the (allocators s x)) \<inter> pa_pages (the (allocators s y)) = {}"
      using at [OF ed(3)] at [OF ed(4)] regions region_allocator_pages(1) unfolding regions_ok_def by fastforce
  qed
  moreover have "length ?xs < list_limit s" "length ?ys < list_limit s"
    unfolding length_map using fields(3) length_dropWhile_le [of "below (MB 16)" us] length_filter_le [of "below (MB 16)" us] by linarith+
  ultimately show "frame_inv ?xs ?ys s"
    using setup_chains [OF inv dist b] low fields unfolding frame_inv_def by simp
  have "pa_free_pages (the (allocators s (entry_ptr offset e))) = region_free e" if "e \<in> set us" for e
    using at [OF that] region_allocator_pages(2) by fastforce
  then show "frame_free ?xs ?ys s = (\<Union>e \<in> set us. region_free e)" unfolding frame_free_def sets by auto
qed

section \<open>The whole setup\<close>

lemma replacing_line: "prints (printf (''PAGING: replacing page table'' @ [newline]) [])" "prints (printf (''PAGING: replaced page table'' @ [newline]) [])"
  by (intro prints_plain; simp add: newline_def)+

lemma paging_inv_fields:
  "paging_inv xs ys offset root (s\<lparr> port_log := l \<rparr>) = paging_inv xs ys offset root s"
  "paging_inv xs ys offset root (s\<lparr> cr3 := c \<rparr>) = paging_inv xs ys offset root s"
  by (simp_all add: paging_inv_def frame_inv_def frame_free_def)

text \<open>What the page table is copied from and into.\<close>

lemma setup_lists_paging:
  fixes s :: "'s paging_scheme"
  assumes boot: "console_ready port s" "memmap_response s = Some es" "memmap_ok es"
      "hhdm_response s = Some (revision, offset)" "exe_addr_response s = Some (physical_base, virtual_base)" "allocators s (pa_sentinel s) \<noteq> None"
    and dist: "distinct (setup_base s # pa_sentinel s # map (entry_ptr offset) (filter usable es))"
    and regions: "regions_ok (filter usable es)" "length (filter usable es) < list_limit s"
    and tree: "unshared (entries_of offset s) root" "root + offset \<noteq> 0"
    and apart: "\<forall>e \<in> set (filter usable es). tables (entries_of offset s) root \<inter> region_pages e = {}"
  obtains xs ys s1 where "system_paging_setup_lists top_of_stack s = (Inr (), s1)" "console_ready port s1" "paging_inv xs ys offset root s1"
    "frame_free xs ys s1 = (\<Union>e \<in> set (filter usable es). region_free e)" "entries_of offset s1 = entries_of offset s"
    "hhdm_response s1 = hhdm_response s" "cr3 s1 = cr3 s"
proof -
  let ?us = "filter usable es"
  let ?xs = "map (entry_ptr offset) (dropWhile (below (MB 16)) ?us)" and ?ys = "map (entry_ptr offset) (filter (below (MB 16)) ?us)"
  obtain A l loc b where lists: "system_paging_setup_lists top_of_stack s = (Inr (), s\<lparr> allocators := A, port_log := l,
       pg_first := pa_next b, pg_first_16mb := pa_next_16mb b, pg_first_4gb := pa_next_4gb b,
       pg_last := loc_last loc, pg_last_16mb := loc_last_16mb loc, pg_last_4gb := loc_last_4gb loc,
       pg_first_non_16mb := loc_first_non_16mb loc \<rparr>)" (is "_ = (_, ?s1)")
    "A (setup_base s) = Some b" "setup_inv (setup_base s) (pa_sentinel s) offset ?us A loc"
    by (rule setup_lists_run [OF boot dist, where top_of_stack = top_of_stack])
  have frames: "frame_inv ?xs ?ys ?s1" "frame_free ?xs ?ys ?s1 = (\<Union>e \<in> set ?us. region_free e)"
    by (rule setup_frames [where loc = loc and b = b, OF _ dist _ regions(1)]; use lists(2,3) regions(2) in simp)+
  have entries: "entries_of offset ?s1 = entries_of offset s" by simp
  have "tables (entries_of offset s) root \<inter> (\<Union>e \<in> set ?us. region_free e) = {}" using apart region_free_pages by blast
  then have "paging_inv ?xs ?ys offset root ?s1" using frames tree boot(4) by (simp add: paging_inv_def entries)
  then show thesis using that [OF lists(1) _ _ frames(2) entries] boot(1) by (simp add: console_ready_def transmits_def)
qed

text \<open>Without a region below 16 MB the list of these regions is the NULL that \<^verbatim>\<open>base\<close> was initialised with, and an allocation of such a page
  follows it: when NULL is not mapped, it is an invalid access.\<close>

lemma system_paging_setup_no_low_memory:
  fixes s :: "'s paging_scheme"
  assumes "console_ready port s" and "memmap_response s = Some es" and "memmap_ok es"
    and "hhdm_response s = Some (revision, offset)" and "exe_addr_response s = Some (physical_base, virtual_base)"
    and "allocators s (pa_sentinel s) \<noteq> None"
    and "distinct (setup_base s # pa_sentinel s # map (entry_ptr offset) (filter usable es))"
    and "\<forall>e \<in> set es. usable e \<longrightarrow> \<not> below (MB 16) e"
  shows "\<exists>s'. system_paging_setup_lists top_of_stack s = (Inr (), s') \<and> pg_first_16mb s' = 0
     \<and> (0 < list_limit s' \<and> allocators s' 0 = None \<longrightarrow>
          system_paging_physical_alloc SYSTEM_PHYSICAL_PAGE_16MB s' = (Inl (Fault ''System_Physical_Allocator pointer''), s'))"
proof -
  obtain A l loc b where run: "system_paging_setup_lists top_of_stack s = (Inr (), s\<lparr> allocators := A, port_log := l,
       pg_first := pa_next b, pg_first_16mb := pa_next_16mb b, pg_first_4gb := pa_next_4gb b,
       pg_last := loc_last loc, pg_last_16mb := loc_last_16mb loc, pg_last_4gb := loc_last_4gb loc,
       pg_first_non_16mb := loc_first_non_16mb loc \<rparr>)"
    "A (setup_base s) = Some b" "setup_inv (setup_base s) (pa_sentinel s) offset (filter usable es) A loc"
    by (rule setup_lists_run [OF assms(1-7), where top_of_stack = top_of_stack])
  have "filter (below (MB 16)) (filter usable es) = []" using assms(8) by (auto simp: filter_empty_conv)
  then have zero: "pa_next_16mb b = 0" by (rule setup_chains(3) [OF run(3) assms(7) run(2)])
  have fault: "physical_alloc_loop n pa_next_16mb 0 t = (Inl (Fault ''System_Physical_Allocator pointer''), t)"
    if "0 < n" "allocators t 0 = None" for n and t :: "'s paging_scheme"
    using that by (cases n) (simp_all add: system_paging_pa_is_sentinel_def pa_load_def kbind_assoc kstop_def kbind_def)
  show ?thesis
    by (rule exI, rule conjI [OF run(1)])
      (auto simp: zero system_paging_physical_alloc_def Let_def kbind_run_Inl [OF fault])
qed

section \<open>An example\<close>

text \<open>A map of two entries: 32 usable pages from 1 MB on, and a reserved area.\<close>

definition example_region :: limine_memmap_entry where
  "example_region = \<lparr> entry_base = 0x100000, entry_length = 0x20000, entry_type = LIMINE_MEMMAP_USABLE \<rparr>"

definition example_boot :: paging where
  "example_boot = (example_paging False)\<lparr>
     memmap_response := Some [example_region, \<lparr> entry_base = 0xF0000000, entry_length = 0x1000, entry_type = 1 \<rparr>],
     exe_addr_response := Some (0x200000, 0xFFFFFFFF80000000), cr3 := 0x8000 \<rparr>"

lemma example_region_ok:
  "region_ok example_region" "4096 < entry_length example_region" "usable example_region" "below (MB 16) example_region"
  "region_pages example_region = (\<lambda>k. 0x100000 + of_nat (k * 4096)) ` {..<32}" "region_free example_region = (\<lambda>k. 0x100000 + of_nat (k * 4096)) ` {1..<32}"
  by (simp_all add: example_region_def region_ok_def usable_def below_def MB_def KB_def region_pages_def region_free_def entry_pages_def
      metadata_pages_def pa_metadata_size_def LIMINE_MEMMAP_USABLE_def)

lemma example_region_bound: "p \<in> region_pages example_region \<Longrightarrow> 0x100000 \<le> p \<and> p < 0x120000"
proof -
  have "unat (0x100000 + of_nat (k * 4096) :: U64) = 0x100000 + k * 4096" if "k < 32" for k
    using that by (simp add: unat_word_ariths unat_of_nat64)
  then show "p \<in> region_pages example_region \<Longrightarrow> 0x100000 \<le> p \<and> p < 0x120000"
    by (auto simp: example_region_ok word_le_nat_alt word_less_nat_alt)
qed

lemma example_boot_fields:
  "memmap_response example_boot = Some [example_region, \<lparr> entry_base = 0xF0000000, entry_length = 0x1000, entry_type = 1 \<rparr>]"
  "hhdm_response example_boot = Some (0, 0xFFFF800000000000)" "exe_addr_response example_boot = Some (0x200000, 0xFFFFFFFF80000000)"
  "allocators example_boot = [0x100 \<mapsto> pa_zero\<lparr> pa_next := 0x100 \<rparr>]" "pa_sentinel example_boot = 0x100" "setup_base example_boot = 0x180"
  "list_limit example_boot = 3" "cr3 example_boot = 0x8000" "console_ready SERIAL_COM1 example_boot"
  "entries_of 0xFFFF800000000000 example_boot p i = 0"
proof -
  show "console_ready SERIAL_COM1 example_boot"
    using example_paging_ok(4) [of False] by (simp add: example_boot_def console_ready_def transmits_def)
  show "entries_of 0xFFFF800000000000 example_boot p i = 0"
    using example_paging_entries [of False p i] by (simp add: example_boot_def)
qed (simp_all add: example_boot_def example_paging_def kernel.extend_def)

section \<open>The properties\<close>

text \<open>(C11) \<^verbatim>\<open>system_paging_usable\<close>, the part of the boot loop for a usable region of more than one page: whatever the memory of the region
  holds, it returns with an allocator at the start of the region whose invariant holds and whose first free page \<open>m\<close> lies behind everything
  the allocator keeps there: the struct of 64 bytes, the bitmap and the stack. No page more than needed is reserved, beyond one when the
  size is a multiple of the page size.\<close>

theorem system_paging_usable_correct:
  fixes s :: "'s paging_scheme"
  assumes "console_ready port s" and "region_ok e" and "4096 < entry_length e"
    and "{loc_last loc, loc_last_16mb loc, loc_last_4gb loc, loc_first_non_16mb loc} \<subseteq> dom (allocators s)"
  shows "\<exists>A l loc' pa m. system_paging_usable e offset loc s = (Inr (Some loc'), s\<lparr> allocators := A, port_log := l \<rparr>)
     \<and> loc_last loc' = entry_ptr offset e \<and> A (entry_ptr offset e) = Some pa \<and> pa_wf pa
     \<and> address_base pa = entry_base e \<and> pa_size pa = uint (entry_length e) div SYSTEM_PAGE_SIZE
     \<and> pa_frees pa = {m..<nat (pa_size pa)}
     \<and> 64 + 8 * length (pages_bitmap pa) + 4 * length (pages_stack pa) \<le> m * 4096
     \<and> (m - 1) * 4096 \<le> 64 + 8 * length (pages_bitmap pa) + 4 * length (pages_stack pa)"
proof -
  let ?p = "entry_ptr offset e"
  have defined: "allocators s (loc_last loc) \<noteq> None" "allocators s (loc_last_16mb loc) \<noteq> None" "allocators s (loc_last_4gb loc) \<noteq> None"
      "allocators s (loc_first_non_16mb loc) \<noteq> None"
    using assms(4) by blast+
  obtain pa l where run: "region_allocator e pa" "system_paging_usable e offset loc s =
       (Inr (Some (snd (append_entry (pa_sentinel s) offset e pa (allocators s) loc))),
        s\<lparr> allocators := fst (append_entry (pa_sentinel s) offset e pa (allocators s) loc), port_log := l \<rparr>)"
    using usable_run [OF assms(2,3,1) defined, where offset = offset] by metis
  obtain pa' where pa': "fst (append_entry (pa_sentinel s) offset e pa (allocators s) loc) ?p = Some pa'" "region_allocator e pa'"
    using append_entry_allocator [OF defined(1-3) run(1)] by blast
  have wf: "pa_wf pa'" and fields: "pa_size pa' = int (entry_pages e)" "address_base pa' = entry_base e"
      "pa_frees pa' = {metadata_pages (entry_pages e)..<entry_pages e}"
    using pa'(2) by (simp_all add: region_allocator_def frame_ok_def pa_small_def)
  have "pa_shape pa'" using wf by (simp add: pa_wf_def)
  then have "64 + 8 * length (pages_bitmap pa') + 4 * length (pages_stack pa') = pa_metadata_size (entry_pages e)"
    using fields(1) by (simp add: pa_shape_def pa_metadata_size_def)
  moreover have "pa_metadata_size (entry_pages e) \<le> metadata_pages (entry_pages e) * 4096"
    using metadata_covers by (simp only: pa_metadata_covers_def)
  moreover have "(metadata_pages (entry_pages e) - 1) * 4096 \<le> pa_metadata_size (entry_pages e)" by (simp add: metadata_pages_def)
  moreover have "uint (entry_length e) div SYSTEM_PAGE_SIZE = int (entry_pages e)"
    by (simp add: SYSTEM_PAGE_SIZE_def entry_pages_def zdiv_int flip: uint_nat)
  moreover have "loc_last (snd (append_entry (pa_sentinel s) offset e pa (allocators s) loc)) = ?p" by (simp add: append_entry_def Let_def)
  ultimately show ?thesis using run(2) pa' wf fields
    by (intro exI [of _ "fst (append_entry (pa_sentinel s) offset e pa (allocators s) loc)"] exI [of _ l]
        exI [of _ "snd (append_entry (pa_sentinel s) offset e pa (allocators s) loc)"] exI [of _ pa'] exI [of _ "metadata_pages (entry_pages e)"]) simp
qed

theorem system_paging_usable_correct_witness:
  "\<exists>s' loc' pa m. system_paging_usable example_region 0xFFFF800000000000
       \<lparr> loc_last = 0x100, loc_last_16mb = 0x100, loc_last_4gb = 0x100, loc_first_non_16mb = 0x100 \<rparr> example_boot = (Inr (Some loc'), s')
     \<and> allocators s' 0xFFFF800000100000 = Some pa \<and> pa_wf pa \<and> pa_size pa = 32 \<and> pa_frees pa = {m..<32} \<and> 0 < m"
proof -
  let ?loc = "\<lparr> loc_last = 0x100, loc_last_16mb = 0x100, loc_last_4gb = 0x100, loc_first_non_16mb = 0x100 \<rparr> :: setup_locals"
  have "{loc_last ?loc, loc_last_16mb ?loc, loc_last_4gb ?loc, loc_first_non_16mb ?loc} \<subseteq> dom (allocators example_boot)"
    by (simp add: example_boot_fields)
  from system_paging_usable_correct [OF example_boot_fields(9) example_region_ok(1,2) this, of "0xFFFF800000000000"]
  obtain A l loc' pa m where r: "system_paging_usable example_region 0xFFFF800000000000 ?loc example_boot
        = (Inr (Some loc'), example_boot\<lparr> allocators := A, port_log := l \<rparr>)"
      "A (entry_ptr 0xFFFF800000000000 example_region) = Some pa" "pa_wf pa" "pa_size pa = uint (entry_length example_region) div SYSTEM_PAGE_SIZE"
      "pa_frees pa = {m..<nat (pa_size pa)}" "64 + 8 * length (pages_bitmap pa) + 4 * length (pages_stack pa) \<le> m * 4096"
    by blast
  have "entry_ptr 0xFFFF800000000000 example_region = 0xFFFF800000100000" "uint (entry_length example_region) div SYSTEM_PAGE_SIZE = 32"
    by (simp_all add: entry_ptr_def example_region_def SYSTEM_PAGE_SIZE_def)
  moreover have "0 < m" using r(6) by (cases m) simp_all
  ultimately show ?thesis using r by (intro exI [of _ "example_boot\<lparr> allocators := A, port_log := l \<rparr>"] exI [of _ loc'] exI [of _ pa] exI [of _ m]) simp
qed

text \<open>(C40) \<^verbatim>\<open>system_paging_setup\<close> on the memory map of a boot loader: it returns, all pages of the usable regions but those with metadata are
  free in well-formed lists, except for one page for each table of the boot loader, and the processor runs on a copy of the boot loader's tables
  that translates every address as they did. The copy lies in pages of the usable regions, so from here on mapping and unmapping work on it. The map
  is one whose usable regions do not overlap, at least one of them below 16 MB, and the boot loader's tables lie outside them.\<close>

theorem system_paging_setup_correct:
  fixes s :: "'s paging_scheme"
  assumes "console_ready port s" and "memmap_response s = Some es" and "memmap_ok es"
    and "hhdm_response s = Some (revision, offset)" and "exe_addr_response s = Some (physical_base, virtual_base)"
    and "allocators s (pa_sentinel s) \<noteq> None"
    and "distinct (setup_base s # pa_sentinel s # map (entry_ptr offset) (filter usable es))"
    and "regions_ok (filter usable es)" and "length (filter usable es) < list_limit s"
    and "unshared (entries_of offset s) (page_of (cr3 s))" and "page_of (cr3 s) + offset \<noteq> 0"
    and "\<forall>e \<in> set (filter usable es). tables (entries_of offset s) (page_of (cr3 s)) \<inter> region_pages e = {} \<and> - offset \<notin> region_pages e"
    and "card (tables (entries_of offset s) (page_of (cr3 s))) \<le> card (\<Union>e \<in> set (filter usable es). region_free e)"
  shows "\<exists>s' xs ys. system_paging_setup top_of_stack s = (Inr (), s')
     \<and> paging_inv xs ys offset (cr3 s') s'
     \<and> (\<forall>va. mmu_translate (entries_of offset s') (cr3 s') va = mmu_translate (entries_of offset s) (page_of (cr3 s)) va)
     \<and> tables (entries_of offset s') (cr3 s') \<union> frame_free xs ys s' \<subseteq> (\<Union>e \<in> set (filter usable es). region_free e)
     \<and> card (frame_free xs ys s') + card (tables (entries_of offset s) (page_of (cr3 s))) = card (\<Union>e \<in> set (filter usable es). region_free e)"
proof -
  let ?root = "page_of (cr3 s)" and ?F = "\<Union>e \<in> set (filter usable es). region_free e"
  have apart: "\<forall>e \<in> set (filter usable es). tables (entries_of offset s) ?root \<inter> region_pages e = {}" "- offset \<notin> ?F"
    using assms(12) region_free_pages by blast+
  obtain xs ys s1 where s1: "system_paging_setup_lists top_of_stack s = (Inr (), s1)" "console_ready port s1" "paging_inv xs ys offset ?root s1"
      "frame_free xs ys s1 = ?F" "entries_of offset s1 = entries_of offset s" "hhdm_response s1 = hhdm_response s" "cr3 s1 = cr3 s"
    by (rule setup_lists_paging [OF assms(1-11) apart(1), where top_of_stack = top_of_stack])
  obtain l2 where l2: "printf (''PAGING: replacing page table'' @ [newline]) [] s1 = (Inr (), s1\<lparr> port_log := l2 \<rparr>)"
    using prints_run [OF replacing_line(1) s1(2)] .
  define s2 where "s2 = s1\<lparr> port_log := l2 \<rparr>"
  have s2: "paging_inv xs ys offset ?root s2" "frame_free xs ys s2 = ?F" "entries_of offset s2 = entries_of offset s" "console_ready port s2"
      "hhdm_response s2 = Some (revision, offset)" "cr3 s2 = cr3 s"
    using s1 assms(4) by (simp_all add: s2_def paging_inv_fields frame_free_def console_ready_def transmits_def)
  have enough: "card (tables (entries_of offset s2) ?root) \<le> card (frame_free xs ys s2)" "- offset \<notin> frame_free xs ys s2"
    unfolding s2(2,3) by (rule assms(13) apart(2))+
  obtain new u where u: "system_paging_table_clone (?root + offset) s2 = (Inr \<lparr> physical_address = new, virtual_address = new + offset \<rparr>, u)"
      "paging_inv xs ys offset new u" "tables (entries_of offset u) new \<subseteq> ?F"
      "\<And>vs. length vs = 4 \<Longrightarrow> mmu_walk (entries_of offset u) new vs = mmu_walk (entries_of offset s) ?root vs"
      "card ?F = card (frame_free xs ys u) + card (tables (entries_of offset s) ?root)"
      "u = s2\<lparr> memory := memory u, allocators := allocators u \<rparr>" "frame_free xs ys u \<subseteq> ?F"
    by (rule table_clone_run [OF s2(1) enough]) (unfold s2(2,3), blast)
  have ready_u: "console_ready port (u\<lparr> cr3 := new \<rparr>)" using s2(4) by (subst u(6)) (simp add: console_ready_def transmits_def)
  obtain l4 where l4: "printf (''PAGING: replaced page table'' @ [newline]) [] (u\<lparr> cr3 := new \<rparr>) = (Inr (), (u\<lparr> cr3 := new \<rparr>)\<lparr> port_log := l4 \<rparr>)"
    using prints_run [OF replacing_line(2) ready_u] .
  define s' where "s' = (u\<lparr> cr3 := new \<rparr>)\<lparr> port_log := l4 \<rparr>"
  have "system_paging_setup top_of_stack s = (Inr (), s')"
    unfolding system_paging_setup_def kbind_run [where m = "system_paging_setup_lists top_of_stack" and s = s, OF s1(1)]
      kbind_run [where m = "printf (''PAGING: replacing page table'' @ [newline]) []" and s = s1, OF l2] s2_def [symmetric]
    using s2(5,6) l4 u(1) by (simp add: hhdm_offset_def kbind_assoc page_of_def
        kbind_run [where m = "system_paging_table_clone _" and s = s2] s'_def del: append_Cons append_Nil)
  moreover have cr: "cr3 s' = new" "memory s' = memory u" by (simp_all add: s'_def)
  moreover have "paging_inv xs ys offset new s'" using u(2) by (simp add: s'_def paging_inv_fields)
  moreover have "mmu_translate (entries_of offset s') new va = mmu_translate (entries_of offset s) ?root va" for va
    unfolding cr by (simp add: mmu_translate_def u(4) [OF path_of_leaf(2)])
  moreover have "frame_free xs ys s' = frame_free xs ys u" by (simp add: s'_def frame_free_def)
  ultimately show ?thesis using u(3,5,7)
    by (intro exI [of _ s'] exI [of _ xs] exI [of _ ys]) (simp only: cr, simp)
qed

theorem system_paging_setup_correct_witness:
  "\<exists>s'. system_paging_setup 0xFFFF800000110000 example_boot = (Inr (), s') \<and> cr3 s' \<in> region_free example_region
     \<and> (\<exists>xs ys. paging_inv xs ys 0xFFFF800000000000 (cr3 s') s' \<and> card (frame_free xs ys s') = 30)"
proof -
  let ?o = "0xFFFF800000000000 :: U64" and ?es = "[example_region, \<lparr> entry_base = 0xF0000000, entry_length = 0x1000, entry_type = 1 \<rparr>]"
  have us: "filter usable ?es = [example_region]" by (simp add: example_region_ok(3)) (simp add: usable_def LIMINE_MEMMAP_USABLE_def)
  have root: "page_of (cr3 example_boot) = 0x8000" by (simp add: example_boot_fields(8) page_of_def SYSTEM_PAGING_AMD64_FLAG_ADDRESS_def)
  have "frame 0x8000" by (rule frameI) simp_all
  note tree = zero_tables(1,2) [OF example_boot_fields(10) this]
  have map: "memmap_ok ?es"
    using example_region_ok(1) by (simp add: memmap_ok_def) (simp add: example_region_def LIMINE_MEMMAP_USABLE_def usable_def)
  have dist: "distinct (setup_base example_boot # pa_sentinel example_boot # map (entry_ptr ?o) (filter usable ?es))"
    by (simp add: us example_boot_fields entry_ptr_def) (simp add: example_region_def)
  have regions: "regions_ok (filter usable ?es)" using example_region_ok(4) unfolding us by (simp add: regions_ok_def)
  have apart: "\<forall>e \<in> set (filter usable ?es). tables (entries_of ?o example_boot) (page_of (cr3 example_boot)) \<inter> region_pages e = {} \<and> - ?o \<notin> region_pages e"
    using example_region_bound [of "0x8000"] example_region_bound [of "- ?o"] unfolding us root tree(1) by auto
  have count: "card (region_free example_region) = 31"
  proof -
    have "inj_on (\<lambda>k. 0x100000 + of_nat (k * 4096) :: U64) {1..<32}"
    proof (rule inj_onI)
      fix k l :: nat assume kl: "k \<in> {1..<32}" "l \<in> {1..<32}" "0x100000 + of_nat (k * 4096) = (0x100000 + of_nat (l * 4096) :: U64)"
      have u: "unat (of_nat (i * 4096) :: U64) = i * 4096" if "i < 32" for i by (rule unat_of_nat64) (use that in simp)
      have "of_nat (k * 4096) = (of_nat (l * 4096) :: U64)" using kl(3) by (rule add_left_imp_eq)
      then have "unat (of_nat (k * 4096) :: U64) = unat (of_nat (l * 4096) :: U64)" by (simp only:)
      then have "k * 4096 = l * 4096" using kl(1,2) by (simp only: u atLeastLessThan_iff)
      then show "k = l" by simp
    qed
    then show ?thesis by (simp add: example_region_ok(6) card_image)
  qed
  have sentinel: "allocators example_boot (pa_sentinel example_boot) \<noteq> None" by (simp add: example_boot_fields)
  have "length (filter usable ?es) < list_limit example_boot" "unshared (entries_of ?o example_boot) (page_of (cr3 example_boot))"
      "page_of (cr3 example_boot) + ?o \<noteq> 0"
      "card (tables (entries_of ?o example_boot) (page_of (cr3 example_boot))) \<le> card (\<Union>e \<in> set (filter usable ?es). region_free e)"
    unfolding us root by (simp_all add: tree count example_boot_fields(7))
  from system_paging_setup_correct [OF example_boot_fields(9,1) map example_boot_fields(2,3) sentinel dist regions this(1,2,3) apart this(4), of "0xFFFF800000110000"]
  obtain s' xs ys where s': "system_paging_setup 0xFFFF800000110000 example_boot = (Inr (), s')" "paging_inv xs ys ?o (cr3 s') s'"
      "tables (entries_of ?o s') (cr3 s') \<subseteq> region_free example_region" "card (frame_free xs ys s') + 1 = 31"
    unfolding us root tree by (auto simp: count)
  moreover have "cr3 s' \<in> tables (entries_of ?o s') (cr3 s')" using tablesI [of _ _ "[]"] by simp
  moreover have "card (frame_free xs ys s') = 30" using s'(4) by simp
  ultimately show ?thesis by blast
qed

end
