(* ===== verification/Spec2Isabelle.thy ===== *)
theory Spec2Isabelle
  imports Physical_Allocator Rb_Client Kernel_Memory Kernel_Apic Kernel_Setup
begin

text \<open>
  \<^bold>\<open>Drastic: a verification library for the kernel and its range tree.\<close>

  Drastic is a small x86-64 kernel in C, booted by Limine, with a red-black tree of address ranges (\<^verbatim>\<open>experiments/rbtree.c\<close>) that is to
  become the base of its virtual memory manager. \<^verbatim>\<open>kernel/src/main.c\<close> initialises the serial port, prints, and calls \<^verbatim>\<open>system_setup\<close>, which loads
  the descriptor tables, builds the physical page allocators, replaces the page table and looks up ACPI and the APIC.

  \<^bold>\<open>How code becomes definitions.\<close> C integers are words of their width, \<^verbatim>\<open>Int\<close> (\<^verbatim>\<open>ptrdiff_t\<close>) is an integer, structs are records, enums
  datatypes. A function without output returns a \<^typ>\<open>'a result\<close>: a failed assertion, a panic, an access the program has no right to and an exhausted fuel are
  values. A function with output or device access is a \<open>krun\<close>, which also returns the state it ended in, so that what was printed before a
  panic is kept. Loops are recursive functions with a termination proof; where the C loop need not end (polling a device, walking a pointer
  structure) it has fuel, and theorems say how much is enough.

  \<^item> \<open>Kernel_Prelude\<close>: C types (\<^verbatim>\<open>base_def.c\<close>), results, bounds-checked arrays, word lemmas.

  \<^item> \<open>Physical_Allocator\<close> (\<^verbatim>\<open>system_physical_allocator.c\<close>): the page allocator of one memory range, bitmap and stack of free pages. \<open>system_pa_init\<close> gets the bytes the range held
    before, zeroes those of the metadata pages (\<open>zero_bytes\<close>) and reads bitmap and stack from the result, so that what too few
    metadata pages leave behind is kept; \<open>pa_metadata_covers\<close> says that they are enough. Invariant \<open>pa_wf\<close>, all branches of allocation and release, the interface \<open>page_allocator\<close> with its interpretation \<open>pa\<close>, safety of every sequence of calls, and the wrap-around of
    the 32-bit page offset beyond 4 GiB.

  \<^item> \<open>Rb_Range\<close>, \<open>Rb_Node\<close>, \<open>Rb_Tree\<close> (\<^verbatim>\<open>experiments/rbtree.c\<close>): ranges, tagged child pointers over a heap of nodes, rotations, the ordered ring of nodes,
    pages of nodes with their free list, insertion, deletion, search, validation and the test program. \<open>Rb_Abstract\<close> has red-black trees as a
    datatype; \<open>Rb_Refine\<close>, \<open>Rb_Ring\<close>, \<open>Rb_Pool\<close>, \<open>Rb_Insert\<close>, \<open>Rb_Delete\<close> relate heap and datatype; \<open>Rb_Spec\<close> collects the representation invariant \<open>rb_rep\<close> and \<open>Rb_Client\<close>
    the interface \<open>range_set\<close>, its interpretation \<open>rb\<close> and the properties. The fuel bounds the recursion of the code. It is enough when it exceeds the
    height of the tree, which after any run is logarithmic in the number of ranges (\<open>rb_recursion_logarithmic\<close>) and at most 128 for a
    64-bit address space, so the fuel \<open>rb_fuel\<close> = 129 always suffices.

  \<^item> \<open>Kernel_Memory\<close> (\<^verbatim>\<open>memory.c\<close>): \<^verbatim>\<open>memcpy\<close>, \<^verbatim>\<open>memset\<close>, \<^verbatim>\<open>memmove\<close>, \<^verbatim>\<open>memcmp\<close> on a byte memory, little-endian loads and stores, regions.

  \<^item> \<open>Kernel_Bytes\<close> (\<^verbatim>\<open>base_bytes.c\<close>, \<^verbatim>\<open>base_string.c\<close>): buffers and strings as lists with the assertions of the code.

  \<^item> \<open>Kernel_Console\<close> (\<^verbatim>\<open>serial.c\<close>, \<^verbatim>\<open>base_stream.c\<close>, \<^verbatim>\<open>base_panic.c\<close>, the port instructions of \<^verbatim>\<open>base_asm.c\<close>): the device is a parameter, \<open>port_answer\<close>, that may depend on
    all earlier accesses; \<open>poll_limit\<close> bounds busy waiting. The hypothesis \<open>transmits\<close> is the documented promise of the UART that its transmitter
    empties again. The interface \<open>stream_output\<close> says what a stream does with bytes; it is interpreted on the serial and on the no-op stream.

  \<^item> \<open>Kernel_Format\<close>, \<open>Kernel_Logging\<close> (\<^verbatim>\<open>base_format.c\<close>, \<^verbatim>\<open>base_logging.c\<close>): numbers, \<^verbatim>\<open>vformat\<close>, \<^verbatim>\<open>printf\<close> and log messages, proved against digit lists and lists of format
    pieces. The interface \<open>console_output\<close> extends \<open>stream_output\<close> to \<^verbatim>\<open>printf\<close> and panics; it is interpreted for the port of the console and for
    any port (\<open>com\<close>, \<open>ports\<close>).

  \<^item> \<open>Kernel_Machine\<close> (\<^verbatim>\<open>base_asm.c\<close>): registers, memory, the effect of the wrapped instructions.

  \<^item> \<open>Kernel_Gdt\<close>, \<open>Kernel_Idt\<close> (\<^verbatim>\<open>system_gdt.c\<close>, \<^verbatim>\<open>system_idt.c\<close>): descriptors against what the processor decodes, the loaded tables, the interrupt handler.

  \<^item> \<open>Kernel_Acpi\<close>, \<open>Kernel_Apic\<close> (\<^verbatim>\<open>system_acpi.c\<close>, \<^verbatim>\<open>system_apic.c\<close>): table checksums and lookup, legacy interrupt controllers.

  \<^item> \<open>Kernel_Paging\<close> (\<^verbatim>\<open>system_paging.c\<close>): the whole file. The allocators are a store of records by address, the page tables are bytes of memory reached
    through the higher half direct map, walks along a list of allocators have \<open>list_limit\<close> steps. \<open>Kernel_Frames\<close>: the lists (\<open>frame_inv\<close>), the free pages, and
    the interface \<open>frame_source\<close> that page tables rely on. \<open>Kernel_Walk\<close>: what the processor does with a page table, and the abstract
    effect of a new table or entry on it. \<open>Kernel_Translate\<close>: mapping and unmapping against the walk of the processor, under the invariant
    \<open>paging_inv\<close>. \<open>Kernel_Clone\<close>: the copy of a page table, tables only, which translates as the original. \<open>Kernel_Setup\<close>: from the memory map of the boot
    loader to lists that satisfy \<open>frame_inv\<close> and a page table that satisfies \<open>paging_inv\<close>; the list walks are shorter than \<open>list_limit\<close> when
    there are fewer usable regions.

  \<^bold>\<open>Defects shown.\<close> The page offset that wraps at 4 GiB; the limit nibble of segment descriptors that is overwritten by the flags; the ACPI header that is 7
  bytes too short; the wrong message for a format that ends after \<^verbatim>\<open>%b\<close>; the user bit that new page tables lack
  (\<open>system_paging_map_never_user\<close>); the list of regions below 16 MB that stays NULL when there is none (\<open>system_paging_setup_no_low_memory\<close>).

  \<^bold>\<open>Not modelled.\<close> The printing functions of \<^verbatim>\<open>rbtree.c\<close> write to standard output only. The interrupt stubs (\<^verbatim>\<open>system_idt.S\<close>) are assembly. \<^verbatim>\<open>system_vmm.c\<close> declares types
  without operations. \<^verbatim>\<open>main.c\<close> and \<^verbatim>\<open>system_setup\<close> call the modelled operations one after the other; the framebuffer pattern of \<^verbatim>\<open>kmain\<close> is left out. The build program, makefiles and linker scripts are not part of the running system; Limine and the compiler runtime are
  not in the repository.
\<close>

end
